(* ===== verification/Prelude.thy ===== *)
theory Prelude
  imports Main "HOL-Library.Word" "HOL-Library.Monad_Syntax"
begin

text \<open>
  Shared vocabulary of the development.

  \<^item> \<open>u8\<close>, \<open>u32\<close>, \<open>u64\<close>: the C++ types \<open>uint8_t\<close>, \<open>uint32_t\<close>, \<open>uint64_t\<close> (arithmetic
    wraps around, as in C++). Sizes of \<open>std::vector\<close>s and indices into them are \<open>nat\<close>.
  \<^item> A run of C++ code that may stop abnormally has a result of type \<open>'a option\<close>: \<open>None\<close> is
    a run that does not return (a failed \<open>assert\<close>, an access outside an array or through a
    null pointer, a \<open>throw\<close>, an endless loop), \<open>Some r\<close> is a normal return. A theorem that a
    result is \<open>Some\<close> therefore includes the absence of all of these.
  \<^item> \<open>cassert\<close> is the \<open>assert\<close> macro; \<open>vget\<close> and \<open>vset\<close> are \<open>v[i]\<close> and \<open>v[i] = x\<close> on a
    \<open>std::vector\<close>, \<open>vresize\<close> is \<open>std::vector::resize\<close>.
\<close>

unbundle bit_operations_syntax

type_synonym u8 = "8 word"
type_synonym u32 = "32 word"
type_synonym u64 = "64 word"

type_synonym bytes = "u8 list"

named_theorems run_simps \<open>evaluation rules for runs: assertions, vector accesses, binds\<close>
named_theorems inv_intros \<open>introduction rules: operations preserve the component invariants\<close>

definition cassert :: "bool \<Rightarrow> unit option" where
  "cassert P = (if P then Some () else None)"

definition vget :: "'a list \<Rightarrow> nat \<Rightarrow> 'a option" where
  "vget xs i = (if i < length xs then Some (xs ! i) else None)"

definition vset :: "'a list \<Rightarrow> nat \<Rightarrow> 'a \<Rightarrow> 'a list option" where
  "vset xs i x = (if i < length xs then Some (xs[i := x]) else None)"

definition vresize :: "'a list \<Rightarrow> nat \<Rightarrow> 'a \<Rightarrow> 'a list" where
  "vresize xs n d = take n xs @ replicate (n - length xs) d"

text \<open>Swap-with-last removal, the idiom of the dense arrays of \<open>PeersToFlush\<close>,
  \<open>PeerReferences\<close> and \<open>FlatHashMap\<close>.\<close>

definition swap_remove :: "'a list \<Rightarrow> nat \<Rightarrow> 'a list" where
  "swap_remove xs i = butlast (xs[i := last xs])"

lemma cassert_True [simp, run_simps]: "cassert True = Some ()"
  by (simp add: cassert_def)

lemma cassert_False [simp, run_simps]: "cassert False = None"
  by (simp add: cassert_def)

lemma cassert_Some [simp, run_simps]: "cassert P = Some u \<longleftrightarrow> P"
  by (simp add: cassert_def)

lemma cassert_bind_Some [run_simps]: "(cassert P \<bind> f) = Some y \<longleftrightarrow> P \<and> f () = Some y"
  by (simp add: cassert_def)

lemma vget_Some [run_simps]: "vget xs i = Some x \<longleftrightarrow> i < length xs \<and> xs ! i = x"
  by (simp add: vget_def)

lemma vget_ok [simp]: "i < length xs \<Longrightarrow> vget xs i = Some (xs ! i)"
  by (simp add: vget_def)

lemma vset_Some [run_simps]: "vset xs i x = Some ys \<longleftrightarrow> i < length xs \<and> ys = xs[i := x]"
  by (auto simp: vset_def)

lemma vset_ok [simp]: "i < length xs \<Longrightarrow> vset xs i x = Some (xs[i := x])"
  by (simp add: vset_def)

lemma length_vresize [simp]: "length (vresize xs n d) = n"
  by (simp add: vresize_def)

lemma nth_vresize:
  "i < n \<Longrightarrow> vresize xs n d ! i = (if i < length xs then xs ! i else d)"
  by (auto simp: vresize_def nth_append min_def)

lemma vresize_id [simp]: "vresize xs (length xs) d = xs"
  by (simp add: vresize_def)

lemma length_swap_remove [simp]: "length (swap_remove xs i) = length xs - 1"
  by (simp add: swap_remove_def)

lemma nth_swap_remove:
  assumes "i < length xs" "j < length xs - 1"
  shows "swap_remove xs i ! j = (if j = i then last xs else xs ! j)"
  using assms by (auto simp: swap_remove_def nth_butlast nth_list_update)

lemma set_swap_remove:
  assumes "distinct xs" "i < length xs"
  shows "set (swap_remove xs i) = set xs - {xs ! i}"
proof -
  define n where "n = length xs - 1"
  have "xs \<noteq> []" using assms(2) by auto
  then have n: "n < length xs" "last xs = xs ! n"
    by (auto simp: n_def last_conv_nth)
  have nth: "swap_remove xs i ! j = (if j = i then xs ! n else xs ! j)" if "j < n" for j
    using nth_swap_remove [of i xs j] assms(2) that n by (simp add: n_def)
  have "set (swap_remove xs i) = (\<lambda>j. if j = i then xs ! n else xs ! j) ` {..<n}"
    using nth by (force simp: set_conv_nth n_def)
  also have "\<dots> = (\<lambda>j. xs ! j) ` ({..n} - {i})"
  proof (cases "i = n")
    case True
    then show ?thesis by (auto simp: image_iff)
  next
    case False
    then have "i < n" using assms(2) by (simp add: n_def)
    then have "{..n} - {i} = insert n ({..<n} - {i})" by auto
    moreover have "{..<n} = insert i ({..<n} - {i})" using \<open>i < n\<close> by auto
    ultimately show ?thesis
      by (smt (verit) DiffD2 image_cong image_insert insertI1)
  qed
  also have "\<dots> = set xs - {xs ! i}"
  proof -
    have "set xs = (\<lambda>j. xs ! j) ` {..n}"
      using n(1) by (force simp: set_conv_nth n_def)
    moreover have "inj_on (\<lambda>j. xs ! j) {..n}"
      using assms(1) n(1) by (auto simp: inj_on_def nth_eq_iff_index_eq)
    moreover have "i \<le> n" using assms(2) by (simp add: n_def)
    ultimately show ?thesis by (simp add: inj_on_image_set_diff)
  qed
  finally show ?thesis .
qed

lemma distinct_swap_remove:
  assumes "distinct xs" "i < length xs"
  shows "distinct (swap_remove xs i)"
proof -
  have "card (set (swap_remove xs i)) = length xs - 1"
    using assms by (simp add: set_swap_remove distinct_card)
  then show ?thesis
    by (metis card_distinct length_swap_remove)
qed

lemma drop_take_append: "drop n xs = take m (drop n xs) @ drop (n + m) xs"
  by (metis append_take_drop_id drop_drop add.commute)

text \<open>Bits of bytes and words.\<close>

lemma bit_ucast_u8 [simp]: "bit (ucast (x :: u32) :: u8) k \<longleftrightarrow> k < 8 \<and> bit x k"
  by (simp add: bit_simps)

lemma bit_ucast_u32 [simp]: "bit (ucast (x :: u8) :: u32) k \<longleftrightarrow> k < 8 \<and> bit x k"
  by (auto simp: bit_simps dest: bit_imp_le_length)

text \<open>The simplifier turns the bits of a numeral word into bits of an integer.\<close>

lemma bit_255_int [simp]: "bit (255 :: int) k \<longleftrightarrow> k < 8"
  using bit_mask_iff [of 8 k, where ?'a = int] by (simp add: mask_eq_exp_minus_1)

lemma bit_15_int [simp]: "bit (15 :: int) k \<longleftrightarrow> k < 4"
  using bit_mask_iff [of 4 k, where ?'a = int] by (simp add: mask_eq_exp_minus_1)

lemma bit_3_int [simp]: "bit (3 :: int) k \<longleftrightarrow> k < 2"
  using bit_mask_iff [of 2 k, where ?'a = int] by (simp add: mask_eq_exp_minus_1)

lemma bit_2_int [simp]: "bit (2 :: int) k \<longleftrightarrow> k = 1"
  using bit_exp_iff [of 1 k, where ?'a = int] by auto

lemma bit_6_int [simp]: "bit (6 :: int) k \<longleftrightarrow> k = 1 \<or> k = 2"
proof -
  have "(6 :: int) = push_bit 1 3" by (simp add: push_bit_eq_mult)
  then show ?thesis by (simp only: bit_push_bit_iff bit_3_int) auto
qed

end
