(* ===== verification/Framing.thy ===== *)
theory Framing
  imports Prelude
begin

text \<open>
  The wire format of a message header: \<open>src/include/icon7/Flags.hpp\<close> and the header
  functions of \<open>src/src/FramingProtocol.cpp\<close>. A header has 1 to 4 bytes; read as a little
  endian integer its bits 0-1 hold the header size minus one, bits 2-3 the kind of the
  message, the bits from 4 on the size of the body minus one.
\<close>

section \<open>Flags and header functions\<close>

datatype FlagsValues = FLAG_UNRELIABLE | FLAG_RELIABLE | FLAGS_CALL_NO_FEEDBACK | FLAGS_CALL
  | FLAGS_CALL_RETURN_FEEDBACK | FLAGS_PROTOCOL_CONTROLL_SEQUENCE

fun flag :: "FlagsValues \<Rightarrow> u32" where
  "flag FLAG_UNRELIABLE = 0"
| "flag FLAG_RELIABLE = 1"
| "flag FLAGS_CALL_NO_FEEDBACK = 0"
| "flag FLAGS_CALL = 2"
| "flag FLAGS_CALL_RETURN_FEEDBACK = 4"
| "flag FLAGS_PROTOCOL_CONTROLL_SEQUENCE = 6"

definition GetHeaderSize :: "u32 \<Rightarrow> u32" where
  "GetHeaderSize dataSize =
     (if dataSize \<le> push_bit 4 1 then 1
      else if dataSize \<le> push_bit 12 1 then 2
      else if dataSize \<le> push_bit 20 1 then 3
      else if dataSize \<le> push_bit 28 1 then 4
      else 0)"

text \<open>The word \<open>h\<close> that \<open>WriteHeader\<close> assembles before it stores its bytes.\<close>

definition header_word :: "u32 \<Rightarrow> u32 \<Rightarrow> u32 \<Rightarrow> u32" where
  "header_word headerSize dataSize flags =
     push_bit 1 (flags AND 6) OR (headerSize - 1) OR push_bit 4 (dataSize - 1)"

primrec store_header :: "nat \<Rightarrow> u32 \<Rightarrow> bytes \<Rightarrow> bytes option" where
  "store_header 0 h header = Some header"
| "store_header (Suc i) h header =
     do { header' \<leftarrow> store_header i h header;
          vset header' i (ucast (drop_bit (i * 8) h AND 0xFF)) }"

definition WriteHeader :: "bytes \<Rightarrow> u32 \<Rightarrow> u32 \<Rightarrow> u32 \<Rightarrow> bytes option" where
  "WriteHeader header headerSize dataSize flags =
     do { cassert (headerSize \<ge> 1);
          cassert (headerSize \<le> 4);
          store_header (unat headerSize) (header_word headerSize dataSize flags) header }"

definition GetPacketHeaderSize :: "u8 \<Rightarrow> u32" where
  "GetPacketHeaderSize headerFirstByte = ucast (headerFirstByte AND 3) + 1"

definition GetPacketFlags :: "bytes \<Rightarrow> u32 \<Rightarrow> u32 option" where
  "GetPacketFlags header otherFlags =
     do { b \<leftarrow> vget header 0;
          Some (otherFlags OR (ucast (drop_bit 1 b) AND 6)) }"

text \<open>The \<open>switch\<close> falls through from the case of the header size down to case 1; any other
  size logs an error and returns 0, but fails the assertions first.\<close>

definition GetPacketBodySize :: "bytes \<Rightarrow> u8 \<Rightarrow> u32 option" where
  "GetPacketBodySize header headerSize =
     do { cassert (headerSize \<ge> 1);
          cassert (headerSize \<le> 4);
          h3 \<leftarrow> (if headerSize = 4 then do { b \<leftarrow> vget header 3; Some (push_bit 24 (ucast b)) }
                  else Some 0);
          h2 \<leftarrow> (if headerSize \<ge> 3 then do { b \<leftarrow> vget header 2; Some (push_bit 16 (ucast b)) }
                  else Some 0);
          h1 \<leftarrow> (if headerSize \<ge> 2 then do { b \<leftarrow> vget header 1; Some (push_bit 8 (ucast b)) }
                  else Some 0);
          h0 \<leftarrow> do { b \<leftarrow> vget header 0; Some (ucast b) };
          Some (drop_bit 4 (h3 OR h2 OR h1 OR h0 :: u32) + 1) }"

section \<open>The header as a list of bytes\<close>

text \<open>Specification side: the bytes of a word, least significant first, and the complete
  header of a body of \<open>n\<close> bytes.\<close>

definition word_bytes :: "nat \<Rightarrow> u32 \<Rightarrow> bytes" where
  "word_bytes n h = map (\<lambda>i. ucast (drop_bit (i * 8) h)) [0..<n]"

definition header_bytes :: "u32 \<Rightarrow> nat \<Rightarrow> bytes" where
  "header_bytes flags n =
     word_bytes (unat (GetHeaderSize (of_nat n)))
       (header_word (GetHeaderSize (of_nat n)) (of_nat n) flags)"

lemma length_word_bytes [simp]: "length (word_bytes n h) = n"
  by (simp add: word_bytes_def)

lemma nth_word_bytes: "i < n \<Longrightarrow> word_bytes n h ! i = ucast (drop_bit (i * 8) h)"
  by (simp add: word_bytes_def)

lemma word_bytes_Suc: "word_bytes (Suc n) h = word_bytes n h @ [ucast (drop_bit (n * 8) h)]"
  by (simp add: word_bytes_def)

lemma ucast_low_byte [simp]: "ucast (x AND 0xFF :: u32) = (ucast x :: u8)"
  by (rule bit_word_eqI) (auto simp: bit_simps)

lemma store_header_eq:
  "n \<le> length header \<Longrightarrow> store_header n h header = Some (word_bytes n h @ drop n header)"
proof (induction n)
  case 0
  then show ?case by (simp add: word_bytes_def)
next
  case (Suc n)
  then have "store_header n h header = Some (word_bytes n h @ drop n header)" by simp
  moreover have "(word_bytes n h @ drop n header)[n := x] = word_bytes n h @ x # drop (Suc n) header"
    for x
    using Suc.prems by (simp add: list_update_append Cons_nth_drop_Suc [symmetric])
  ultimately show ?case
    using Suc.prems by (simp add: word_bytes_Suc)
qed

lemma store_header_short: "length header < n \<Longrightarrow> store_header n h header = None"
  by (induction n) (auto simp: vset_def store_header_eq not_less less_Suc_eq)

section \<open>Header sizes\<close>

lemma word_le_of_nat_u32:
  assumes "n < 2 ^ 32" "m < 2 ^ 32"
  shows "(of_nat n :: u32) \<le> of_nat m \<longleftrightarrow> n \<le> m"
  using assms by (simp add: word_le_nat_alt unat_of_nat)

lemma GetHeaderSize_of_nat:
  assumes "n < 2 ^ 32"
  shows "GetHeaderSize (of_nat n) =
    (if n \<le> 2 ^ 4 then 1 else if n \<le> 2 ^ 12 then 2 else if n \<le> 2 ^ 20 then 3
     else if n \<le> 2 ^ 28 then 4 else 0)"
proof -
  have "(of_nat n :: u32) \<le> 16 \<longleftrightarrow> n \<le> 16" "(of_nat n :: u32) \<le> 4096 \<longleftrightarrow> n \<le> 4096"
    "(of_nat n :: u32) \<le> 1048576 \<longleftrightarrow> n \<le> 1048576"
    "(of_nat n :: u32) \<le> 268435456 \<longleftrightarrow> n \<le> 268435456"
    using assms word_le_of_nat_u32 [of n 16] word_le_of_nat_u32 [of n 4096]
      word_le_of_nat_u32 [of n 1048576] word_le_of_nat_u32 [of n 268435456] by simp_all
  then show ?thesis
    by (simp add: GetHeaderSize_def)
qed

section \<open>Reading a header back\<close>

lemma bit_header_word:
  assumes "hs \<in> {1, 2, 3, 4}"
  shows "bit (header_word hs ds fl) k \<longleftrightarrow> k < 32 \<and>
    (if k < 2 then bit (hs - 1) k else if k < 4 then bit fl (k - 1) else bit (ds - 1) (k - 4))"
proof -
  have small: "k < 2" if "bit (hs - 1 :: u32) k"
    using assms that by (auto simp: bit_1_iff)
  have flags: "bit (push_bit 1 (fl AND 6)) k \<longleftrightarrow> k < 32 \<and> (k = 2 \<or> k = 3) \<and> bit fl (k - 1)"
    by (simp only: bit_push_bit_iff bit_and_iff possible_bit_def) auto
  show ?thesis
    unfolding header_word_def bit_or_iff flags using small
    by (auto simp: bit_push_bit_iff dest: bit_imp_le_length)
qed

text \<open>Or-ing the byte at bit \<open>n\<close> onto the bytes below it.\<close>

lemma byte_0: "ucast (ucast h :: u8) = take_bit 8 (h :: u32)"
  by (rule bit_word_eqI) (auto simp: bit_simps)

lemma or_byte: "push_bit n (take_bit 8 (drop_bit n h)) OR take_bit n h = take_bit (n + 8) (h :: u32)"
proof (rule bit_word_eqI)
  fix k
  consider "k < n" | "n \<le> k \<and> k < n + 8" | "n + 8 \<le> k" by linarith
  then show "bit (push_bit n (take_bit 8 (drop_bit n h)) OR take_bit n h) k =
    bit (take_bit (n + 8) h) k"
    by cases (auto simp: bit_simps dest: bit_imp_le_length)
qed

lemmas join_bytes = byte_0 or_byte [of 8, simplified] or_byte [of 16, simplified]
  or_byte [of 24, simplified]

lemma GetPacketBodySize_word_bytes:
  assumes "m \<in> {1, 2, 3, 4}"
  shows "GetPacketBodySize (word_bytes m h @ rest) (of_nat m) =
    Some (drop_bit 4 (take_bit (8 * m) h) + 1)"
proof -
  consider "m = 1" | "m = 2" | "m = 3" | "m = 4" using assms by auto
  then show ?thesis
    by cases (simp_all add: GetPacketBodySize_def word_bytes_def nth_append word_le_nat_alt
        join_bytes or.assoc del: drop_bit_or)
qed

text \<open>The body size of a header that carries \<open>n - 1\<close> in its upper bits.\<close>

lemma drop_header_word:
  assumes "hs \<in> {1, 2, 3, 4}" "1 \<le> n" "n \<le> 2 ^ (8 * unat hs - 4)"
  shows "drop_bit 4 (take_bit (8 * unat hs) (header_word hs (of_nat n) fl)) + 1 = of_nat n"
proof -
  have hs: "4 \<le> 8 * unat hs" "8 * unat hs \<le> 32" using assms(1) by auto
  have "n - 1 < 2 ^ (8 * unat hs - 4)" using assms(2,3) by simp
  then have bits: "bit (of_nat (n - 1) :: u32) k \<Longrightarrow> k < 8 * unat hs - 4" for k
    by (metis bit_take_bit_iff of_nat_take_bit take_bit_nat_eq_self)
  have "drop_bit 4 (take_bit (8 * unat hs) (header_word hs (of_nat n) fl)) = of_nat (n - 1)"
  proof (rule bit_word_eqI)
    fix k
    show "bit (drop_bit 4 (take_bit (8 * unat hs) (header_word hs (of_nat n) fl))) k =
      bit (of_nat (n - 1) :: u32) k"
      using bits [of k] hs assms(2)
      by (auto simp: bit_drop_bit_eq bit_take_bit_iff bit_header_word [OF assms(1)] of_nat_diff)
  qed
  then show ?thesis using assms(2) by (simp add: of_nat_diff)
qed

section \<open>Round trip\<close>

lemma GetHeaderSize_fits:
  assumes "1 \<le> n" "n \<le> 2 ^ 28"
  shows "GetHeaderSize (of_nat n) \<in> {1, 2, 3, 4}"
    "n \<le> 2 ^ (8 * unat (GetHeaderSize (of_nat n)) - 4)"
  using assms by (auto simp: GetHeaderSize_of_nat)

lemma length_header_bytes: "length (header_bytes flags n) = unat (GetHeaderSize (of_nat n))"
  by (simp add: header_bytes_def)

lemma header_bytes_nonempty:
  assumes "1 \<le> n" "n \<le> 2 ^ 28"
  shows "header_bytes flags n \<noteq> []"
  using GetHeaderSize_fits(1) [OF assms] by (auto simp: header_bytes_def word_bytes_def)

lemma header_first_byte:
  assumes "1 \<le> n" "n \<le> 2 ^ 28"
  shows "header_bytes flags n ! 0 = ucast (header_word (GetHeaderSize (of_nat n)) (of_nat n) flags)"
  using GetHeaderSize_fits(1) [OF assms] by (auto simp: header_bytes_def nth_word_bytes)

lemma WriteHeader_eq:
  assumes "1 \<le> n" "n \<le> 2 ^ 28" "unat (GetHeaderSize (of_nat n)) \<le> length header"
  shows "WriteHeader header (GetHeaderSize (of_nat n)) (of_nat n) flags =
    Some (header_bytes flags n @ drop (unat (GetHeaderSize (of_nat n))) header)"
proof -
  have "GetHeaderSize (of_nat n) \<ge> 1" "GetHeaderSize (of_nat n) \<le> 4"
    using GetHeaderSize_fits(1) [OF assms(1,2)] by auto
  then show ?thesis
    using assms(3) by (simp add: WriteHeader_def header_bytes_def store_header_eq)
qed

lemma GetPacketHeaderSize_header:
  assumes "1 \<le> n" "n \<le> 2 ^ 28"
  shows "GetPacketHeaderSize (header_bytes flags n ! 0) = GetHeaderSize (of_nat n)"
proof -
  let ?hs = "GetHeaderSize (of_nat n)"
  have hs: "?hs \<in> {1, 2, 3, 4}" by (rule GetHeaderSize_fits(1) [OF assms])
  have "ucast (ucast (header_word ?hs (of_nat n) flags) AND 3 :: u8) = ?hs - 1"
  proof (rule bit_word_eqI)
    fix k
    have "bit (?hs - 1) k \<Longrightarrow> k < 2" using hs by (auto simp: bit_1_iff)
    then show "bit (ucast (ucast (header_word ?hs (of_nat n) flags) AND 3 :: u8) :: u32) k =
      bit (?hs - 1) k"
      by (auto simp: bit_and_iff bit_header_word [OF hs])
  qed
  then show ?thesis
    by (simp add: GetPacketHeaderSize_def header_first_byte [OF assms])
qed

lemma GetPacketFlags_header:
  assumes "1 \<le> n" "n \<le> 2 ^ 28"
  shows "GetPacketFlags (header_bytes flags n @ rest) other = Some (other OR (flags AND 6))"
proof -
  let ?h = "header_word (GetHeaderSize (of_nat n)) (of_nat n) flags"
  have hs: "GetHeaderSize (of_nat n) \<in> {1, 2, 3, 4}" by (rule GetHeaderSize_fits(1) [OF assms])
  have nth: "vget (header_bytes flags n @ rest) 0 = Some (ucast ?h)"
    using header_bytes_nonempty [OF assms] header_first_byte [OF assms]
    by (simp add: vget_def nth_append)
  have "ucast (drop_bit 1 (ucast ?h :: u8)) AND 6 = flags AND 6"
    by (rule bit_word_eqI)
      (auto simp: bit_and_iff bit_drop_bit_eq bit_header_word [OF hs] bit_unsigned_iff)
  then show ?thesis
    by (simp add: GetPacketFlags_def nth)
qed

lemma GetPacketBodySize_header:
  assumes "1 \<le> n" "n \<le> 2 ^ 28"
  shows "GetPacketBodySize (header_bytes flags n @ rest) (ucast (GetHeaderSize (of_nat n))) =
    Some (of_nat n)"
proof -
  let ?hs = "GetHeaderSize (of_nat n)"
  have hs: "?hs \<in> {1, 2, 3, 4}" by (rule GetHeaderSize_fits(1) [OF assms])
  then have m: "unat ?hs \<in> {1, 2, 3, 4}" and c: "(ucast ?hs :: u8) = of_nat (unat ?hs)" by auto
  show ?thesis
    unfolding header_bytes_def c GetPacketBodySize_word_bytes [OF m]
    using drop_header_word [OF hs assms(1) GetHeaderSize_fits(2) [OF assms]] by simp
qed

section \<open>Properties\<close>

text \<open>C28. Header round trip. For every body size from 1 byte to 256 MiB and all flags, the
  header that \<open>WriteHeader\<close> stores at the front of a large enough area leaves the rest of the
  area alone and is read back: \<open>GetPacketHeaderSize\<close> of its first byte gives its length,
  \<open>GetPacketFlags\<close> the two kind bits of the flags (or-ed with the flags of the caller) and
  \<open>GetPacketBodySize\<close> the size of the body.\<close>

theorem header_roundtrip:
  assumes "1 \<le> n" "n \<le> 2 ^ 28" "unat (GetHeaderSize (of_nat n)) \<le> length area"
  shows "\<exists>header. WriteHeader area (GetHeaderSize (of_nat n)) (of_nat n) flags =
      Some (header @ drop (length header) area) \<and>
    unat (GetPacketHeaderSize (header ! 0)) = length header \<and>
    GetPacketFlags (header @ rest) other = Some (other OR (flags AND 6)) \<and>
    GetPacketBodySize (header @ rest) (of_nat (length header)) = Some (of_nat n)"
  using WriteHeader_eq [OF assms] GetPacketHeaderSize_header [OF assms(1,2), of flags]
    GetPacketFlags_header [OF assms(1,2), of flags rest other]
    GetPacketBodySize_header [OF assms(1,2), of flags rest]
  by (intro exI [of _ "header_bytes flags n"]) (simp add: length_header_bytes)

theorem header_roundtrip_witness:
  "\<exists>header. WriteHeader [7, 7, 7] (GetHeaderSize (of_nat 300)) (of_nat 300) 3 =
      Some (header @ drop (length header) [7, 7, 7]) \<and>
    unat (GetPacketHeaderSize (header ! 0)) = length header \<and>
    GetPacketFlags (header @ []) 1 = Some (1 OR (3 AND 6)) \<and>
    GetPacketBodySize (header @ []) (of_nat (length header)) = Some (of_nat 300)"
  by (rule header_roundtrip) (simp_all add: GetHeaderSize_def)

text \<open>C40. The header is the smallest one: its size, 1 to 4 bytes, is the least number of header
  bytes whose size field (all bits but four) has room for the body size minus one.\<close>

theorem header_size_minimal:
  assumes "1 \<le> n" "n \<le> 2 ^ 28"
  shows "unat (GetHeaderSize (of_nat n)) = (LEAST k. 1 \<le> k \<and> n \<le> 2 ^ (8 * k - 4)) \<and>
    unat (GetHeaderSize (of_nat n)) \<le> 4"
proof -
  let ?k = "unat (GetHeaderSize (of_nat n))"
  have k: "1 \<le> ?k" "?k \<le> 4"
    using GetHeaderSize_fits(1) [OF assms] by auto
  have least: "?k \<le> j" if j: "1 \<le> j \<and> n \<le> 2 ^ (8 * j - 4)" for j
  proof (rule ccontr)
    assume "\<not> ?k \<le> j"
    with k j consider "j = 1 \<and> 2 \<le> ?k" | "j = 2 \<and> 3 \<le> ?k" | "j = 3 \<and> 4 \<le> ?k" by linarith
    then show False
      using j assms by cases (auto simp: GetHeaderSize_of_nat split: if_splits)
  qed
  have "(LEAST k. 1 \<le> k \<and> n \<le> 2 ^ (8 * k - 4)) = ?k"
    using k GetHeaderSize_fits(2) [OF assms] least by (intro Least_equality) auto
  with k show ?thesis by simp
qed

theorem header_size_minimal_witness:
  "unat (GetHeaderSize (of_nat 4097)) = (LEAST k. 1 \<le> k \<and> 4097 \<le> (2 :: nat) ^ (8 * k - 4)) \<and>
   unat (GetHeaderSize (of_nat 4097)) \<le> 4"
  by (rule header_size_minimal) simp_all

text \<open>C35. Outside that range the format breaks down. A body of 0 bytes gets a 1-byte header that
  announces a body of 16 bytes (the size minus one wraps around), and a body of more than
  256 MiB gets the header size 0, on which \<open>WriteHeader\<close> fails its assertion.\<close>

theorem header_out_of_range:
  "(\<exists>h. WriteHeader (b # area) (GetHeaderSize 0) 0 flags = Some (h # area) \<and>
      GetPacketHeaderSize h = 1 \<and> GetPacketBodySize (h # rest) 1 = Some 16) \<and>
   (2 ^ 28 < n \<and> n < 2 ^ 32 \<longrightarrow>
      WriteHeader area (GetHeaderSize (of_nat n)) (of_nat n) flags = None)"
proof (intro conjI impI exI)
  let ?h = "header_word 1 0 flags"
  have hs: "GetHeaderSize 0 = 1" by (simp add: GetHeaderSize_def)
  show "WriteHeader (b # area) (GetHeaderSize 0) 0 flags = Some (ucast ?h # area)"
    by (simp add: WriteHeader_def hs vset_def)
  have "ucast (ucast ?h AND 3 :: u8) = (0 :: u32)"
    by (rule bit_word_eqI) (auto simp: bit_and_iff bit_header_word)
  then show "GetPacketHeaderSize (ucast ?h) = 1"
    by (simp add: GetPacketHeaderSize_def)
  have "drop_bit 4 (take_bit 8 ?h) = (15 :: u32)"
    by (rule bit_word_eqI) (auto simp: bit_drop_bit_eq bit_take_bit_iff bit_header_word)
  then show "GetPacketBodySize (ucast ?h # rest) 1 = Some 16"
    using GetPacketBodySize_word_bytes [of 1 ?h rest] by (simp add: word_bytes_def)
  assume "2 ^ 28 < n \<and> n < 2 ^ 32"
  then show "WriteHeader area (GetHeaderSize (of_nat n)) (of_nat n) flags = None"
    by (simp add: GetHeaderSize_of_nat WriteHeader_def)
qed

theorem header_out_of_range_witness:
  "WriteHeader [0, 0, 0, 0] (GetHeaderSize (of_nat 268435457)) (of_nat 268435457) 0 = None"
  using header_out_of_range [of 0 "[0, 0, 0, 0]" 0 "[]" 268435457] by simp

end
