(* ===== verification/Byte_Buffer.thy ===== *)
theory Byte_Buffer
  imports Framing
begin

text \<open>
  The growable byte buffers of \<open>src/include/icon7/ByteBuffer.hpp\<close> and
  \<open>src/src/ByteBuffer.cpp\<close>. A \<open>ByteBufferWritable\<close> owns one memory block. Its \<open>buffer\<close>
  pointer points \<open>_offset\<close> bytes into the block, so that the front of the block can later
  hold the \<open>ByteBufferStorageHeader\<close> (20 bytes) and the bytes that \<open>prepend\<close> adds; the
  model keeps the whole block, from its start, as a list of bytes.

  Memory comes from \<open>MemoryPool::Allocate\<close>. What the allocator returns is the parameter
  \<open>A\<close>: \<open>A n\<close> is the block (of unspecified contents) for a request of \<open>n\<close> bytes, its length
  the usable size. \<open>pool_ok\<close> states that a block is as large as requested, which
  \<open>MemoryPool::Allocate\<close> checks, and that its size is a \<open>uint32_t\<close>.
\<close>

section \<open>Model\<close>

definition INITIAL_DATA_OFFSET :: nat where
  "INITIAL_DATA_OFFSET = 32"

text \<open>\<open>sizeof(ByteBufferStorageHeader)\<close>: five 32-bit members.\<close>

definition sizeof_StorageHeader :: nat where
  "sizeof_StorageHeader = 20"

definition pool_ok :: "(nat \<Rightarrow> bytes) \<Rightarrow> bool" where
  "pool_ok A \<longleftrightarrow> (\<forall>n < 2 ^ 31. n \<le> length (A n) \<and> length (A n) < 2 ^ 32)"

record ByteBufferWritable =
  buffer :: "bytes option"
  bsize :: nat
  bcapacity :: nat
  boffset :: nat
  bflags :: u32

definition BBW_null :: ByteBufferWritable where
  "BBW_null = \<lparr>buffer = None, bsize = 0, bcapacity = 0, boffset = 0, bflags = 0\<rparr>"

text \<open>\<open>memcpy\<close> of \<open>src\<close> to position \<open>pos\<close> of a block; a null block only takes an empty copy.\<close>

fun blit :: "bytes option \<Rightarrow> nat \<Rightarrow> bytes \<Rightarrow> bytes option option" where
  "blit None pos src = (if src = [] then Some None else None)"
| "blit (Some blk) pos src =
     (if pos + length src \<le> length blk
      then Some (Some (take pos blk @ src @ drop (pos + length src) blk)) else None)"

text \<open>The bytes of the buffer: \<open>_size\<close> bytes from \<open>buffer\<close> on.\<close>

definition contents :: "ByteBufferWritable \<Rightarrow> bytes" where
  "contents b = (case buffer b of None \<Rightarrow> [] | Some blk \<Rightarrow> take (bsize b) (drop (boffset b) blk))"

fun bit_width :: "nat \<Rightarrow> nat" where
  "bit_width n = (if n = 0 then 0 else Suc (bit_width (n div 2)))"

declare bit_width.simps [simp del]

text \<open>The loop of \<open>round_capacity_up\<close>, on \<open>uint32_t\<close> values.\<close>

partial_function (option) shrink_to :: "nat \<Rightarrow> nat \<Rightarrow> nat \<Rightarrow> nat option" where
  "shrink_to maxCap capacity diff =
     (if maxCap \<ge> capacity then shrink_to ((maxCap + 2 ^ 32 - diff) mod 2 ^ 32) capacity diff
      else Some maxCap)"

definition round_capacity_up :: "nat \<Rightarrow> nat option" where
  "round_capacity_up cap0 =
     do { cassert (cap0 < 2 ^ 30);
          let capacity = cap0 + INITIAL_DATA_OFFSET;
          let width = bit_width (max capacity 64);
          let diff = 2 ^ (width - 2);
          maxCap \<leftarrow> shrink_to (2 ^ width) capacity diff;
          Some (maxCap + diff - INITIAL_DATA_OFFSET) }"

definition BBW_new :: "(nat \<Rightarrow> bytes) \<Rightarrow> nat \<Rightarrow> ByteBufferWritable option" where
  "BBW_new A cap0 =
     (if cap0 = 0 then Some BBW_null
      else do { capacity \<leftarrow> round_capacity_up cap0;
                let blk = A (capacity + INITIAL_DATA_OFFSET);
                Some \<lparr>buffer = Some blk, bsize = 0, bcapacity = length blk - INITIAL_DATA_OFFSET,
                  boffset = INITIAL_DATA_OFFSET, bflags = 0\<rparr> })"

text \<open>\<open>reserve\<close> and \<open>append\<close> with the reallocation step as an argument: \<open>reserve_or_shrink\<close>
  itself appends to the new buffer, and that inner append must not grow the buffer again.\<close>

definition reserve_with ::
  "(ByteBufferWritable \<Rightarrow> nat \<Rightarrow> ByteBufferWritable option) \<Rightarrow> ByteBufferWritable \<Rightarrow> nat \<Rightarrow>
   ByteBufferWritable option" where
  "reserve_with grow b newCapacity =
     do { cassert (newCapacity < 2 ^ 30);
          cassert (bcapacity b \<ge> bsize b);
          b \<leftarrow> (if newCapacity > bcapacity b
                 then do { cassert (newCapacity \<ge> bsize b);
                           b' \<leftarrow> grow b newCapacity;
                           cassert (buffer b' \<noteq> None);
                           cassert (bcapacity b' \<ge> newCapacity);
                           Some b' }
                 else Some b);
          (if buffer b \<noteq> None then do { cassert (bcapacity b \<noteq> 0); cassert (boffset b \<noteq> 0) }
           else do { cassert (bcapacity b = 0); cassert (boffset b = 0); cassert (bsize b = 0) });
          Some b }"

definition append_with ::
  "(ByteBufferWritable \<Rightarrow> nat \<Rightarrow> ByteBufferWritable option) \<Rightarrow> ByteBufferWritable \<Rightarrow> bytes \<Rightarrow>
   ByteBufferWritable option" where
  "append_with grow b src =
     do { b \<leftarrow> reserve_with grow b ((bsize b + length src) mod 2 ^ 32);
          blk \<leftarrow> blit (buffer b) (boffset b + bsize b) src;
          Some (b\<lparr>buffer := blk, bsize := bsize b + length src\<rparr>) }"

definition reserve_or_shrink ::
  "(nat \<Rightarrow> bytes) \<Rightarrow> ByteBufferWritable \<Rightarrow> nat \<Rightarrow> ByteBufferWritable option" where
  "reserve_or_shrink A b minCapacity =
     do { cassert (bsize b \<le> bcapacity b);
          capacity \<leftarrow> round_capacity_up minCapacity;
          buf \<leftarrow> BBW_new A capacity;
          let buf = buf\<lparr>bflags := bflags b\<rparr>;
          buf \<leftarrow> (if buffer b \<noteq> None
                   then append_with (\<lambda>_ _. None) buf (take (bcapacity buf) (contents b))
                   else do { cassert (bsize b = 0); cassert (bcapacity b = 0);
                             cassert (boffset b = 0); Some buf });
          cassert (buffer buf \<noteq> None);
          Some buf }"

definition reserve :: "(nat \<Rightarrow> bytes) \<Rightarrow> ByteBufferWritable \<Rightarrow> nat \<Rightarrow> ByteBufferWritable option" where
  "reserve A = reserve_with (reserve_or_shrink A)"

definition append_bytes ::
  "(nat \<Rightarrow> bytes) \<Rightarrow> ByteBufferWritable \<Rightarrow> bytes \<Rightarrow> ByteBufferWritable option" where
  "append_bytes A = append_with (reserve_or_shrink A)"

definition push_back :: "(nat \<Rightarrow> bytes) \<Rightarrow> ByteBufferWritable \<Rightarrow> u8 \<Rightarrow> ByteBufferWritable option" where
  "push_back A b byte =
     do { b \<leftarrow> reserve A b ((bsize b + 1) mod 2 ^ 32);
          blk \<leftarrow> blit (buffer b) (boffset b + bsize b) [byte];
          Some (b\<lparr>buffer := blk, bsize := bsize b + 1\<rparr>) }"

definition resize :: "(nat \<Rightarrow> bytes) \<Rightarrow> ByteBufferWritable \<Rightarrow> nat \<Rightarrow> ByteBufferWritable option" where
  "resize A b newSize =
     do { b \<leftarrow> (if bcapacity b < newSize then reserve A b newSize else Some b);
          Some (b\<lparr>bsize := newSize\<rparr>) }"

definition clear :: "ByteBufferWritable \<Rightarrow> ByteBufferWritable option" where
  "clear b =
     (case buffer b of
        Some blk \<Rightarrow> Some \<lparr>buffer = Some blk, bsize = 0,
          bcapacity = bcapacity b + boffset b - INITIAL_DATA_OFFSET,
          boffset = INITIAL_DATA_OFFSET, bflags = 0\<rparr>
      | None \<Rightarrow> do { cassert (bcapacity b = 0); cassert (boffset b = 0);
                  Some (b\<lparr>bsize := 0, bflags := 0\<rparr>) })"

text \<open>\<open>prepend(src, bytes)\<close>: \<open>src\<close> is \<open>None\<close> for a null pointer, then the new bytes stay
  unspecified (whatever the block holds there).\<close>

definition prepend ::
  "(nat \<Rightarrow> bytes) \<Rightarrow> ByteBufferWritable \<Rightarrow> bytes option \<Rightarrow> nat \<Rightarrow> ByteBufferWritable option" where
  "prepend A b src n =
     do { cassert ((buffer b \<noteq> None \<and> bcapacity b \<noteq> 0) \<or> (buffer b = None \<and> bcapacity b = 0));
          (if boffset b < sizeof_StorageHeader + n
           then do { buf \<leftarrow> BBW_new A ((n + bcapacity b) mod 2 ^ 32);
                     buf \<leftarrow> (case src of Some s \<Rightarrow> append_bytes A buf s
                                      | None \<Rightarrow> Some (buf\<lparr>bsize := bsize buf + n\<rparr>));
                     (if bsize b \<noteq> 0 then append_bytes A buf (contents b) else Some buf) }
           else if buffer b = None
           then (case src of Some s \<Rightarrow> append_bytes A b s | None \<Rightarrow> resize A b n)
           else do { let b = b\<lparr>boffset := boffset b - n, bsize := bsize b + n,
                               bcapacity := bcapacity b + n\<rparr>;
                     (case src of None \<Rightarrow> Some b
                       | Some s \<Rightarrow> do { blk \<leftarrow> blit (buffer b) (boffset b) s;
                                      Some (b\<lparr>buffer := blk\<rparr>) }) }) }"

definition copy_BBW :: "(nat \<Rightarrow> bytes) \<Rightarrow> ByteBufferWritable \<Rightarrow> ByteBufferWritable option" where
  "copy_BBW A ob =
     (if buffer ob \<noteq> None
      then do { b \<leftarrow> BBW_new A (bsize ob);
                b \<leftarrow> append_bytes A b (contents ob);
                Some (b\<lparr>bflags := bflags ob\<rparr>) }
      else Some BBW_null)"

section \<open>Invariant\<close>

definition bw_inv :: "ByteBufferWritable \<Rightarrow> bool" where
  "bw_inv b \<longleftrightarrow> (case buffer b of
     None \<Rightarrow> bsize b = 0 \<and> bcapacity b = 0 \<and> boffset b = 0
   | Some blk \<Rightarrow> length blk = boffset b + bcapacity b \<and> bsize b \<le> bcapacity b \<and>
       sizeof_StorageHeader \<le> boffset b \<and> boffset b \<le> INITIAL_DATA_OFFSET \<and>
       INITIAL_DATA_OFFSET < length blk)"

section \<open>Rounding capacities\<close>

lemma bit_width_bounds: "0 < n \<Longrightarrow> 2 ^ (bit_width n - 1) \<le> n \<and> n < 2 ^ bit_width n \<and> 0 < bit_width n"
proof (induction n rule: bit_width.induct)
  case (1 n)
  show ?case
  proof (cases "n div 2 = 0")
    case True
    with "1.prems" have "n = 1" by auto
    then show ?thesis by (simp add: bit_width.simps)
  next
    case False
    let ?w = "bit_width (n div 2)"
    have w: "bit_width n = Suc ?w" using "1.prems" by (simp add: bit_width.simps [of n])
    have IH: "2 ^ (?w - 1) \<le> n div 2" "n div 2 < 2 ^ ?w" "0 < ?w"
      using "1.IH" "1.prems" False by auto
    then have "2 * 2 ^ (?w - 1) = (2 :: nat) ^ ?w" by (metis Suc_diff_1 power_Suc)
    with IH have "2 ^ ?w \<le> 2 * (n div 2)" "2 * Suc (n div 2) \<le> 2 * 2 ^ ?w" by auto
    moreover have "n < 2 * Suc (n div 2)" "2 * (n div 2) \<le> n" by presburger+
    ultimately have "2 ^ ?w \<le> n" "n < 2 * 2 ^ ?w" by (blast intro: le_trans less_le_trans)+
    then show ?thesis by (simp add: w)
  qed
qed

lemma shrink_to_eq:
  assumes "0 < capacity" "0 < diff" "k * diff < 2 ^ 32"
  shows "shrink_to (k * diff) capacity diff = Some (min k ((capacity - 1) div diff) * diff)"
  using assms(3)
proof (induction k)
  case 0
  then show ?case using assms(1) by (simp add: shrink_to.simps)
next
  case (Suc k)
  show ?case
  proof (cases "capacity \<le> Suc k * diff")
    case True
    have "(Suc k * diff + 2 ^ 32 - diff) mod 2 ^ 32 = k * diff"
      using Suc.prems by (simp add: mod_add_self2)
    moreover have "(capacity - 1) div diff \<le> k"
      using True assms(1,2) by (simp add: div_less_iff_less_mult flip: less_Suc_eq_le)
    ultimately show ?thesis
      using True Suc by (subst shrink_to.simps) simp
  next
    case False
    then have "Suc k * diff \<le> capacity - 1" by simp
    then have "Suc k \<le> (capacity - 1) div diff"
      using assms(2) by (simp only: less_eq_div_iff_mult_less_eq)
    then show ?thesis using False by (subst shrink_to.simps) (simp add: min_def)
  qed
qed

text \<open>\<open>rstep c\<close> is the granularity for a total of \<open>c\<close> bytes: a quarter of the next power of 2.\<close>

definition rstep :: "nat \<Rightarrow> nat" where
  "rstep c = 2 ^ (bit_width (max c 64) - 2)"

lemma bit_width_eqI: "2 ^ w \<le> n \<Longrightarrow> n < 2 ^ Suc w \<Longrightarrow> bit_width n = Suc w"
proof -
  assume a: "2 ^ w \<le> n" "n < 2 ^ Suc w"
  then have "0 < n" by (cases n) auto
  from bit_width_bounds [OF this] have b: "2 ^ (bit_width n - 1) \<le> n" "n < 2 ^ bit_width n"
    "0 < bit_width n" by auto
  have "w < bit_width n" using le_less_trans [OF a(1) b(2)] power_less_imp_less_exp [of "2 :: nat" w] by simp
  moreover have "bit_width n - 1 < Suc w"
    using le_less_trans [OF b(1) a(2)] power_less_imp_less_exp [of "2 :: nat" "bit_width n - 1" "Suc w"] by simp
  ultimately show ?thesis by simp
qed

lemma rstep_bounds:
  assumes "c < 2 ^ 31"
  shows "32 \<le> rstep c" "c < 4 * rstep c" "2 * rstep c \<le> max c 64" "4 * rstep c < 2 ^ 32"
    "4 * rstep c = 2 ^ bit_width (max c 64)"
proof -
  let ?m = "max c 64" let ?w = "bit_width ?m"
  have b: "2 ^ (?w - 1) \<le> ?m" "?m < 2 ^ ?w" using bit_width_bounds [of ?m] by auto
  have "(2 :: nat) ^ 6 < 2 ^ ?w" using b(2) by simp
  then have w: "7 \<le> ?w" using power_less_imp_less_exp [of "2 :: nat" 6 ?w] by simp
  have "(2 :: nat) ^ (?w - 1) < 2 ^ 31" using b(1) assms by simp
  then have w2: "?w \<le> 31" using power_less_imp_less_exp [of "2 :: nat" "?w - 1" 31] by simp
  obtain v where v: "?w = v + 2" "5 \<le> v" "v \<le> 29" using w w2 by (intro that [of "?w - 2"]) auto
  have r: "rstep c = 2 ^ v" using v by (simp add: rstep_def)
  show "32 \<le> rstep c" using power_increasing [OF v(2), of "2 :: nat"] by (simp add: r)
  show q: "4 * rstep c = 2 ^ bit_width ?m" using v by (simp add: r power_add)
  show "c < 4 * rstep c" using b(2) unfolding q by simp
  show "2 * rstep c \<le> ?m" using b(1) v by (simp add: r)
  show "4 * rstep c < 2 ^ 32" unfolding q using w2 by (intro power_strict_increasing) auto
qed

lemma round_capacity_up_eq:
  assumes "cap0 < 2 ^ 30"
  defines "c \<equiv> cap0 + 32"
  shows "round_capacity_up cap0 = Some (Suc ((c - 1) div rstep c) * rstep c - 32)"
proof -
  have c: "c < 2 ^ 31" "0 < c" using assms by auto
  note r = rstep_bounds [OF c(1)]
  have "(c - 1) div rstep c \<le> 4"
    using r(1,2) by (simp add: div_less_iff_less_mult flip: less_Suc_eq_le)
  then have "shrink_to (4 * rstep c) c (rstep c) = Some ((c - 1) div rstep c * rstep c)"
    using shrink_to_eq [OF c(2) _ r(4)] r(1) by simp
  then show ?thesis
    using assms(1) r(5) unfolding round_capacity_up_def
    by (simp add: INITIAL_DATA_OFFSET_def Let_def rstep_def c_def add.commute)
qed

lemma ceil_mult:
  assumes "0 < d" "0 < c"
  shows "c \<le> Suc ((c - 1) div d) * d" "Suc ((c - 1) div d) * d < c + d"
proof -
  have "(c - 1) div d * d + (c - 1) mod d = c - 1" by simp
  then show "c \<le> Suc ((c - 1) div d) * d" "Suc ((c - 1) div d) * d < c + d"
    using mod_less_divisor [OF assms(1), of "c - 1"] assms(2) unfolding mult_Suc by linarith+
qed

lemma round_capacity_up_fits:
  assumes "cap0 < 2 ^ 30"
  shows "\<exists>r. round_capacity_up cap0 = Some r \<and> cap0 \<le> r \<and> 2 * (r + 32) \<le> 3 * max (cap0 + 32) 64 \<and>
    rstep (cap0 + 32) dvd r + 32"
proof -
  let ?c = "cap0 + 32" let ?d = "rstep ?c" let ?m = "Suc ((?c - 1) div ?d) * ?d"
  have "?c < 2 ^ 31" using assms by simp
  note r = rstep_bounds [OF this]
  have m: "?c \<le> ?m" "?m < ?c + ?d"
    using ceil_mult [of ?d ?c] r(1) by auto
  have "2 * ?m \<le> 3 * max ?c 64"
  proof (cases "64 \<le> ?c")
    case True
    then show ?thesis using m r(3) by simp
  next
    case False
    then have "?m < 128" "2 * ?d \<le> 64" using m r by auto
    then have "?d = 32" using r(1) by simp
    with False have "(?c - 1) div ?d \<le> 1" by simp
    with \<open>?d = 32\<close> show ?thesis by simp
  qed
  moreover have "?m - 32 + 32 = ?m" using m(1) by linarith
  moreover have "cap0 \<le> ?m - 32" using m(1) by linarith
  ultimately show ?thesis by (intro exI [of _ "?m - 32"]) (simp only: round_capacity_up_eq [OF assms] dvd_triv_right simp_thms)
qed

lemma rstep_dvd:
  assumes "c < 2 ^ 31" "rstep c dvd x" "c \<le> x" "0 < x" "x \<le> 4 * rstep c" "x < 2 ^ 31"
  shows "rstep x dvd x"
proof -
  note r = rstep_bounds [OF assms(1)] and q = rstep_bounds [OF assms(6)]
  consider "x < 64" | "64 \<le> x" "x < 4 * rstep c" | "x = 4 * rstep c" "64 \<le> x" using assms(5) r(1) by linarith
  then show ?thesis
  proof cases
    case 1
    then have "rstep c = 32" "rstep x = 32" using r(1,3) q(1,3) assms(3) by auto
    with assms(2) show ?thesis by simp
  next
    case 2
    let ?w = "bit_width (max c 64)"
    have "2 ^ (?w - 1) \<le> max c 64" "0 < ?w" using bit_width_bounds [of "max c 64"] by auto
    then have "bit_width (max x 64) = Suc (?w - 1)"
      using 2 assms(3) r(5) by (intro bit_width_eqI) auto
    then have "rstep x = rstep c" using \<open>0 < ?w\<close> by (simp add: rstep_def)
    with assms(2) show ?thesis by simp
  next
    case 3
    then have x: "x = 2 ^ bit_width (max c 64)" using r(5) by simp
    then have "bit_width (max x 64) = Suc (bit_width (max c 64))"
      using 3 by (intro bit_width_eqI) auto
    then show ?thesis by (simp add: rstep_def x le_imp_power_dvd)
  qed
qed

lemma round_capacity_up_idem:
  assumes "round_capacity_up cap0 = Some r" "cap0 < 2 ^ 30" "r < 2 ^ 30"
  shows "round_capacity_up r = Some r"
proof -
  let ?c = "cap0 + 32" let ?x = "r + 32"
  have c: "?c < 2 ^ 31" "?x < 2 ^ 31" using assms by auto
  note q = rstep_bounds [OF c(1)] and y = rstep_bounds [OF c(2)]
  have r: "?x = Suc ((?c - 1) div rstep ?c) * rstep ?c"
    using round_capacity_up_eq [OF assms(2)] assms(1) q(1) by simp
  moreover have "Suc ((?c - 1) div rstep ?c) \<le> 4"
    using q(1,2) less_mult_imp_div_less [of "?c - 1" 4 "rstep ?c"] by simp
  ultimately have "?x \<le> 4 * rstep ?c" by simp
  moreover have "cap0 \<le> r" using round_capacity_up_fits [OF assms(2)] assms(1) by auto
  ultimately have "rstep ?x dvd ?x" using r c by (intro rstep_dvd [OF c(1)]) auto
  then obtain k where k: "?x = k * rstep ?x" by (metis dvd_div_mult_self)
  then obtain j where j: "k = Suc j" by (cases k) auto
  have "?x - 1 = j * rstep ?x + (rstep ?x - 1)" using k y(1) unfolding j by simp
  then have "(?x - 1) div rstep ?x = j"
    using y(1) by (metis div_less div_mult_self3 add_0_right One_nat_def diff_less
        less_numeral_extra(1) not_numeral_le_zero neq0_conv)
  then show ?thesis using round_capacity_up_eq [OF assms(3)] k unfolding j by simp
qed

section \<open>Laws of the operations\<close>

text \<open>The largest size a buffer can grow to: two roundings in a row must stay below \<open>2 ^ 30\<close>.\<close>

definition size_limit :: nat where
  "size_limit = 2 ^ 30 - 32"

lemma round_capacity_up_limit:
  assumes "n \<le> size_limit"
  shows "\<exists>r. round_capacity_up n = Some r \<and> n \<le> r \<and> r \<le> size_limit"
proof -
  have n: "n < 2 ^ 30" "n + 32 < 2 ^ 31" using assms by (auto simp: size_limit_def)
  note q = rstep_bounds [OF n(2)]
  obtain r where r: "round_capacity_up n = Some r" "n \<le> r" "rstep (n + 32) dvd r + 32"
    using round_capacity_up_fits [OF n(1)] by blast
  have e: "r = Suc ((n + 31) div rstep (n + 32)) * rstep (n + 32) - 32"
    using round_capacity_up_eq [OF n(1)] r(1) by (simp add: add.commute)
  have "rstep (n + 32) dvd 2 ^ 30"
    using q(4) power_less_imp_less_exp [of "2 :: nat" _ 30] unfolding rstep_def
    by (intro le_imp_power_dvd less_imp_le_nat) simp
  then obtain k where k: "2 ^ 30 = rstep (n + 32) * k" by (elim dvdE)
  have "(n + 31) div rstep (n + 32) < k"
    using assms k by (intro less_mult_imp_div_less) (simp add: size_limit_def mult.commute)
  then have "Suc ((n + 31) div rstep (n + 32)) * rstep (n + 32) \<le> k * rstep (n + 32)"
    by (intro mult_le_mono1) simp
  then have "r \<le> size_limit" using e k by (simp add: size_limit_def mult.commute)
  with r show ?thesis by blast
qed

lemma bw_inv_None: "buffer b = None \<Longrightarrow> bw_inv b \<longleftrightarrow> bsize b = 0 \<and> bcapacity b = 0 \<and> boffset b = 0"
  by (simp add: bw_inv_def)

lemma bw_inv_Some: "buffer b = Some blk \<Longrightarrow> bw_inv b \<longleftrightarrow>
    length blk = boffset b + bcapacity b \<and> bsize b \<le> bcapacity b \<and> 20 \<le> boffset b \<and> boffset b \<le> 32 \<and>
    32 < length blk"
  by (simp add: bw_inv_def sizeof_StorageHeader_def INITIAL_DATA_OFFSET_def)

lemma contents_None: "buffer b = None \<Longrightarrow> contents b = []"
  by (simp add: contents_def)

lemma contents_Some: "buffer b = Some blk \<Longrightarrow> contents b = take (bsize b) (drop (boffset b) blk)"
  by (simp add: contents_def)

lemma bw_inv_null [simp]: "bw_inv BBW_null" "contents BBW_null = []" "bsize BBW_null = 0"
    "bflags BBW_null = 0" "buffer BBW_null = None" "bcapacity BBW_null = 0"
  by (auto simp: bw_inv_def contents_def BBW_null_def)

lemma length_contents: "bw_inv b \<Longrightarrow> length (contents b) = bsize b"
  by (auto simp: bw_inv_def contents_def split: option.splits)

lemma bflags_update [simp]:
  "bw_inv (b\<lparr>bflags := f\<rparr>) = bw_inv b" "contents (b\<lparr>bflags := f\<rparr>) = contents b"
  by (simp_all add: bw_inv_def contents_def split: option.split)

lemma BBW_new_ok:
  assumes "pool_ok A" "0 < n" "n < 2 ^ 30"
  shows "\<exists>b. BBW_new A n = Some b \<and> bw_inv b \<and> bsize b = 0 \<and> n \<le> bcapacity b \<and> buffer b \<noteq> None \<and>
    bflags b = 0 \<and> boffset b = 32"
proof -
  obtain r where r: "round_capacity_up n = Some r" "n \<le> r" "2 * (r + 32) \<le> 3 * max (n + 32) 64"
    using round_capacity_up_fits [OF assms(3)] by blast
  then have "r + 32 < 2 ^ 31" using assms(3) by (simp add: max_def split: if_splits)
  then have "r + 32 \<le> length (A (r + 32))" using assms(1) by (auto simp: pool_ok_def)
  then show ?thesis using r assms(2)
    by (simp add: BBW_new_def INITIAL_DATA_OFFSET_def Let_def bw_inv_Some)
qed

lemma reserve_with_fit:
  assumes "bw_inv b" "n \<le> bcapacity b" "n < 2 ^ 30"
  shows "reserve_with grow b n = Some b"
  using assms by (cases "buffer b") (auto simp: reserve_with_def bw_inv_Some bw_inv_None)

lemma append_with_fit:
  assumes "bw_inv b" "bsize b + length src \<le> bcapacity b" "bsize b + length src < 2 ^ 30"
  shows "\<exists>b'. append_with grow b src = Some b' \<and> bw_inv b' \<and> contents b' = contents b @ src \<and>
    bcapacity b' = bcapacity b \<and> boffset b' = boffset b \<and> bflags b' = bflags b \<and>
    (buffer b' = None \<longleftrightarrow> buffer b = None)"
proof -
  have e: "(bsize b + length src) mod 2 ^ 32 = bsize b + length src" using assms(3) by simp
  show ?thesis
    using assms reserve_with_fit [OF assms]
    by (cases "buffer b")
       (auto simp: append_with_def e bw_inv_Some bw_inv_None contents_Some contents_None drop_take)
qed

lemma reserve_or_shrink_ok:
  assumes "pool_ok A" "bw_inv b" "bsize b \<le> n" "0 < n" "n \<le> size_limit"
  shows "\<exists>b'. reserve_or_shrink A b n = Some b' \<and> bw_inv b' \<and> contents b' = contents b \<and>
    n \<le> bcapacity b' \<and> bflags b' = bflags b \<and> buffer b' \<noteq> None"
proof -
  obtain r where r: "round_capacity_up n = Some r" "n \<le> r" "r \<le> size_limit"
    using round_capacity_up_limit [OF assms(5)] by blast
  have lim: "r < 2 ^ 30" "0 < r" using r(2,3) assms(4) by (auto simp: size_limit_def)
  obtain c where c: "BBW_new A r = Some c" "bw_inv c" "bsize c = 0" "r \<le> bcapacity c"
      "buffer c \<noteq> None" "boffset c = 32"
    using BBW_new_ok [OF assms(1) lim(2,1)] by blast
  let ?c = "c\<lparr>bflags := bflags b\<rparr>"
  have i: "bw_inv ?c" "contents ?c = []" using c(2,3,5) by (auto simp: bw_inv_Some contents_Some)
  have t: "take (bcapacity ?c) (contents b) = contents b"
    using length_contents [OF assms(2)] assms(3) r(2) c(4) by simp
  have f: "bsize ?c + length (contents b) \<le> bcapacity ?c" "bsize ?c + length (contents b) < 2 ^ 30"
    using length_contents [OF assms(2)] assms(3) r(2) c(3,4) lim by auto
  obtain d where "append_with (\<lambda>_ _. None) ?c (contents b) = Some d" "bw_inv d"
      "contents d = contents b" "bcapacity d = bcapacity c" "bflags d = bflags b" "buffer d \<noteq> None"
    using append_with_fit [OF i(1) f] i(2) c(5) by force
  then show ?thesis
    using r c assms(2) i t
    by (cases "buffer b")
       (auto simp: reserve_or_shrink_def bw_inv_None bw_inv_Some contents_None Let_def)
qed

lemma reserve_ok:
  assumes "pool_ok A" "bw_inv b" "n \<le> size_limit"
  shows "\<exists>b'. reserve A b n = Some b' \<and> bw_inv b' \<and> contents b' = contents b \<and>
    max n (bcapacity b) \<le> bcapacity b' \<and> bflags b' = bflags b"
proof (cases "n \<le> bcapacity b")
  case True
  then show ?thesis
    using assms reserve_with_fit [OF assms(2) True] by (simp add: reserve_def size_limit_def)
next
  case False
  have s: "bsize b \<le> bcapacity b" using assms(2) by (auto simp: bw_inv_def split: option.splits)
  with False obtain b' where b': "reserve_or_shrink A b n = Some b'" "bw_inv b'"
      "contents b' = contents b" "n \<le> bcapacity b'" "bflags b' = bflags b" "buffer b' \<noteq> None"
    using reserve_or_shrink_ok [OF assms(1,2) _ _ assms(3)] by auto
  then show ?thesis
    using False assms(3) s
    by (auto simp: reserve_def reserve_with_def size_limit_def bw_inv_Some)
qed

lemma append_with_reserve:
  assumes "reserve_with g b ((bsize b + length src) mod 2 ^ 32) = Some b'" "bsize b' = bsize b"
    "bw_inv b'" "bsize b + length src \<le> bcapacity b'" "bsize b + length src < 2 ^ 30"
  shows "append_with g b src = append_with g b' src"
  using assms reserve_with_fit [OF assms(3,4), of g] by (simp add: append_with_def)

lemma append_bytes_ok:
  assumes "pool_ok A" "bw_inv b" "bsize b + length src \<le> size_limit"
  shows "\<exists>b'. append_bytes A b src = Some b' \<and> bw_inv b' \<and> contents b' = contents b @ src \<and>
    bflags b' = bflags b"
proof -
  obtain c where c: "reserve A b (bsize b + length src) = Some c" "bw_inv c"
      "contents c = contents b" "bsize b + length src \<le> bcapacity c" "bflags c = bflags b"
    using reserve_ok [OF assms] by auto
  have s: "bsize c = bsize b" using length_contents [OF assms(2)] length_contents [OF c(2)] c(3) by simp
  have l: "bsize b + length src < 2 ^ 30" using assms(3) by (simp add: size_limit_def)
  then have "append_bytes A b src = append_with (reserve_or_shrink A) c src"
    using c s unfolding append_bytes_def
    by (intro append_with_reserve) (simp_all add: reserve_def)
  then show ?thesis using append_with_fit [OF c(2), of src] s l c by auto
qed

lemma push_back_eq: "push_back A b byte = append_bytes A b [byte]"
  by (simp add: push_back_def append_bytes_def append_with_def reserve_def)

lemma bsize_update_inv:
  assumes "bw_inv b" "m \<le> bcapacity b"
  shows "bw_inv (b\<lparr>bsize := m\<rparr>)"
    and "take (min m (bsize b)) (contents (b\<lparr>bsize := m\<rparr>)) = take m (contents b)"
  using assms by (cases "buffer b"; force simp: bw_inv_Some bw_inv_None contents_Some contents_None min_def)+

lemma resize_ok:
  assumes "pool_ok A" "bw_inv b" "n \<le> size_limit"
  shows "\<exists>b'. resize A b n = Some b' \<and> bw_inv b' \<and> bsize b' = n \<and>
    take (min n (bsize b)) (contents b') = take n (contents b) \<and> bflags b' = bflags b"
proof (cases "bcapacity b < n")
  case True
  obtain c where c: "reserve A b n = Some c" "bw_inv c" "contents c = contents b" "n \<le> bcapacity c"
      "bflags c = bflags b" "bsize c = bsize b"
    using reserve_ok [OF assms] length_contents [OF assms(2)] length_contents by fastforce
  with True bsize_update_inv [OF c(2,4)] show ?thesis by (simp add: resize_def)
next
  case False
  with bsize_update_inv [OF assms(2), of n] show ?thesis by (simp add: resize_def)
qed

lemma clear_ok:
  assumes "bw_inv b"
  shows "\<exists>b'. clear b = Some b' \<and> bw_inv b' \<and> contents b' = [] \<and> bflags b' = 0 \<and>
    (buffer b = None \<longleftrightarrow> buffer b' = None) \<and> (buffer b \<noteq> None \<longrightarrow> boffset b' = INITIAL_DATA_OFFSET)"
  using assms
  by (cases "buffer b") (auto simp: clear_def bw_inv_Some bw_inv_None contents_Some contents_None
      INITIAL_DATA_OFFSET_def)

lemma copy_BBW_ok:
  assumes "pool_ok A" "bw_inv b" "bsize b \<le> size_limit"
  shows "\<exists>b'. copy_BBW A b = Some b' \<and> bw_inv b' \<and> contents b' = contents b \<and> bflags b' = (if buffer b = None then 0 else bflags b)"
proof (cases "buffer b")
  case None
  then show ?thesis by (simp add: copy_BBW_def contents_None)
next
  case (Some blk)
  obtain c where c: "BBW_new A (bsize b) = Some c" "bw_inv c" "bsize c = 0"
    using BBW_new_ok [OF assms(1), of "bsize b"] assms(3)
    by (cases "bsize b = 0") (auto simp: BBW_new_def size_limit_def)
  then obtain d where d: "append_bytes A c (contents b) = Some d" "bw_inv d" "contents d = contents c @ contents b"
    using append_bytes_ok [OF assms(1) c(2), of "contents b"] assms(3) length_contents [OF assms(2)] by auto
  have "contents c = []" using length_contents [OF c(2)] c(3) by simp
  then show ?thesis using Some c d by (simp add: copy_BBW_def)
qed

text \<open>\<open>prepend\<close> without reallocation: the bytes go into the room in front.\<close>

lemma prepend_in_place:
  assumes "bw_inv b" "buffer b \<noteq> None" "20 + length s \<le> boffset b"
  shows "\<exists>b'. prepend A b (Some s) (length s) = Some b' \<and> bw_inv b' \<and> contents b' = s @ contents b \<and>
    bflags b' = bflags b \<and> boffset b' = boffset b - length s \<and> buffer b' \<noteq> None"
  using assms
  by (auto simp: prepend_def sizeof_StorageHeader_def bw_inv_Some contents_Some Let_def)

lemma prepend_realloc:
  assumes "pool_ok A" "bw_inv b" "boffset b < 20 + length s" "length s + bcapacity b \<le> size_limit"
  shows "\<exists>b'. prepend A b (Some s) (length s) = Some b' \<and> bw_inv b' \<and> contents b' = s @ contents b \<and>
    bflags b' = 0"
proof -
  have sz: "bsize b \<le> bcapacity b" "(buffer b \<noteq> None \<and> bcapacity b \<noteq> 0) \<or> (buffer b = None \<and> bcapacity b = 0)"
    using assms(2) by (auto simp: bw_inv_def INITIAL_DATA_OFFSET_def split: option.splits)
  have m: "(length s + bcapacity b) mod 2 ^ 32 = length s + bcapacity b"
    using assms(4) by (simp add: size_limit_def)
  obtain c where c: "BBW_new A (length s + bcapacity b) = Some c" "bw_inv c" "bsize c = 0" "bflags c = 0"
    using BBW_new_ok [OF assms(1), of "length s + bcapacity b"] assms(4)
    by (cases "length s + bcapacity b = 0") (auto simp: BBW_new_def size_limit_def)
  then have "contents c = []" using length_contents by fastforce
  with c obtain d where d: "append_bytes A c s = Some d" "bw_inv d" "contents d = s" "bflags d = 0"
    using append_bytes_ok [OF assms(1) c(2), of s] assms(4) by auto
  then have "bsize d = length s" using length_contents by fastforce
  with d obtain e where "append_bytes A d (contents b) = Some e" "bw_inv e" "contents e = s @ contents b" "bflags e = 0"
    using append_bytes_ok [OF assms(1) d(2), of "contents b"] assms(4) length_contents [OF assms(2)] sz by auto
  moreover have "bsize b = 0 \<Longrightarrow> contents b = []" using length_contents [OF assms(2)] by simp
  ultimately show ?thesis using sz c d assms(3) m
    by (auto simp: prepend_def sizeof_StorageHeader_def)
qed

lemma prepend_null_in_place:
  assumes "bw_inv b" "buffer b \<noteq> None" "20 + n \<le> boffset b"
  shows "\<exists>b' pre. prepend A b None n = Some b' \<and> bw_inv b' \<and> contents b' = pre @ contents b \<and>
    length pre = n \<and> bflags b' = bflags b \<and> buffer b' \<noteq> None"
proof -
  obtain blk where blk: "buffer b = Some blk" using assms(2) by auto
  let ?b = "b\<lparr>boffset := boffset b - n, bsize := bsize b + n, bcapacity := bcapacity b + n\<rparr>"
  have p: "prepend A b None n = Some ?b" "bw_inv ?b"
    using assms blk by (auto simp: prepend_def sizeof_StorageHeader_def bw_inv_Some Let_def)
  have "contents ?b = take n (drop (boffset b - n) blk) @ contents b"
    using assms blk by (simp add: contents_Some take_add add.commute [of "bsize b"] drop_take_append)
  moreover have "length (take n (drop (boffset b - n) blk)) = n"
    using assms blk by (simp add: bw_inv_Some)
  ultimately show ?thesis using p assms(2) by auto
qed

section \<open>The interface of a byte buffer\<close>

text \<open>What the users of a buffer rely on: \<open>data\<close> is its contents, and as long as the contents
  stay within \<open>limit\<close> bytes, appending, reserving and clearing always succeed.\<close>

locale byte_store =
  fixes data :: "'b \<Rightarrow> bytes"
    and inv :: "'b \<Rightarrow> bool"
    and app :: "'b \<Rightarrow> bytes \<Rightarrow> 'b option"
    and res :: "'b \<Rightarrow> nat \<Rightarrow> 'b option"
    and clr :: "'b \<Rightarrow> 'b option"
    and limit :: nat
  assumes app_law: "inv b \<Longrightarrow> length (data b) + length xs \<le> limit \<Longrightarrow>
      \<exists>b'. app b xs = Some b' \<and> inv b' \<and> data b' = data b @ xs"
    and res_law: "inv b \<Longrightarrow> n \<le> limit \<Longrightarrow> \<exists>b'. res b n = Some b' \<and> inv b' \<and> data b' = data b"
    and clr_law: "inv b \<Longrightarrow> \<exists>b'. clr b = Some b' \<and> inv b' \<and> data b' = []"
begin

lemma appE:
  assumes "inv b" "length (data b) + length xs \<le> limit"
  obtains b' where "app b xs = Some b'" "inv b'" "data b' = data b @ xs"
  using app_law [OF assms] by blast

lemma resE:
  assumes "inv b" "n \<le> limit"
  obtains b' where "res b n = Some b'" "inv b'" "data b' = data b"
  using res_law [OF assms] by blast

lemma clrE:
  assumes "inv b"
  obtains b' where "clr b = Some b'" "inv b'" "data b' = []"
  using clr_law [OF assms] by blast

text \<open>Reserving first, then appending in two portions, is appending at once.\<close>

lemma reserve_append_append:
  assumes "inv b" "n \<le> limit" "length (data b) + length xs + length ys \<le> limit"
  shows "\<exists>b'. do { b \<leftarrow> res b n; b \<leftarrow> app b xs; app b ys } = Some b' \<and> inv b' \<and>
    data b' = data b @ xs @ ys"
proof -
  obtain c where c: "res b n = Some c" "inv c" "data c = data b" using assms(1,2) by (rule resE)
  obtain d where d: "app c xs = Some d" "inv d" "data d = data c @ xs"
    using c assms(3) by (elim appE [of c xs]) auto
  obtain e where "app d ys = Some e" "inv e" "data e = data d @ ys"
    using d c assms(3) by (elim appE [of d ys]) auto
  with c d show ?thesis by simp
qed

end

interpretation bb: byte_store contents "\<lambda>b. pool_ok A \<and> bw_inv b" "append_bytes A" "reserve A" clear size_limit
  for A
proof (unfold_locales, goal_cases)
  case (1 b xs)
  then show ?case using append_bytes_ok [of A b xs] length_contents [of b] by auto
next
  case (2 b n)
  then show ?case using reserve_ok [of A b n] by auto
next
  case (3 b)
  then show ?case using clear_ok [of b] by auto
qed

section \<open>All operations against their specification\<close>

text \<open>An operation of the interface, what it may assume of the buffer, its run, and its effect on
  the contents as a relation (bytes that \<open>resize\<close> adds are unspecified).\<close>

datatype buf_op = Op_append bytes | Op_push_back u8 | Op_reserve nat | Op_resize nat | Op_clear
  | Op_prepend bytes | Op_copy

fun op_fits :: "buf_op \<Rightarrow> ByteBufferWritable \<Rightarrow> bool" where
  "op_fits (Op_append xs) b = (bsize b + length xs \<le> size_limit)"
| "op_fits (Op_push_back x) b = (bsize b + 1 \<le> size_limit)"
| "op_fits (Op_reserve n) b = (n \<le> size_limit)"
| "op_fits (Op_resize n) b = (n \<le> size_limit)"
| "op_fits Op_clear b = True"
| "op_fits (Op_prepend xs) b = (length xs + 20 \<le> boffset b \<or> length xs + bcapacity b \<le> size_limit)"
| "op_fits Op_copy b = (bsize b \<le> size_limit)"

fun exec_op :: "(nat \<Rightarrow> bytes) \<Rightarrow> buf_op \<Rightarrow> ByteBufferWritable \<Rightarrow> ByteBufferWritable option" where
  "exec_op A (Op_append xs) b = append_bytes A b xs"
| "exec_op A (Op_push_back x) b = push_back A b x"
| "exec_op A (Op_reserve n) b = reserve A b n"
| "exec_op A (Op_resize n) b = resize A b n"
| "exec_op A Op_clear b = clear b"
| "exec_op A (Op_prepend xs) b = prepend A b (Some xs) (length xs)"
| "exec_op A Op_copy b = copy_BBW A b"

fun op_spec :: "buf_op \<Rightarrow> bytes \<Rightarrow> bytes \<Rightarrow> bool" where
  "op_spec (Op_append xs) c c' = (c' = c @ xs)"
| "op_spec (Op_push_back x) c c' = (c' = c @ [x])"
| "op_spec (Op_reserve n) c c' = (c' = c)"
| "op_spec (Op_resize n) c c' = (length c' = n \<and> take (min n (length c)) c' = take n c)"
| "op_spec Op_clear c c' = (c' = [])"
| "op_spec (Op_prepend xs) c c' = (c' = xs @ c)"
| "op_spec Op_copy c c' = (c' = c)"

lemma prepend_ok:
  assumes "pool_ok A" "bw_inv b" "op_fits (Op_prepend s) b"
  shows "\<exists>b'. prepend A b (Some s) (length s) = Some b' \<and> bw_inv b' \<and> contents b' = s @ contents b"
proof (cases "boffset b < 20 + length s")
  case True
  then show ?thesis using prepend_realloc [OF assms(1,2) True] assms(3) by auto
next
  case False
  then have "buffer b \<noteq> None" using assms(2) by (cases "buffer b") (auto simp: bw_inv_None)
  then show ?thesis using prepend_in_place [OF assms(2)] False by force
qed

section \<open>Properties\<close>


lemma pool_ok_zeros: "pool_ok (\<lambda>n. replicate n 0)"
  by (simp add: pool_ok_def)




end
