(* ===== verification/Frame_Decoder.thy ===== *)
theory Frame_Decoder
  imports Byte_Buffer
begin

text \<open>
  Building frames (\<open>FramingProtocol::WriteHeaderIntoBuffer\<close>) and cutting a received byte stream
  back into frames (\<open>src/src/FrameDecoder.cpp\<close>), on top of the buffers of \<open>Byte_Buffer\<close>. The
  theory also has the part of \<open>ByteBufferReadable\<close> that the decoder uses: the move from a
  writable buffer and \<open>TryRecycle\<close>.

  Parameters: \<open>A\<close>, the allocator; \<open>onPacket\<close>, the callback (\<open>None\<close> for a null pointer), which
  gets the readable buffer, the header size and the user's state, and may move the buffer
  out of the reference it is given; \<open>refc\<close>, the value of the reference counter of a storage
  when \<open>TryRecycle\<close> looks at it, as a function of the user's state (the callback and other
  threads can hold further references).

  \<open>frame_len\<close>, \<open>next_frame\<close> and \<open>split_frames\<close> are the specification: the frames of a byte list
  and the rest that is not a whole frame yet.
\<close>

section \<open>Readable buffers\<close>

text \<open>The storage header sits in the first 20 bytes of the block; the model keeps its members
  as fields and the reference counter apart.\<close>

record Storage =
  sblock :: bytes
  ssize :: nat
  soffset :: nat
  scapacity :: nat
  sflags :: u32

type_synonym ByteBufferReadable = "Storage option"

definition BBR_of :: "ByteBufferWritable \<Rightarrow> ByteBufferReadable" where
  "BBR_of b = (case buffer b of
     None \<Rightarrow> None
   | Some blk \<Rightarrow> Some \<lparr>sblock = blk, ssize = bsize b, soffset = boffset b, scapacity = bcapacity b,
       sflags = bflags b\<rparr>)"

definition storage_bytes :: "Storage \<Rightarrow> bytes" where
  "storage_bytes st = take (ssize st) (drop (soffset st) (sblock st))"

definition readable_capacity :: "ByteBufferReadable \<Rightarrow> nat" where
  "readable_capacity r = (case r of None \<Rightarrow> 0 | Some st \<Rightarrow> scapacity st)"

text \<open>\<open>TryRecycle\<close> with the current value of the reference counter: the writable buffer it
  returns and the readable buffer it leaves.\<close>

definition TryRecycle :: "(Storage \<Rightarrow> nat) \<Rightarrow> ByteBufferReadable \<Rightarrow>
    (ByteBufferWritable \<times> ByteBufferReadable) option" where
  "TryRecycle refs r = (case r of
     None \<Rightarrow> Some (BBW_null, None)
   | Some st \<Rightarrow>
       if refs st = 1
       then (let cap = soffset st + scapacity st in
         Some (\<lparr>buffer = Some (sblock st), bsize = 0, bcapacity = cap - INITIAL_DATA_OFFSET,
                boffset = INITIAL_DATA_OFFSET, bflags = 0\<rparr>, None))
       else do { cassert (refs st \<ge> 1); Some (BBW_null, Some st) })"

section \<open>Writing frames\<close>

definition WriteHeaderIntoBuffer ::
  "(nat \<Rightarrow> bytes) \<Rightarrow> ByteBufferWritable \<Rightarrow> u32 \<Rightarrow> (ByteBufferWritable \<times> bool) option" where
  "WriteHeaderIntoBuffer A b flags =
     do { let size = bsize b;
          let b = b\<lparr>bflags := flags\<rparr>;
          let headerSize = GetHeaderSize (of_nat size);
          b \<leftarrow> prepend A b None (unat headerSize);
          blk \<leftarrow> buffer b;
          header \<leftarrow> WriteHeader (drop (boffset b) blk) headerSize (of_nat size) flags;
          Some (b\<lparr>buffer := Some (take (boffset b) blk @ header)\<rparr>, True) }"

section \<open>The decoder\<close>

text \<open>\<open>fatals\<close> counts the \<open>LOG_FATAL\<close> messages about a broken algorithm.\<close>

record FrameDecoder =
  wbuf :: ByteBufferWritable
  rbuf :: ByteBufferReadable
  headerSize :: nat
  frameSize :: nat
  fatals :: nat

definition FrameDecoder_new :: FrameDecoder where
  "FrameDecoder_new = \<lparr>wbuf = BBW_null, rbuf = None, headerSize = 0, frameSize = 0, fatals = 0\<rparr>"

definition log_fatal :: "bool \<Rightarrow> FrameDecoder \<Rightarrow> FrameDecoder" where
  "log_fatal bad d = (if bad then d\<lparr>fatals := Suc (fatals d)\<rparr> else d)"

definition Restart :: "(Storage \<Rightarrow> nat) \<Rightarrow> FrameDecoder \<Rightarrow> FrameDecoder option" where
  "Restart refs d =
     do { (w, r) \<leftarrow> (if bcapacity (wbuf d) = 0 then TryRecycle refs (rbuf d)
                     else if readable_capacity (rbuf d) > bcapacity (wbuf d) then TryRecycle refs (rbuf d)
                     else Some (wbuf d, rbuf d));
          w \<leftarrow> clear w;
          Some (d\<lparr>wbuf := w, rbuf := r, headerSize := 0, frameSize := 0\<rparr>) }"

text \<open>The steps of one round of the loop of \<open>PushData\<close>; \<open>data\<close> is the rest of the input. First,
  the first byte of a frame.\<close>

definition start_header ::
  "(nat \<Rightarrow> bytes) \<Rightarrow> FrameDecoder \<Rightarrow> bytes \<Rightarrow> (FrameDecoder \<times> bytes) option" where
  "start_header A d data =
     (if headerSize d = 0
      then do { cassert (bsize (wbuf d) = 0);
                byte \<leftarrow> vget data 0;
                w \<leftarrow> append_bytes A (wbuf d) (take 1 data);
                Some (d\<lparr>headerSize := unat (GetPacketHeaderSize byte), wbuf := w\<rparr>, drop 1 data) }
      else do { cassert (bsize (wbuf d) \<noteq> 0); Some (d, data) })"

text \<open>The rest of the header.\<close>

definition fill_header ::
  "(nat \<Rightarrow> bytes) \<Rightarrow> FrameDecoder \<Rightarrow> bytes \<Rightarrow> (FrameDecoder \<times> bytes) option" where
  "fill_header A d data =
     (if bsize (wbuf d) < headerSize d
      then do { let n = min (length data) (headerSize d - bsize (wbuf d));
                w \<leftarrow> append_bytes A (wbuf d) (take n data);
                Some (d\<lparr>wbuf := w\<rparr>, drop n data) }
      else Some (d, data))"

text \<open>The size of the frame, once the header is complete.\<close>

definition measure_frame :: "(nat \<Rightarrow> bytes) \<Rightarrow> FrameDecoder \<Rightarrow> FrameDecoder option" where
  "measure_frame A d =
     (if bsize (wbuf d) = headerSize d
      then do { body \<leftarrow> GetPacketBodySize (contents (wbuf d)) (of_nat (headerSize d));
                let n = (headerSize d + unat body) mod 2 ^ 32;
                w \<leftarrow> reserve A (wbuf d) n;
                Some (d\<lparr>frameSize := n, wbuf := w\<rparr>) }
      else Some (log_fatal (frameSize d = 0) d))"

text \<open>The body.\<close>

definition fill_body ::
  "(nat \<Rightarrow> bytes) \<Rightarrow> FrameDecoder \<Rightarrow> bytes \<Rightarrow> (FrameDecoder \<times> bytes) option" where
  "fill_body A d data =
     (if bsize (wbuf d) < frameSize d
      then do { let n = min (frameSize d - bsize (wbuf d)) (length data);
                let d = log_fatal (n > frameSize d) d;
                w \<leftarrow> append_bytes A (wbuf d) (take n data);
                Some (d\<lparr>wbuf := w\<rparr>, drop n data) }
      else Some (log_fatal True d, data))"

text \<open>A complete frame goes to the callback; its buffer is reused when nobody kept it.\<close>

definition deliver ::
  "(Storage \<Rightarrow> nat \<Rightarrow> 'u \<Rightarrow> ByteBufferReadable \<times> 'u) option \<Rightarrow> ('u \<Rightarrow> Storage \<Rightarrow> nat) \<Rightarrow>
   FrameDecoder \<Rightarrow> 'u \<Rightarrow> (FrameDecoder \<times> 'u) option" where
  "deliver onPacket refc d u = (case onPacket of
     None \<Rightarrow> do { d \<leftarrow> Restart (refc u) d; Some (d, u) }
   | Some f \<Rightarrow>
       do { st \<leftarrow> BBR_of (wbuf d);
            let (buf, u) = f st (headerSize d) u;
            (w, buf) \<leftarrow> TryRecycle (refc u) buf;
            d \<leftarrow> Restart (refc u) (d\<lparr>wbuf := w\<rparr>);
            Some (if rbuf d = None then d\<lparr>rbuf := buf\<rparr> else d, u) })"

partial_function (option) push_loop ::
  "(nat \<Rightarrow> bytes) \<Rightarrow> (Storage \<Rightarrow> nat \<Rightarrow> 'u \<Rightarrow> ByteBufferReadable \<times> 'u) option \<Rightarrow>
   ('u \<Rightarrow> Storage \<Rightarrow> nat) \<Rightarrow> FrameDecoder \<Rightarrow> 'u \<Rightarrow> bytes \<Rightarrow> (FrameDecoder \<times> 'u) option" where
  "push_loop A onPacket refc d u data =
     (if data = [] then Some (d, u)
      else do {
        (d, data) \<leftarrow> start_header A d data;
        (d, data) \<leftarrow> fill_header A d data;
        (if bsize (wbuf d) < headerSize d then Some (log_fatal (data \<noteq> []) d, u)
         else do {
           d \<leftarrow> measure_frame A d;
           (d, data) \<leftarrow> fill_body A d data;
           (if bsize (wbuf d) = frameSize d
            then do { (d, u) \<leftarrow> deliver onPacket refc d u;
                      push_loop A onPacket refc d u data }
            else if bsize (wbuf d) > frameSize d then None
            else Some (d, u)) }) })"

text \<open>Inputs of \<open>2 ^ 31\<close> bytes and more, whose length is negative as an \<open>int\<close>, are first pushed
  in portions of 1 MiB.\<close>

definition TMP_LEN :: nat where
  "TMP_LEN = 2 ^ 20"

partial_function (option) PushData ::
  "(nat \<Rightarrow> bytes) \<Rightarrow> (Storage \<Rightarrow> nat \<Rightarrow> 'u \<Rightarrow> ByteBufferReadable \<times> 'u) option \<Rightarrow>
   ('u \<Rightarrow> Storage \<Rightarrow> nat) \<Rightarrow> FrameDecoder \<Rightarrow> 'u \<Rightarrow> bytes \<Rightarrow> (FrameDecoder \<times> 'u) option" where
  "PushData A onPacket refc d u data =
     (if length data \<ge> 2 ^ 31
      then do { cassert (length data > TMP_LEN);
                (d, u) \<leftarrow> PushData A onPacket refc d u (take TMP_LEN data);
                PushData A onPacket refc d u (drop TMP_LEN data) }
      else push_loop A onPacket refc d u data)"

section \<open>Specification: the frames of a byte list\<close>

definition frame_len :: "bytes \<Rightarrow> nat option" where
  "frame_len xs =
     (if xs = [] then None
      else let hs = unat (GetPacketHeaderSize (xs ! 0)) in
        if length xs < hs then None
        else map_option (\<lambda>body. hs + unat body) (GetPacketBodySize xs (of_nat hs)))"

definition next_frame :: "bytes \<Rightarrow> (bytes \<times> bytes) option" where
  "next_frame xs = (case frame_len xs of
     None \<Rightarrow> None
   | Some n \<Rightarrow> if length xs < n then None else Some (take n xs, drop n xs))"

lemma unat_ucast_u8: "unat (ucast (x :: u8) :: u32) = unat x"
  using unsigned_less [of x, where 'a = nat] by (simp add: unsigned_ucast_eq take_bit_nat_eq_self)

lemma header_size_range: "1 \<le> unat (GetPacketHeaderSize x)" "unat (GetPacketHeaderSize x) \<le> 4"
proof -
  have "unat (ucast (x AND 3) :: u32) \<le> 3"
    using word_and_le1 [of x 3] by (simp add: word_le_nat_alt unat_ucast_u8)
  then show "1 \<le> unat (GetPacketHeaderSize x)" "unat (GetPacketHeaderSize x) \<le> 4"
    by (simp_all add: GetPacketHeaderSize_def unat_word_ariths)
qed

lemma header_size_nonzero: "GetPacketHeaderSize x \<noteq> 0" "0 < unat (GetPacketHeaderSize x)"
  using header_size_range(1) [of x] by (auto simp del: unat_gt_0)

lemma unat_body_word: "1 \<le> unat (drop_bit 4 (w :: u32) + 1)" "unat (drop_bit 4 (w :: u32) + 1) \<le> 2 ^ 28"
proof -
  have "unat (drop_bit 4 w) < 2 ^ 28"
    using unsigned_less [of w, where 'a = nat] unfolding unsigned_drop_bit_eq
    by (simp add: drop_bit_eq_div [of _ "_ :: nat"] take_bit_eq_mod [of _ "_ :: nat"])
  then show "1 \<le> unat (drop_bit 4 w + 1)" "unat (drop_bit 4 w + 1) \<le> 2 ^ 28"
    by (simp_all add: unat_word_ariths)
qed

lemma GetPacketBodySize_range:
  "GetPacketBodySize xs m = Some w \<Longrightarrow> 1 \<le> unat w \<and> unat w \<le> 2 ^ 28"
proof -
  assume "GetPacketBodySize xs m = Some w"
  then have "\<exists>h. w = drop_bit 4 h + 1"
    unfolding GetPacketBodySize_def bind_eq_Some_conv option.inject by metis
  then show ?thesis using unat_body_word by blast
qed

lemma GetPacketBodySize_prefix:
  assumes "1 \<le> m" "m \<le> 4" "m \<le> length xs"
  shows "\<exists>w. GetPacketBodySize xs (of_nat m) = Some w \<and> GetPacketBodySize (xs @ ys) (of_nat m) = Some w"
proof -
  have "xs \<noteq> []" using assms(1,3) by auto
  consider "m = 1" | "m = 2" | "m = 3" | "m = 4" using assms(1,2) by linarith
  then show ?thesis
    using assms(3) \<open>xs \<noteq> []\<close>
    by cases (simp_all add: GetPacketBodySize_def nth_append word_le_nat_alt)
qed

lemma frame_len_bounds:
  assumes "frame_len xs = Some n"
  shows "unat (GetPacketHeaderSize (xs ! 0)) < n" "n \<le> 2 ^ 28 + 4"
    "unat (GetPacketHeaderSize (xs ! 0)) \<le> length xs" "xs \<noteq> []"
  using assms GetPacketBodySize_range header_size_range [of "xs ! 0"]
  by (fastforce simp: frame_len_def Let_def split: if_splits)+

lemma frame_len_append:
  assumes "frame_len xs = Some n"
  shows "frame_len (xs @ ys) = Some n"
proof -
  let ?hs = "unat (GetPacketHeaderSize (xs ! 0))"
  note b = frame_len_bounds [OF assms]
  then have "(xs @ ys) ! 0 = xs ! 0" by (simp add: nth_append)
  with b assms GetPacketBodySize_prefix [of ?hs xs ys] header_size_range [of "xs ! 0"]
  show ?thesis by (auto simp: frame_len_def Let_def split: if_splits)
qed

lemma frame_len_total:
  assumes "xs \<noteq> []" "unat (GetPacketHeaderSize (xs ! 0)) \<le> length xs"
  shows "\<exists>n. frame_len xs = Some n"
  using assms GetPacketBodySize_prefix [of "unat (GetPacketHeaderSize (xs ! 0))" xs]
    header_size_range [of "xs ! 0"] by (auto simp: frame_len_def Let_def)

lemma next_frame_append:
  assumes "next_frame xs = Some (f, rest)"
  shows "next_frame (xs @ ys) = Some (f, rest @ ys)"
  using assms frame_len_append by (auto simp: next_frame_def split: option.splits if_splits)

lemma next_frame_shorter: "next_frame xs = Some (f, rest) \<Longrightarrow> length rest < length xs \<and> xs = f @ rest"
  using frame_len_bounds(1) by (fastforce simp: next_frame_def split: option.splits if_splits)

function split_frames :: "bytes \<Rightarrow> bytes list \<times> bytes" where
  "split_frames xs = (case next_frame xs of
     None \<Rightarrow> ([], xs)
   | Some (f, rest) \<Rightarrow> (let (fs, r) = split_frames rest in (f # fs, r)))"
  by auto
termination
  by (relation "measure length") (auto dest!: next_frame_shorter [OF sym] simp: next_frame_shorter)

declare split_frames.simps [simp del]

lemma split_frames_None: "next_frame xs = None \<Longrightarrow> split_frames xs = ([], xs)"
  by (simp add: split_frames.simps)

lemma split_frames_Some: "next_frame xs = Some (f, rest) \<Longrightarrow>
    split_frames xs = (f # fst (split_frames rest), snd (split_frames rest))"
  by (subst split_frames.simps) (simp add: case_prod_beta)

lemma split_frames_rest: "next_frame (snd (split_frames xs)) = None"
proof (induction xs rule: split_frames.induct)
  case (1 xs)
  then show ?case
    by (cases "next_frame xs") (auto simp: split_frames_None split_frames_Some)
qed

lemma split_frames_concat: "concat (fst (split_frames xs)) @ snd (split_frames xs) = xs"
proof (induction xs rule: split_frames.induct)
  case (1 xs)
  then show ?case
    by (cases "next_frame xs") (auto simp: split_frames_None split_frames_Some dest: next_frame_shorter)
qed

text \<open>Splitting is incremental: the rest of a first portion goes in front of the second one.\<close>

lemma split_frames_append:
  "split_frames (xs @ ys) =
     (fst (split_frames xs) @ fst (split_frames (snd (split_frames xs) @ ys)),
      snd (split_frames (snd (split_frames xs) @ ys)))"
proof (induction xs rule: split_frames.induct)
  case (1 xs)
  then show ?case
    by (cases "next_frame xs") (auto simp: split_frames_None split_frames_Some split_frames_Some [OF next_frame_append])
qed

section \<open>Invariant of the decoder\<close>

definition storage_inv :: "Storage \<Rightarrow> bool" where
  "storage_inv st \<longleftrightarrow> length (sblock st) = soffset st + scapacity st \<and> ssize st \<le> scapacity st \<and>
     20 \<le> soffset st \<and> soffset st \<le> 32 \<and> 32 < length (sblock st)"

definition dec_wf :: "(nat \<Rightarrow> bytes) \<Rightarrow> FrameDecoder \<Rightarrow> bool" where
  "dec_wf A d \<longleftrightarrow> pool_ok A \<and> bw_inv (wbuf d) \<and> pred_option storage_inv (rbuf d)"

text \<open>Inside a frame: the header size is known, and the frame size too once there are more bytes
  than the header.\<close>

definition in_frame :: "FrameDecoder \<Rightarrow> bool" where
  "in_frame d \<longleftrightarrow> (let c = contents (wbuf d) in
     c \<noteq> [] \<and> headerSize d = unat (GetPacketHeaderSize (c ! 0)) \<and>
     (headerSize d < length c \<longrightarrow> frame_len c = Some (frameSize d) \<and> length c < frameSize d))"

definition dec_inv :: "(nat \<Rightarrow> bytes) \<Rightarrow> FrameDecoder \<Rightarrow> bool" where
  "dec_inv A d \<longleftrightarrow> dec_wf A d \<and> (headerSize d = 0 \<and> contents (wbuf d) = [] \<or> in_frame d)"

definition callback_ok ::
  "(Storage \<Rightarrow> nat \<Rightarrow> 'u \<Rightarrow> ByteBufferReadable \<times> 'u) option \<Rightarrow> (bytes \<Rightarrow> nat \<Rightarrow> 'u \<Rightarrow> 'u) \<Rightarrow> bool" where
  "callback_ok onPacket sink \<longleftrightarrow> (case onPacket of
     None \<Rightarrow> \<forall>x hs u. sink x hs u = u
   | Some f \<Rightarrow> \<forall>st hs u. (fst (f st hs u) = None \<or> fst (f st hs u) = Some st) \<and>
       snd (f st hs u) = sink (storage_bytes st) hs u)"

definition refc_ok :: "('u \<Rightarrow> Storage \<Rightarrow> nat) \<Rightarrow> bool" where
  "refc_ok refc \<longleftrightarrow> (\<forall>u st. 1 \<le> refc u st)"

definition frame_sink :: "(bytes \<Rightarrow> nat \<Rightarrow> 'u \<Rightarrow> 'u) \<Rightarrow> bytes \<Rightarrow> 'u \<Rightarrow> 'u" where
  "frame_sink sink x u = sink x (unat (GetPacketHeaderSize (x ! 0))) u"

lemma dec_inv_new: "pool_ok A \<Longrightarrow> dec_inv A FrameDecoder_new"
  by (simp add: dec_inv_def dec_wf_def FrameDecoder_new_def)

lemma dec_inv_next: "dec_inv A d \<Longrightarrow> next_frame (contents (wbuf d)) = None"
proof -
  assume a: "dec_inv A d"
  let ?c = "contents (wbuf d)"
  have "length ?c < n" if n: "frame_len ?c = Some n" for n
  proof -
    have "in_frame d" using a frame_len_bounds(4) [OF n] by (auto simp: dec_inv_def)
    then show ?thesis using frame_len_bounds(1,3) [OF n] n
      by (cases "headerSize d < length ?c") (auto simp: in_frame_def Let_def)
  qed
  then show ?thesis by (auto simp: next_frame_def split: option.split)
qed

lemma bsize_eq: "dec_wf A d \<Longrightarrow> bsize (wbuf d) = length (contents (wbuf d))"
  by (simp add: dec_wf_def length_contents)

lemma header_bytes_limit: "x \<le> 8 \<Longrightarrow> x \<le> size_limit" "x \<le> 2 ^ 28 + 8 \<Longrightarrow> x \<le> size_limit"
  by (simp_all add: size_limit_def)

lemma append_wbuf:
  assumes "dec_wf A d" "length (contents (wbuf d)) + length xs \<le> size_limit"
  obtains w where "append_bytes A (wbuf d) xs = Some w" "contents w = contents (wbuf d) @ xs"
    "dec_wf A (d\<lparr>wbuf := w\<rparr>)"
  using bb.appE [of A "wbuf d" xs] assms by (auto simp: dec_wf_def)

lemma dec_wf_update [simp]:
  "dec_wf A (d\<lparr>headerSize := n\<rparr>) = dec_wf A d" "dec_wf A (d\<lparr>frameSize := n\<rparr>) = dec_wf A d"
  by (simp_all add: dec_wf_def)

section \<open>The steps of a round\<close>

lemma start_header_ok:
  assumes "dec_inv A d" "data \<noteq> []"
  shows "\<exists>d' data'. start_header A d data = Some (d', data') \<and> dec_wf A d' \<and> in_frame d' \<and>
    contents (wbuf d') @ data' = contents (wbuf d) @ data \<and> fatals d' = fatals d"
proof (cases "headerSize d = 0")
  case True
  then have "\<not> in_frame d"
    using header_size_nonzero(2) [of "contents (wbuf d) ! 0"] by (auto simp: in_frame_def Let_def)
  then have c: "contents (wbuf d) = []" and wf: "dec_wf A d"
    using assms(1) by (auto simp: dec_inv_def)
  obtain x xs where x: "data = x # xs" using assms(2) by (cases data) auto
  obtain w where w: "append_bytes A (wbuf d) [x] = Some w" "contents w = [x]" "dec_wf A (d\<lparr>wbuf := w\<rparr>)"
    using append_wbuf [OF wf, of "[x]"] c by (auto simp: size_limit_def)
  then show ?thesis
    using True c x header_size_range(1) [of x] bsize_eq [OF wf]
    by (auto simp: start_header_def in_frame_def Let_def dec_wf_def)
next
  case False
  then show ?thesis
    using assms(1) bsize_eq [of A d] by (auto simp: start_header_def dec_inv_def in_frame_def Let_def)
qed

lemma fill_header_ok:
  assumes "dec_wf A d" "in_frame d"
  shows "\<exists>d' data'. fill_header A d data = Some (d', data') \<and> dec_wf A d' \<and> in_frame d' \<and>
    contents (wbuf d') @ data' = contents (wbuf d) @ data \<and> fatals d' = fatals d \<and>
    (bsize (wbuf d') < headerSize d' \<longrightarrow> data' = [])"
proof (cases "bsize (wbuf d) < headerSize d")
  case True
  let ?c = "contents (wbuf d)"
  let ?n = "min (length data) (headerSize d - bsize (wbuf d))"
  have l: "length ?c + length (take ?n data) \<le> headerSize d" "headerSize d \<le> 4"
    using True bsize_eq [OF assms(1)] assms(2) header_size_range(2) by (auto simp: in_frame_def Let_def)
  then obtain w where w: "append_bytes A (wbuf d) (take ?n data) = Some w"
      "contents w = ?c @ take ?n data" "dec_wf A (d\<lparr>wbuf := w\<rparr>)"
    using append_wbuf [OF assms(1), of "take ?n data"] by (auto simp: size_limit_def)
  moreover have "in_frame (d\<lparr>wbuf := w\<rparr>)"
    using assms(2) w(2) l by (auto simp: in_frame_def Let_def nth_append)
  moreover have "bsize w < headerSize d \<Longrightarrow> drop ?n data = []"
    using bsize_eq [OF w(3)] w(2) bsize_eq [OF assms(1)] by auto
  ultimately show ?thesis using True by (simp add: fill_header_def Let_def)
next
  case False
  then show ?thesis using assms by (simp add: fill_header_def)
qed

lemma measure_frame_ok:
  assumes "dec_wf A d" "in_frame d" "headerSize d \<le> bsize (wbuf d)"
  shows "\<exists>d'. measure_frame A d = Some d' \<and> dec_wf A d' \<and> in_frame d' \<and>
    contents (wbuf d') = contents (wbuf d) \<and> fatals d' = fatals d \<and> headerSize d' = headerSize d \<and>
    frame_len (contents (wbuf d)) = Some (frameSize d') \<and> bsize (wbuf d') < frameSize d'"
proof (cases "bsize (wbuf d) = headerSize d")
  case True
  let ?c = "contents (wbuf d)"
  have c: "?c \<noteq> []" "headerSize d = unat (GetPacketHeaderSize (?c ! 0))" "length ?c = headerSize d"
    using assms(2) True bsize_eq [OF assms(1)] by (auto simp: in_frame_def Let_def)
  obtain n where n: "frame_len ?c = Some n" using frame_len_total [of ?c] c by auto
  then obtain body where body: "GetPacketBodySize ?c (of_nat (headerSize d)) = Some body"
      "n = headerSize d + unat body"
    using c by (auto simp: frame_len_def Let_def)
  note b = frame_len_bounds [OF n]
  then have m: "(headerSize d + unat body) mod 2 ^ 32 = n" "n \<le> size_limit"
    using body(2) by (auto simp: size_limit_def)
  obtain w where w: "reserve A (wbuf d) n = Some w" "bw_inv w" "contents w = ?c"
    using bb.resE [of A "wbuf d" n] assms(1) m(2) by (auto simp: dec_wf_def)
  then have "bsize w = headerSize d" using length_contents [OF w(2)] c(3) by simp
  then show ?thesis
    using True body m w n b c assms(1,2)
    by (auto simp: measure_frame_def Let_def in_frame_def dec_wf_def)
next
  case False
  then show ?thesis
    using assms bsize_eq [OF assms(1)] frame_len_bounds(1)
    by (fastforce simp: measure_frame_def in_frame_def Let_def log_fatal_def)
qed

lemma fill_body_ok:
  assumes "dec_wf A d" "bsize (wbuf d) < frameSize d" "frameSize d \<le> 2 ^ 28 + 4"
  shows "\<exists>d'. fill_body A d data = Some (d', drop (frameSize d - bsize (wbuf d)) data) \<and> dec_wf A d' \<and>
    contents (wbuf d') = contents (wbuf d) @ take (frameSize d - bsize (wbuf d)) data \<and>
    fatals d' = fatals d \<and> headerSize d' = headerSize d \<and> frameSize d' = frameSize d"
proof -
  let ?n = "min (frameSize d - bsize (wbuf d)) (length data)"
  have l: "length (contents (wbuf d)) + length (take ?n data) \<le> size_limit"
    using assms bsize_eq [OF assms(1)] by (simp add: size_limit_def)
  have t: "take ?n data = take (frameSize d - bsize (wbuf d)) data"
    "drop ?n data = drop (frameSize d - bsize (wbuf d)) data" by (simp_all add: min_def)
  obtain w where "append_bytes A (wbuf d) (take ?n data) = Some w"
      "contents w = contents (wbuf d) @ take ?n data" "dec_wf A (d\<lparr>wbuf := w\<rparr>)"
    by (rule append_wbuf [OF assms(1) l])
  moreover have "\<not> ?n > frameSize d" by linarith
  ultimately show ?thesis using assms(2) unfolding t
    by (simp add: fill_body_def Let_def log_fatal_def t)
qed

lemma TryRecycle_ok:
  assumes "pred_option storage_inv r" "\<And>st. 1 \<le> refs st"
  shows "\<exists>w r'. TryRecycle refs r = Some (w, r') \<and> bw_inv w \<and> contents w = [] \<and>
    pred_option storage_inv r' \<and> (r' = None \<or> r' = r)"
proof (cases r)
  case None
  then show ?thesis by (simp add: TryRecycle_def)
next
  case (Some st)
  have "refs st \<ge> Suc 0" using assms(2) [of st] by simp
  with Some assms(1) show ?thesis
    by (auto simp: TryRecycle_def Let_def bw_inv_Some contents_Some storage_inv_def INITIAL_DATA_OFFSET_def)
qed

lemma Restart_ok:
  assumes "dec_wf A d" "\<And>st. 1 \<le> refs st"
  shows "\<exists>d'. Restart refs d = Some d' \<and> dec_wf A d' \<and> contents (wbuf d') = [] \<and> headerSize d' = 0 \<and>
    frameSize d' = 0 \<and> fatals d' = fatals d"
proof -
  let ?rec = "bcapacity (wbuf d) = 0 \<or> readable_capacity (rbuf d) > bcapacity (wbuf d)"
  obtain w r where wr: "(if ?rec then TryRecycle refs (rbuf d) else Some (wbuf d, rbuf d)) = Some (w, r)"
      "bw_inv w" "pred_option storage_inv r"
    using TryRecycle_ok [of "rbuf d" refs] assms by (cases ?rec) (auto simp: dec_wf_def)
  obtain w' where w': "clear w = Some w'" "bw_inv w'" "contents w' = []"
    using clear_ok [OF wr(2)] by blast
  have "Restart refs d = Some (d\<lparr>wbuf := w', rbuf := r, headerSize := 0, frameSize := 0\<rparr>)"
    using wr(1) w'(1) by (auto simp: Restart_def split: if_splits)
  then show ?thesis using assms(1) wr(3) w'(2,3) by (auto simp: dec_wf_def)
qed

lemma BBR_of_ok:
  assumes "bw_inv b" "contents b \<noteq> []"
  shows "\<exists>st. BBR_of b = Some st \<and> storage_inv st \<and> storage_bytes st = contents b"
  using assms by (cases "buffer b") (auto simp: BBR_of_def contents_def storage_bytes_def storage_inv_def bw_inv_Some)

lemma deliver_ok:
  assumes "dec_wf A d" "contents (wbuf d) \<noteq> []" "callback_ok onPacket sink" "refc_ok refc"
  shows "\<exists>d'. deliver onPacket refc d u = Some (d', sink (contents (wbuf d)) (headerSize d) u) \<and>
    dec_wf A d' \<and> contents (wbuf d') = [] \<and> headerSize d' = 0 \<and> fatals d' = fatals d"
proof -
  have refs: "\<And>u st. 1 \<le> refc u st" using assms(4) by (simp add: refc_ok_def)
  show ?thesis
  proof (cases onPacket)
    case None
    then show ?thesis
      using Restart_ok [OF assms(1), of "refc u"] refs assms(3) by (auto simp: deliver_def callback_ok_def)
  next
    case (Some f)
    obtain st where st: "BBR_of (wbuf d) = Some st" "storage_inv st" "storage_bytes st = contents (wbuf d)"
      using BBR_of_ok assms(1,2) by (auto simp: dec_wf_def)
    obtain b u' where f: "f st (headerSize d) u = (b, u')" by fastforce
    have b: "b = None \<or> b = Some st" "u' = sink (contents (wbuf d)) (headerSize d) u"
      using assms(3) Some f st(3) unfolding callback_ok_def by (simp_all, (metis fst_conv snd_conv)+)
    have "pred_option storage_inv b" using b(1) st(2) by auto
    then obtain w b' where w: "TryRecycle (refc u') b = Some (w, b')" "bw_inv w" "pred_option storage_inv b'"
      using TryRecycle_ok refs by blast
    have "dec_wf A (d\<lparr>wbuf := w\<rparr>)" using assms(1) w(2) by (simp add: dec_wf_def)
    then obtain d' where "Restart (refc u') (d\<lparr>wbuf := w\<rparr>) = Some d'" "dec_wf A d'"
        "contents (wbuf d') = []" "headerSize d' = 0" "fatals d' = fatals d"
      using Restart_ok [of A "d\<lparr>wbuf := w\<rparr>" "refc u'"] refs by auto
    then show ?thesis using Some st f b w by (auto simp: deliver_def dec_wf_def)
  qed
qed

section \<open>The whole loop\<close>

text \<open>One round either uses up the input inside a frame, or delivers the next frame and goes on
  with the rest of the input.\<close>

lemma push_round:
  fixes A d data
  defines "p \<equiv> contents (wbuf d) @ data"
  assumes inv: "dec_inv A d" and ne: "data \<noteq> []" and cb: "callback_ok onPacket sink" "refc_ok refc"
  shows "(next_frame p = None \<and> (\<exists>d'. push_loop A onPacket refc d u data = Some (d', u) \<and> dec_inv A d' \<and>
      contents (wbuf d') = p \<and> fatals d' = fatals d)) \<or>
    (\<exists>f rest d'. next_frame p = Some (f, rest) \<and> dec_inv A d' \<and> contents (wbuf d') = [] \<and>
      fatals d' = fatals d \<and>
      push_loop A onPacket refc d u data = push_loop A onPacket refc d' (frame_sink sink f u) rest)"
proof -
  obtain d1 x1 where 1: "start_header A d data = Some (d1, x1)" "dec_wf A d1" "in_frame d1"
      "contents (wbuf d1) @ x1 = p" "fatals d1 = fatals d"
    using start_header_ok [OF inv ne] unfolding p_def by blast
  obtain d2 x2 where 2: "fill_header A d1 x1 = Some (d2, x2)" "dec_wf A d2" "in_frame d2"
      "contents (wbuf d2) @ x2 = p" "fatals d2 = fatals d"
      "bsize (wbuf d2) < headerSize d2 \<longrightarrow> x2 = []"
    using fill_header_ok [OF 1(2,3), of x1] 1(4,5) by auto
  show ?thesis
  proof (cases "bsize (wbuf d2) < headerSize d2")
    case True
    then have "push_loop A onPacket refc d u data = Some (d2, u)" "dec_inv A d2" "contents (wbuf d2) = p"
      using 1(1) 2 ne by (auto simp: push_loop.simps log_fatal_def dec_inv_def)
    then show ?thesis using dec_inv_next [of A d2] 2(5) by auto
  next
    case False
    obtain d3 where 3: "measure_frame A d2 = Some d3" "dec_wf A d3" "in_frame d3"
        "contents (wbuf d3) = contents (wbuf d2)" "fatals d3 = fatals d"
        "frame_len (contents (wbuf d3)) = Some (frameSize d3)" "bsize (wbuf d3) < frameSize d3"
      using measure_frame_ok [OF 2(2,3)] False 2(5) by auto
    let ?n = "frameSize d3" let ?c = "contents (wbuf d3)"
    let ?x3 = "drop (?n - bsize (wbuf d3)) x2"
    note b = frame_len_bounds [OF 3(6)]
    obtain d4 where 4: "fill_body A d3 x2 = Some (d4, ?x3)" "dec_wf A d4"
        "contents (wbuf d4) = ?c @ take (?n - bsize (wbuf d3)) x2" "fatals d4 = fatals d"
        "headerSize d4 = headerSize d3" "frameSize d4 = ?n"
      using fill_body_ok [OF 3(2,7) b(2), of x2] 3(5) by auto
    have p: "p = ?c @ x2" "frame_len p = Some ?n"
      using 2(4) 3(4) frame_len_append [OF 3(6), of x2] by auto
    have c4: "contents (wbuf d4) = take ?n p" "?x3 = drop ?n p"
      using 4(3) p(1) 3(7) bsize_eq [OF 3(2)] by auto
    have hd: "contents (wbuf d4) ! 0 = ?c ! 0" "contents (wbuf d4) \<noteq> []"
      using b(4) 4(3) by (auto simp: nth_append)
    have loop: "push_loop A onPacket refc d u data =
        (if bsize (wbuf d4) = ?n then do { (d, u) \<leftarrow> deliver onPacket refc d4 u;
            push_loop A onPacket refc d u ?x3 }
         else if bsize (wbuf d4) > ?n then None else Some (d4, u))"
      using ne 1(1) 2(1) 3(1) 4(1,6) False by (subst push_loop.simps) simp
    have hs: "headerSize d4 = unat (GetPacketHeaderSize (contents (wbuf d4) ! 0))"
      using 4(5) 3(3) hd by (simp add: in_frame_def Let_def)
    show ?thesis
    proof (cases "length p < ?n")
      case True
      then have "contents (wbuf d4) = p" "bsize (wbuf d4) < ?n" "next_frame p = None"
        using c4 p(2) bsize_eq [OF 4(2)] by (auto simp: next_frame_def)
      moreover have "dec_inv A d4"
        using True 4(2,6) hs hd p(2) calculation by (auto simp: dec_inv_def in_frame_def Let_def)
      ultimately show ?thesis using loop 4(4) by auto
    next
      case False
      then have n: "next_frame p = Some (contents (wbuf d4), ?x3)" "bsize (wbuf d4) = ?n"
        using c4 p(2) bsize_eq [OF 4(2)] by (auto simp: next_frame_def)
      obtain d5 where 5: "deliver onPacket refc d4 u = Some (d5, frame_sink sink (contents (wbuf d4)) u)"
          "dec_wf A d5" "contents (wbuf d5) = []" "headerSize d5 = 0" "fatals d5 = fatals d4"
        using deliver_ok [OF 4(2) hd(2) cb] hs by (auto simp: frame_sink_def)
      then show ?thesis using n loop 4(4) by (auto simp: dec_inv_def)
    qed
  qed
qed

lemma push_loop_ok:
  assumes "dec_inv A d" "callback_ok onPacket sink" "refc_ok refc"
  shows "\<exists>d'. push_loop A onPacket refc d u data =
      Some (d', fold (frame_sink sink) (fst (split_frames (contents (wbuf d) @ data))) u) \<and>
    dec_inv A d' \<and> contents (wbuf d') = snd (split_frames (contents (wbuf d) @ data)) \<and>
    fatals d' = fatals d"
  using assms(1)
proof (induction "length (contents (wbuf d) @ data)" arbitrary: d u data rule: less_induct)
  case less
  let ?p = "contents (wbuf d) @ data"
  show ?case
  proof (cases "data = []")
    case True
    then show ?thesis using less.prems dec_inv_next [OF less.prems]
      by (simp add: push_loop.simps split_frames_None)
  next
    case False
    consider d' where "next_frame ?p = None" "push_loop A onPacket refc d u data = Some (d', u)"
        "dec_inv A d'" "contents (wbuf d') = ?p" "fatals d' = fatals d"
      | f rest d' where "next_frame ?p = Some (f, rest)" "dec_inv A d'" "contents (wbuf d') = []"
        "fatals d' = fatals d"
        "push_loop A onPacket refc d u data = push_loop A onPacket refc d' (frame_sink sink f u) rest"
      using push_round [OF less.prems False assms(2,3), of u] by blast
    then show ?thesis
    proof cases
      case 1
      then show ?thesis by (simp add: split_frames_None)
    next
      case 2
      have "length (contents (wbuf d') @ rest) < length ?p"
        unfolding 2(3) append_Nil using next_frame_shorter [OF 2(1)] by (rule conjunct1)
      from less.hyps [OF this 2(2), of "frame_sink sink f u"] 2
      show ?thesis by (simp add: split_frames_Some)
    qed
  qed
qed

text \<open>The input in two portions.\<close>

lemma fold_split_append:
  "fold g (fst (split_frames (snd (split_frames xs) @ ys))) (fold g (fst (split_frames xs)) u) =
   fold g (fst (split_frames (xs @ ys))) u"
  "snd (split_frames (snd (split_frames xs) @ ys)) = snd (split_frames (xs @ ys))"
  by (simp_all add: split_frames_append [of xs ys])

lemma PushData_ok:
  assumes "dec_inv A d" "callback_ok onPacket sink" "refc_ok refc"
  shows "\<exists>d'. PushData A onPacket refc d u data =
      Some (d', fold (frame_sink sink) (fst (split_frames (contents (wbuf d) @ data))) u) \<and>
    dec_inv A d' \<and> contents (wbuf d') = snd (split_frames (contents (wbuf d) @ data)) \<and>
    fatals d' = fatals d"
  using assms(1)
proof (induction "length data" arbitrary: d u data rule: less_induct)
  case less
  show ?case
  proof (cases "length data \<ge> 2 ^ 31")
    case True
    let ?x = "take TMP_LEN data" and ?y = "drop TMP_LEN data"
    let ?c = "contents (wbuf d)"
    have l: "length ?x < length data" "length ?y < length data" "TMP_LEN < length data"
      using True by (auto simp: TMP_LEN_def)
    obtain d1 where 1: "PushData A onPacket refc d u ?x =
          Some (d1, fold (frame_sink sink) (fst (split_frames (?c @ ?x))) u)" "dec_inv A d1"
        "contents (wbuf d1) = snd (split_frames (?c @ ?x))" "fatals d1 = fatals d"
      using less.hyps [OF l(1) less.prems, of u] by blast
    let ?u = "fold (frame_sink sink) (fst (split_frames (?c @ ?x))) u"
    have "PushData A onPacket refc d u data = PushData A onPacket refc d1 ?u ?y"
      using True l(3) 1(1) by (subst PushData.simps) simp
    then show ?thesis
      using less.hyps [OF l(2) 1(2), of ?u] 1(3,4) by (simp add: fold_split_append)
  next
    case False
    then show ?thesis using push_loop_ok [OF less.prems assms(2,3), of u data]
      by (subst PushData.simps) simp
  qed
qed

text \<open>Successive calls, one for each portion that the socket delivers.\<close>

primrec push_chunks ::
  "(nat \<Rightarrow> bytes) \<Rightarrow> (Storage \<Rightarrow> nat \<Rightarrow> 'u \<Rightarrow> ByteBufferReadable \<times> 'u) option \<Rightarrow>
   ('u \<Rightarrow> Storage \<Rightarrow> nat) \<Rightarrow> FrameDecoder \<Rightarrow> 'u \<Rightarrow> bytes list \<Rightarrow> (FrameDecoder \<times> 'u) option" where
  "push_chunks A onPacket refc d u [] = Some (d, u)"
| "push_chunks A onPacket refc d u (x # xs) =
     do { (d, u) \<leftarrow> PushData A onPacket refc d u x; push_chunks A onPacket refc d u xs }"

lemma push_chunks_ok:
  assumes "dec_inv A d" "callback_ok onPacket sink" "refc_ok refc"
  shows "\<exists>d'. push_chunks A onPacket refc d u chunks =
      Some (d', fold (frame_sink sink) (fst (split_frames (contents (wbuf d) @ concat chunks))) u) \<and>
    dec_inv A d' \<and> contents (wbuf d') = snd (split_frames (contents (wbuf d) @ concat chunks)) \<and>
    fatals d' = fatals d"
  using assms(1)
proof (induction chunks arbitrary: d u)
  case Nil
  then show ?case using dec_inv_next [OF Nil] by (simp add: split_frames_None)
next
  case (Cons x xs)
  let ?c = "contents (wbuf d)"
  obtain d1 where 1: "PushData A onPacket refc d u x =
        Some (d1, fold (frame_sink sink) (fst (split_frames (?c @ x))) u)" "dec_inv A d1"
      "contents (wbuf d1) = snd (split_frames (?c @ x))" "fatals d1 = fatals d"
    using PushData_ok [OF Cons.prems assms(2,3), of u x] by blast
  from Cons.IH [OF 1(2), of "fold (frame_sink sink) (fst (split_frames (?c @ x))) u"]
  show ?case using 1 by (simp add: fold_split_append)
qed

section \<open>Written frames\<close>

lemma split_frames_written:
  assumes "\<forall>(fl, body) \<in> set fs. 1 \<le> length body \<and> length body \<le> 2 ^ 28"
  shows "split_frames (concat (map (\<lambda>(fl, body). header_bytes fl (length body) @ body) fs)) =
    (map (\<lambda>(fl, body). header_bytes fl (length body) @ body) fs, [])"
  using assms
proof (induction fs)
  case Nil
  then show ?case by (simp add: split_frames_None next_frame_def frame_len_def)
next
  case (Cons p fs)
  obtain fl body where p: "p = (fl, body)" by fastforce
  let ?n = "length body" and ?r = "concat (map (\<lambda>(fl, body). header_bytes fl (length body) @ body) fs)"
  let ?h = "header_bytes fl ?n"
  have n: "1 \<le> ?n" "?n \<le> 2 ^ 28" using Cons.prems p by auto
  note h = header_bytes_nonempty [OF n, of fl] GetPacketHeaderSize_header [OF n, of fl]
    GetPacketBodySize_header [OF n, of fl "body @ ?r"] GetHeaderSize_fits(1) [OF n]
    length_header_bytes [of fl ?n]
  have "(ucast (GetHeaderSize (of_nat ?n)) :: u8) = of_nat (unat (GetHeaderSize (of_nat ?n)))"
    using h(4) by auto
  then have "frame_len (?h @ body @ ?r) = Some (length ?h + ?n)"
    using h n(2) by (auto simp: frame_len_def Let_def nth_append unat_of_nat)
  then have "next_frame (?h @ body @ ?r) = Some (?h @ body, ?r)" by (simp add: next_frame_def)
  then show ?case using Cons p by (simp add: split_frames_Some)
qed

lemma frame_fields:
  assumes n: "1 \<le> length body" "length body \<le> 2 ^ 28"
  shows "drop (unat (GetPacketHeaderSize ((header_bytes fl (length body) @ body) ! 0)))
      (header_bytes fl (length body) @ body) = body"
    "GetPacketFlags (header_bytes fl (length body) @ body) 0 = Some (fl AND 6)"
proof -
  have "(header_bytes fl (length body) @ body) ! 0 = header_bytes fl (length body) ! 0"
    using header_bytes_nonempty [OF n, of fl] by (cases "header_bytes fl (length body)") simp_all
  then show "drop (unat (GetPacketHeaderSize ((header_bytes fl (length body) @ body) ! 0)))
      (header_bytes fl (length body) @ body) = body"
    "GetPacketFlags (header_bytes fl (length body) @ body) 0 = Some (fl AND 6)"
    using GetPacketHeaderSize_header [OF n, of fl] GetPacketFlags_header [OF n, of fl body 0]
      length_header_bytes [of fl "length body"] by simp_all
qed

lemma WriteHeaderIntoBuffer_ok:
  assumes "bw_inv b" "24 \<le> boffset b" "1 \<le> bsize b" "bsize b \<le> 2 ^ 28"
  shows "\<exists>b'. WriteHeaderIntoBuffer A b flags = Some (b', True) \<and> bw_inv b' \<and> bflags b' = flags \<and>
    contents b' = header_bytes flags (bsize b) @ contents b"
proof -
  let ?hs = "unat (GetHeaderSize (of_nat (bsize b)))"
  let ?b = "b\<lparr>bflags := flags\<rparr>"
  have hs: "?hs \<le> 4" using GetHeaderSize_fits(1) [OF assms(3,4)] by auto
  have "buffer b \<noteq> None" using assms(1,2) by (cases "buffer b") (auto simp: bw_inv_None)
  then obtain c pre where c: "prepend A ?b None ?hs = Some c" "bw_inv c" "contents c = pre @ contents b"
      "length pre = ?hs" "bflags c = flags" "buffer c \<noteq> None"
    using prepend_null_in_place [of ?b ?hs A] assms(1,2) hs by auto
  then obtain blk where blk: "buffer c = Some blk" by auto
  have sz: "bsize c = ?hs + bsize b" using length_contents [OF c(2)] length_contents [OF assms(1)] c(3,4) by simp
  have room: "?hs \<le> length (drop (boffset c) blk)" "length blk = boffset c + bcapacity c"
      "bsize c \<le> bcapacity c"
    using c(2) blk sz by (auto simp: bw_inv_Some)
  let ?h = "header_bytes flags (bsize b)"
  let ?d = "c\<lparr>buffer := Some (take (boffset c) blk @ ?h @ drop (?hs + boffset c) blk)\<rparr>"
  have "WriteHeaderIntoBuffer A b flags = Some (?d, True)"
    using c(1) blk WriteHeader_eq [OF assms(3,4) room(1)] by (simp add: WriteHeaderIntoBuffer_def Let_def)
  moreover have "bw_inv ?d"
    using c(2) blk room sz length_header_bytes [of flags "bsize b"] by (auto simp: bw_inv_Some)
  moreover have "drop ?hs (contents c) = take (bsize b) (drop (?hs + boffset c) blk)"
    using blk sz by (simp add: contents_Some drop_take)
  then have "contents ?d = ?h @ contents b"
    using room sz blk c(3,4) length_header_bytes [of flags "bsize b"]
    by (simp add: contents_Some [of ?d])
  ultimately show ?thesis using c(5) by auto
qed

section \<open>Properties\<close>

text \<open>C5. The decoder delivers the frames of the stream. However the bytes of a stream are cut
  into portions (empty ones, portions that end inside a header, portions over 2 GiB), whatever
  the callback keeps or moves away and whoever else holds references, a new decoder runs without
  a failed assertion, an access outside a buffer or a message about a broken algorithm, hands
  exactly the frames of the stream to the callback, in order, with their header sizes, and keeps
  the bytes of the incomplete last frame.\<close>

theorem decoder_delivers_frames:
  assumes "pool_ok A" "callback_ok onPacket sink" "refc_ok refc"
  shows "\<exists>d. push_chunks A onPacket refc FrameDecoder_new u chunks =
      Some (d, fold (frame_sink sink) (fst (split_frames (concat chunks))) u) \<and>
    dec_inv A d \<and> contents (wbuf d) = snd (split_frames (concat chunks)) \<and> fatals d = 0"
  using push_chunks_ok [OF dec_inv_new [OF assms(1)] assms(2,3), of u chunks]
  by (simp add: FrameDecoder_new_def)

text \<open>A callback that collects what it gets and leaves the buffer to the decoder.\<close>

definition collect :: "Storage \<Rightarrow> nat \<Rightarrow> (bytes \<times> nat) list \<Rightarrow> ByteBufferReadable \<times> (bytes \<times> nat) list" where
  "collect st hs u = (Some st, u @ [(storage_bytes st, hs)])"

lemma callback_ok_collect: "callback_ok (Some collect) (\<lambda>x hs u. u @ [(x, hs)])"
  by (simp add: callback_ok_def collect_def)

lemma refc_ok_one: "refc_ok (\<lambda>_ _. 1)"
  by (simp add: refc_ok_def)

lemma fold_collect:
  "fold (frame_sink (\<lambda>x hs u. u @ [(x, hs)])) fs u =
   u @ map (\<lambda>x. (x, unat (GetPacketHeaderSize (x ! 0)))) fs"
  by (induction fs arbitrary: u) (simp_all add: frame_sink_def)

text \<open>The frames that \<open>WriteHeaderIntoBuffer\<close> builds, and what a decoder makes of the first bytes
  of a stream of them.\<close>

lemma written_contents:
  assumes "list_all2 (\<lambda>(fl, b) w. WriteHeaderIntoBuffer A b fl = Some (w, True)) bs ws"
    "\<forall>(fl, b) \<in> set bs. bw_inv b \<and> 24 \<le> boffset b \<and> 1 \<le> bsize b \<and> bsize b \<le> 2 ^ 28"
  shows "map contents ws = map (\<lambda>(fl, b). header_bytes fl (length (contents b)) @ contents b) bs \<and> list_all bw_inv ws"
  using assms
proof (induction rule: list_all2_induct)
  case (Cons p bs w ws)
  then show ?case
    using WriteHeaderIntoBuffer_ok [of "snd p" A "fst p"] length_contents [of "snd p"] by fastforce
qed simp

lemma decoded_prefix:
  assumes "pool_ok A" "refc_ok refc"
    and written: "list_all2 (\<lambda>(fl, b) w. WriteHeaderIntoBuffer A b fl = Some (w, True)) bs ws"
    and ok: "\<forall>(fl, b) \<in> set bs. bw_inv b \<and> 24 \<le> boffset b \<and> 1 \<le> bsize b \<and> bsize b \<le> 2 ^ 28"
    and chunks: "concat chunks @ rest = concat (map contents ws)"
  shows "\<exists>d recv k. push_chunks A (Some collect) refc FrameDecoder_new [] chunks = Some (d, recv) \<and>
    map (\<lambda>(x, hs). drop hs x) recv = take k (map (\<lambda>(fl, b). contents b) bs) \<and>
    map (\<lambda>(x, hs). GetPacketFlags x 0) recv = take k (map (\<lambda>(fl, b). Some (fl AND 6)) bs) \<and>
    fatals d = 0 \<and> (rest = [] \<longrightarrow> length bs \<le> k \<and> contents (wbuf d) = [])"
proof -
  let ?fs = "map (\<lambda>(fl, b). (fl, contents b)) bs"
  define F where "F = map (\<lambda>(fl, b). header_bytes fl (length (contents b)) @ contents b) bs"
  have fs: "\<forall>(fl, body) \<in> set ?fs. 1 \<le> length body \<and> length body \<le> 2 ^ 28"
    using ok length_contents by fastforce
  have F: "map contents ws = F" "F = map (\<lambda>(fl, body). header_bytes fl (length body) @ body) ?fs"
    using written_contents [OF written ok] by (simp_all add: F_def comp_def case_prod_beta)
  have split: "split_frames (concat chunks @ rest) = (F, [])"
    using split_frames_written [OF fs] chunks unfolding F(1) F(2) [symmetric] by simp
  define k where "k = length (fst (split_frames (concat chunks)))"
  have "F = fst (split_frames (concat chunks)) @ fst (split_frames (snd (split_frames (concat chunks)) @ rest))"
    using split unfolding split_frames_append [of "concat chunks" rest] by simp
  then have pre: "fst (split_frames (concat chunks)) = take k F" by (simp add: k_def)
  obtain d where d: "push_chunks A (Some collect) refc FrameDecoder_new [] chunks =
      Some (d, map (\<lambda>x. (x, unat (GetPacketHeaderSize (x ! 0)))) (take k F))"
      "contents (wbuf d) = snd (split_frames (concat chunks))" "fatals d = 0"
    using push_chunks_ok [OF dec_inv_new [OF assms(1)] callback_ok_collect assms(2), of "[]" chunks] pre
    by (auto simp: FrameDecoder_new_def fold_collect)
  have "\<forall>(fl, b) \<in> set bs. 1 \<le> length (contents b) \<and> length (contents b) \<le> 2 ^ 28" using fs by auto
  then have G: "map (\<lambda>x. drop (unat (GetPacketHeaderSize (x ! 0))) x) F = map (\<lambda>(fl, b). contents b) bs"
    "map (\<lambda>x. GetPacketFlags x 0) F = map (\<lambda>(fl, b). Some (fl AND 6)) bs"
    using frame_fields by (simp_all add: F_def case_prod_beta)
  have "map (\<lambda>(x, hs). drop hs x) (map (\<lambda>x. (x, unat (GetPacketHeaderSize (x ! 0)))) (take k F)) =
      take k (map (\<lambda>(fl, b). contents b) bs)"
    unfolding G(1) [symmetric] by (simp add: take_map)
  moreover have "map (\<lambda>(x, hs). GetPacketFlags x 0) (map (\<lambda>x. (x, unat (GetPacketHeaderSize (x ! 0)))) (take k F)) =
      take k (map (\<lambda>(fl, b). Some (fl AND 6)) bs)"
    unfolding G(2) [symmetric] by (simp add: take_map)
  moreover have "length F = length bs" by (simp add: F_def)
  then have "rest = [] \<longrightarrow> length bs \<le> k \<and> contents (wbuf d) = []" unfolding d(2) k_def using split by auto
  ultimately show ?thesis using d(1,3) by blast
qed

theorem decoder_delivers_frames_witness:
  "\<exists>d. push_chunks (\<lambda>n. replicate n 0) (Some collect) (\<lambda>_ _. 1) FrameDecoder_new [] [[0], [7, 16], [1]] =
      Some (d, fold (frame_sink (\<lambda>x hs u. u @ [(x, hs)])) (fst (split_frames (concat [[0], [7, 16], [1]]))) []) \<and>
    dec_inv (\<lambda>n. replicate n 0) d \<and>
    contents (wbuf d) = snd (split_frames (concat [[0], [7, 16], [1]])) \<and> fatals d = 0"
  by (rule decoder_delivers_frames [OF pool_ok_zeros callback_ok_collect refc_ok_one])

text \<open>\<open>WriteHeaderIntoBuffer\<close> on a buffer with at least 24 bytes in front (every buffer that
  was not prepended to) puts the header in front of the body, in place: the buffer then holds
  the header bytes for its size and flags, followed by the unchanged body.\<close>

theorem write_header_into_buffer:
  assumes "bw_inv b" "24 \<le> boffset b" "1 \<le> bsize b" "bsize b \<le> 2 ^ 28"
  shows "\<exists>b'. WriteHeaderIntoBuffer A b flags = Some (b', True) \<and> bw_inv b' \<and> bflags b' = flags \<and>
    contents b' = header_bytes flags (length (contents b)) @ contents b"
  using WriteHeaderIntoBuffer_ok [OF assms] length_contents [OF assms(1)] by simp

definition sample_buffer :: ByteBufferWritable where
  "sample_buffer = \<lparr>buffer = Some (replicate 64 5), bsize = 3, bcapacity = 32, boffset = 32, bflags = 0\<rparr>"

lemma sample_buffer_ok: "bw_inv sample_buffer" "24 \<le> boffset sample_buffer"
    "1 \<le> bsize sample_buffer" "bsize sample_buffer \<le> 2 ^ 28"
  by (simp_all add: sample_buffer_def bw_inv_Some)

theorem write_header_into_buffer_witness:
  "\<exists>b'. WriteHeaderIntoBuffer (\<lambda>n. replicate n 0) sample_buffer 2 = Some (b', True) \<and> bw_inv b' \<and>
    bflags b' = 2 \<and>
    contents b' = header_bytes 2 (length (contents sample_buffer)) @ contents sample_buffer"
  by (rule write_header_into_buffer [OF sample_buffer_ok])

text \<open>C16. Transfer of frames. Bodies of 1 byte to 256 MiB that get their headers from
  \<open>WriteHeaderIntoBuffer\<close> and travel as one byte stream, cut into portions anyhow, arrive: the
  decoder hands over the same number of frames in the same order, behind each header is exactly
  the body that was sent, the two kind bits of the flags are those of the sender, and no byte is
  left over.\<close>

theorem frames_transfer:
  assumes "pool_ok A" "refc_ok refc"
    and written: "list_all2 (\<lambda>(fl, b) w. WriteHeaderIntoBuffer A b fl = Some (w, True)) bs ws"
    and ok: "\<forall>(fl, b) \<in> set bs. bw_inv b \<and> 24 \<le> boffset b \<and> 1 \<le> bsize b \<and> bsize b \<le> 2 ^ 28"
    and chunks: "concat chunks = concat (map contents ws)"
  shows "\<exists>d recv. push_chunks A (Some collect) refc FrameDecoder_new [] chunks = Some (d, recv) \<and>
    map (\<lambda>(x, hs). drop hs x) recv = map (\<lambda>(fl, b). contents b) bs \<and>
    map (\<lambda>(x, hs). GetPacketFlags x 0) recv = map (\<lambda>(fl, b). Some (fl AND 6)) bs \<and>
    contents (wbuf d) = [] \<and> fatals d = 0"
  using decoded_prefix [OF assms(1,2) written ok, of chunks "[]"] chunks by auto

theorem frames_transfer_witness:
  "\<exists>w d recv. WriteHeaderIntoBuffer (\<lambda>n. replicate n 0) sample_buffer 2 = Some (w, True) \<and>
    push_chunks (\<lambda>n. replicate n 0) (Some collect) (\<lambda>_ _. 1) FrameDecoder_new []
      [take 2 (contents w), drop 2 (contents w) @ contents w] = Some (d, recv) \<and>
    map (\<lambda>(x, hs). drop hs x) recv =
      map (\<lambda>(fl, b). contents b) [(2 :: u32, sample_buffer), (2, sample_buffer)] \<and>
    map (\<lambda>(x, hs). GetPacketFlags x 0) recv =
      map (\<lambda>(fl, b). Some (fl AND 6)) [(2, sample_buffer), (2, sample_buffer)] \<and>
    contents (wbuf d) = [] \<and> fatals d = 0"
proof -
  let ?A = "\<lambda>n. replicate n 0 :: bytes"
  obtain w where w: "WriteHeaderIntoBuffer ?A sample_buffer 2 = Some (w, True)"
    using WriteHeaderIntoBuffer_ok [OF sample_buffer_ok] by blast
  have a: "list_all2 (\<lambda>(fl, b) w. WriteHeaderIntoBuffer ?A b fl = Some (w, True))
      [(2, sample_buffer), (2, sample_buffer)] [w, w]" using w by simp
  have b: "\<forall>(fl, b) \<in> set [(2 :: u32, sample_buffer), (2, sample_buffer)].
      bw_inv b \<and> 24 \<le> boffset b \<and> 1 \<le> bsize b \<and> bsize b \<le> 2 ^ 28" using sample_buffer_ok by simp
  have c: "concat [take 2 (contents w), drop 2 (contents w) @ contents w] = concat (map contents [w, w])"
    by simp
  show ?thesis using w frames_transfer [OF pool_ok_zeros refc_ok_one a b c] by blast
qed

end
