(* ===== verification/Hash_Map.thy ===== *)
theory Hash_Map
  imports Prelude
begin

text \<open>
  Hash functions and the chained hash map: \<open>src/include/icon7/Hash.hpp\<close> and
  \<open>src/include/icon7/FlatHashMap.hpp\<close>.

  A \<open>FlatHashMap\<close> keeps its entries densely in the vector \<open>buckets\<close>; \<open>heads\<close> has, for each
  hash bucket, the 1-based position of its first entry (0 for none), and each entry has the
  position of the next one in its bucket. Removal moves the last entry into the hole. The hash
  of a key (\<open>THash::hash\<close> with the map's \<open>baseHash\<close>) is the parameter \<open>hash\<close> of the
  operations. \<open>fhm_inv\<close> is the representation invariant, \<open>fhm_map\<close> the map that a state stands
  for; the locale \<open>partial_map\<close> is the interface its users rely on.
\<close>

section \<open>Hash functions\<close>

definition StartHash32 :: u32 where
  "StartHash32 = 0x811c9dc5"

definition Hash32 :: "u32 \<Rightarrow> u32 \<Rightarrow> u32" where
  "Hash32 a b =
     (let h = b XOR a;
          a = h + push_bit 1 h;
          b = push_bit 24 h + push_bit 4 h
      in b + a + push_bit 7 a)"

definition StartHash64 :: u64 where
  "StartHash64 = 0xcbf29ce484222325"

definition Hash64 :: "u64 \<Rightarrow> u64 \<Rightarrow> u64" where
  "Hash64 a b =
     (let h = b XOR a;
          a = h + push_bit 1 h;
          b = push_bit 40 h
      in b + a + push_bit 4 a + push_bit 7 a)"

definition hash_uint64 :: "u64 \<Rightarrow> u64 \<Rightarrow> u32" where
  "hash_uint64 k base = ucast (Hash64 k base)"

definition hash_uint32 :: "u32 \<Rightarrow> u64 \<Rightarrow> u32" where
  "hash_uint32 k base = Hash32 k (ucast base)"

definition hash_int32 :: "u32 \<Rightarrow> u64 \<Rightarrow> u32" where
  "hash_int32 k base = Hash32 k (ucast base)"

text \<open>The 64-bit key is passed on as a \<open>uint32_t\<close>: its upper half is dropped.\<close>

definition hash_int64 :: "u64 \<Rightarrow> u64 \<Rightarrow> u32" where
  "hash_int64 k base = Hash32 (ucast k) (ucast base)"

text \<open>Up to 8 characters as a little-endian word.\<close>

primrec le_word :: "bytes \<Rightarrow> u64" where
  "le_word [] = 0"
| "le_word (x # xs) = ucast x + push_bit 8 (le_word xs)"

fun string_loop :: "u64 \<Rightarrow> bytes \<Rightarrow> u64" where
  "string_loop h k =
     (if 8 < length k then string_loop (Hash64 h (le_word (take 8 k))) (drop 8 k)
      else Hash64 h (le_word k))"

declare string_loop.simps [simp del]

definition hash_string :: "bytes \<Rightarrow> u64 \<Rightarrow> u32" where
  "hash_string k base = ucast (string_loop base k)"

section \<open>The map\<close>

partial_function (option) grow_capacity :: "nat \<Rightarrow> nat \<Rightarrow> nat option" where
  "grow_capacity capacity newCapacity =
     (if capacity < newCapacity then grow_capacity (capacity * 2 mod 2 ^ 32) newCapacity
      else Some capacity)"

definition RoundCapacity :: "nat \<Rightarrow> nat \<Rightarrow> nat option" where
  "RoundCapacity newCapacity minimum =
     (let minCap = (minimum + minimum div 2 + 5) mod 2 ^ 32;
          newCapacity = (if newCapacity < minCap then minCap else newCapacity)
      in grow_capacity 16 newCapacity)"

record ('k, 'v) Pair =
  key :: 'k
  val :: 'v
  nxt :: nat

record ('k, 'v) FlatHashMap =
  heads :: "nat list"
  buckets :: "('k, 'v) Pair list"

definition is_pow2_u64 :: "nat \<Rightarrow> bool" where
  "is_pow2_u64 n \<longleftrightarrow> (of_nat n :: u64) AND (of_nat n - 1) = 0"

definition FHM_new :: "nat \<Rightarrow> ('k, 'v) FlatHashMap option" where
  "FHM_new initialCapacity =
     (let c = (if initialCapacity < 16 then 16 else initialCapacity) in
      do { cassert (is_pow2_u64 c);
           Some \<lparr>heads = replicate c 0, buckets = []\<rparr> })"

definition Bucket :: "('k \<Rightarrow> u32) \<Rightarrow> ('k, 'v) FlatHashMap \<Rightarrow> 'k \<Rightarrow> nat option" where
  "Bucket hash m k =
     do { cassert (is_pow2_u64 (length (heads m)));
          Some (unat (hash k AND (of_nat (length (heads m)) - 1))) }"

text \<open>The loop of \<open>GetElement\<close> along a chain: the position of the key and of its predecessor.\<close>

partial_function (option) find_in_chain ::
  "('k, 'v) Pair list \<Rightarrow> 'k \<Rightarrow> nat \<Rightarrow> nat \<Rightarrow> (nat \<times> nat) option" where
  "find_in_chain bs k i prev =
     (if i = 0 then Some (0, 0)
      else do { b \<leftarrow> vget bs (i - 1);
                (if key b = k then Some (i, prev) else find_in_chain bs k (nxt b) i) })"

definition GetElement ::
  "('k \<Rightarrow> u32) \<Rightarrow> ('k, 'v) FlatHashMap \<Rightarrow> 'k \<Rightarrow> nat \<Rightarrow> (nat \<times> nat) option" where
  "GetElement hash m k bucketHead =
     do { h \<leftarrow> Bucket hash m k;
          cassert (h = bucketHead);
          i \<leftarrow> vget (heads m) bucketHead;
          find_in_chain (buckets m) k i 0 }"

text \<open>\<open>_Insert\<close>, with \<open>Rehash\<close> as an argument: \<open>Rehash\<close> inserts the entries anew with \<open>_Insert\<close>,
  and those insertions must not rehash again.\<close>

definition Insert_with ::
  "(('k, 'v) FlatHashMap \<Rightarrow> nat \<Rightarrow> ('k, 'v) FlatHashMap option) \<Rightarrow> ('k \<Rightarrow> u32) \<Rightarrow>
   ('k, 'v) FlatHashMap \<Rightarrow> 'k \<Rightarrow> 'v \<Rightarrow> nat \<Rightarrow> ('k, 'v) FlatHashMap option" where
  "Insert_with rehash hash m k v bucketHead =
     do { (m, bucketHead) \<leftarrow>
            (if length (heads m) < length (buckets m) + length (buckets m) div 2
             then do { m \<leftarrow> rehash m (length (heads m) * 2 mod 2 ^ 32);
                       h \<leftarrow> Bucket hash m k;
                       Some (m, h) }
             else Some (m, bucketHead));
          h \<leftarrow> vget (heads m) bucketHead;
          let bs = buckets m @ [\<lparr>key = k, val = v, nxt = h\<rparr>];
          hs \<leftarrow> vset (heads m) bucketHead (length bs);
          Some (m\<lparr>heads := hs, buckets := bs\<rparr>) }"

primrec zero_heads :: "nat \<Rightarrow> nat list \<Rightarrow> nat list option" where
  "zero_heads 0 hs = Some hs"
| "zero_heads (Suc i) hs = do { hs \<leftarrow> zero_heads i hs; vset hs i 0 }"

primrec reinsert ::
  "('k \<Rightarrow> u32) \<Rightarrow> ('k, 'v) FlatHashMap \<Rightarrow> ('k, 'v) Pair list \<Rightarrow> ('k, 'v) FlatHashMap option" where
  "reinsert hash m [] = Some m"
| "reinsert hash m (p # ps) =
     do { h \<leftarrow> Bucket hash m (key p);
          m \<leftarrow> Insert_with (\<lambda>_ _. None) hash m (key p) (val p) h;
          reinsert hash m ps }"

definition Rehash ::
  "('k \<Rightarrow> u32) \<Rightarrow> ('k, 'v) FlatHashMap \<Rightarrow> nat \<Rightarrow> ('k, 'v) FlatHashMap option" where
  "Rehash hash m newCapacity =
     do { capacity \<leftarrow> RoundCapacity newCapacity (length (buckets m));
          hs \<leftarrow> zero_heads (length (heads m)) (vresize (heads m) capacity 0);
          reinsert hash (m\<lparr>heads := hs, buckets := []\<rparr>) (buckets m) }"

definition Insert_entry ::
  "('k \<Rightarrow> u32) \<Rightarrow> ('k, 'v) FlatHashMap \<Rightarrow> 'k \<Rightarrow> 'v \<Rightarrow> nat \<Rightarrow> ('k, 'v) FlatHashMap option" where
  "Insert_entry hash = Insert_with (Rehash hash) hash"

definition InsertOrSet ::
  "('k \<Rightarrow> u32) \<Rightarrow> ('k, 'v) FlatHashMap \<Rightarrow> 'k \<Rightarrow> 'v \<Rightarrow> ('k, 'v) FlatHashMap option" where
  "InsertOrSet hash m k v =
     do { bucketHead \<leftarrow> Bucket hash m k;
          (cur, prev) \<leftarrow> GetElement hash m k bucketHead;
          (if cur = 0 then Insert_entry hash m k v bucketHead
           else do { b \<leftarrow> vget (buckets m) (cur - 1);
                     bs \<leftarrow> vset (buckets m) (cur - 1) (b\<lparr>val := v\<rparr>);
                     Some (m\<lparr>buckets := bs\<rparr>) }) }"

definition Get :: "('k \<Rightarrow> u32) \<Rightarrow> ('k, 'v) FlatHashMap \<Rightarrow> 'k \<Rightarrow> 'v option option" where
  "Get hash m k =
     do { bucketHead \<leftarrow> Bucket hash m k;
          (cur, prev) \<leftarrow> GetElement hash m k bucketHead;
          (if cur = 0 then Some None
           else do { b \<leftarrow> vget (buckets m) (cur - 1); Some (Some (val b)) }) }"

definition Has :: "('k \<Rightarrow> u32) \<Rightarrow> ('k, 'v) FlatHashMap \<Rightarrow> 'k \<Rightarrow> bool option" where
  "Has hash m k = do { v \<leftarrow> Get hash m k; Some (v \<noteq> None) }"

text \<open>The two updates that redirect a link: to the head of a bucket or to the predecessor.\<close>

definition set_link ::
  "('k, 'v) FlatHashMap \<Rightarrow> nat \<Rightarrow> nat \<Rightarrow> nat \<Rightarrow> ('k, 'v) FlatHashMap option" where
  "set_link m bucketHead prev target =
     (if prev = 0 then do { hs \<leftarrow> vset (heads m) bucketHead target; Some (m\<lparr>heads := hs\<rparr>) }
      else do { b \<leftarrow> vget (buckets m) (prev - 1);
                bs \<leftarrow> vset (buckets m) (prev - 1) (b\<lparr>nxt := target\<rparr>);
                Some (m\<lparr>buckets := bs\<rparr>) })"

text \<open>The second half of \<open>Remove\<close>: the last entry moves to the position of the removed one.\<close>

definition fill_hole ::
  "('k \<Rightarrow> u32) \<Rightarrow> ('k, 'v) FlatHashMap \<Rightarrow> nat \<Rightarrow> nat \<Rightarrow> ('k, 'v) FlatHashMap option" where
  "fill_hole hash m cur prev =
     (if cur = length (buckets m) then Some (m\<lparr>buckets := butlast (buckets m)\<rparr>)
      else do {
        let keyLast = key (last (buckets m));
        bucketHeadLast \<leftarrow> Bucket hash m keyLast;
        (curLast, prevLast) \<leftarrow> GetElement hash m keyLast bucketHeadLast;
        let prevLast = (if prevLast = cur then prev else prevLast);
        bs \<leftarrow> vset (buckets m) (cur - 1) (last (buckets m));
        let m = m\<lparr>buckets := butlast bs\<rparr>;
        set_link m bucketHeadLast prevLast cur })"

definition Remove :: "('k \<Rightarrow> u32) \<Rightarrow> ('k, 'v) FlatHashMap \<Rightarrow> 'k \<Rightarrow> ('k, 'v) FlatHashMap option" where
  "Remove hash m k =
     (if length (buckets m) = 0 then Some m
      else if length (buckets m) = 1
      then (if key (buckets m ! 0) = k
            then do { bucketHead \<leftarrow> Bucket hash m k;
                      h \<leftarrow> vget (heads m) bucketHead;
                      cassert (h = 1);
                      hs \<leftarrow> vset (heads m) bucketHead 0;
                      Some (m\<lparr>heads := hs, buckets := []\<rparr>) }
            else Some m)
      else do {
        bucketHeadRem \<leftarrow> Bucket hash m k;
        (cur, prev) \<leftarrow> GetElement hash m k bucketHeadRem;
        (if cur = 0 then Some m
         else do {
           b \<leftarrow> vget (buckets m) (cur - 1);
           m \<leftarrow> set_link m bucketHeadRem prev (nxt b);
           fill_hole hash m cur prev }) })"

definition Clear :: "('k, 'v) FlatHashMap \<Rightarrow> ('k, 'v) FlatHashMap" where
  "Clear m =
     (if length (buckets m) = 0 then m
      else m\<lparr>heads := map (\<lambda>_. 0) (heads m), buckets := []\<rparr>)"

definition Size :: "('k, 'v) FlatHashMap \<Rightarrow> nat" where
  "Size m = length (buckets m)"

definition Capacity :: "('k, 'v) FlatHashMap \<Rightarrow> nat" where
  "Capacity m = length (heads m)"

text \<open>\<open>GetRandom\<close> with the drawn number \<open>r\<close>.\<close>

definition GetRandom :: "u64 \<Rightarrow> ('k, 'v) FlatHashMap \<Rightarrow> ('k, 'v) Pair option" where
  "GetRandom r m =
     (if length (buckets m) = 0 then None
      else Some (buckets m ! (unat (ucast r :: u32) mod length (buckets m))))"

partial_function (option) FindPrevId_from ::
  "('k, 'v) Pair list \<Rightarrow> 'k \<Rightarrow> nat \<Rightarrow> int \<Rightarrow> int option" where
  "FindPrevId_from bs k i prev =
     (if i = 0 then Some (- 1)
      else do { b \<leftarrow> vget bs (i - 1);
                (if key b = k then Some prev else FindPrevId_from bs k (nxt b) (int i)) })"

definition FindPrevId :: "('k, 'v) FlatHashMap \<Rightarrow> nat \<Rightarrow> 'k \<Rightarrow> int option" where
  "FindPrevId m bucket k = do { i \<leftarrow> vget (heads m) bucket; FindPrevId_from (buckets m) k i 0 }"

definition GetNext :: "('k, 'v) FlatHashMap \<Rightarrow> int \<Rightarrow> nat \<Rightarrow> nat option" where
  "GetNext m prev bucket =
     (if prev > 0 then do { b \<leftarrow> vget (buckets m) (nat prev - 1); Some (nxt b) }
      else if prev = 0 then vget (heads m) bucket
      else Some 0)"

section \<open>Linked chains\<close>

text \<open>\<open>pathto N i xs t\<close>: following the links \<open>N\<close> from \<open>i\<close> visits the positions \<open>xs\<close> and arrives
  at \<open>t\<close>.\<close>

primrec pathto :: "(nat \<Rightarrow> nat) \<Rightarrow> nat \<Rightarrow> nat list \<Rightarrow> nat \<Rightarrow> bool" where
  "pathto N i [] t \<longleftrightarrow> i = t"
| "pathto N i (j # js) t \<longleftrightarrow> i = j \<and> pathto N (N j) js t"

lemma pathto_append: "pathto N i (xs @ ys) t \<longleftrightarrow> (\<exists>k. pathto N i xs k \<and> pathto N k ys t)"
  by (induction xs arbitrary: i) auto

lemma pathto_upd [simp]: "p \<notin> set xs \<Longrightarrow> pathto (N(p := q)) i xs t = pathto N i xs t"
  by (induction xs arbitrary: i) auto

lemma pathto_cong: "(\<And>j. j \<in> set xs \<Longrightarrow> N j = N' j) \<Longrightarrow> pathto N i xs t = pathto N' i xs t"
  by (induction xs arbitrary: i) auto

text \<open>Redirecting the link into position \<open>c\<close> of a chain: the link is the head of the chain when
  \<open>c\<close> is first, else the one of its predecessor.\<close>

lemma pathto_redirect:
  assumes "pathto N i (as @ [p] @ bs) t" "distinct (as @ [p])"
  shows "pathto (N(p := q)) i (as @ [p]) q"
  using assms by (auto simp: pathto_append)

lemma pathto_unlink:
  assumes "pathto N i (as @ p # c # bs) t" "distinct (as @ p # c # bs)"
  shows "pathto (N(p := N c)) i (as @ p # bs) t"
  using assms by (auto simp: pathto_append)

lemma pathto_rename:
  assumes "pathto N i (as @ p # l # bs) t" "distinct (as @ p # l # bs)"
    "c \<notin> set (as @ p # l # bs)"
  shows "pathto ((N(c := N l))(p := c)) i (as @ p # c # bs) t"
  using assms by (auto simp: pathto_append)

lemma pathto_rename_first:
  assumes "pathto N i (l # bs) t" "c \<notin> set bs"
  shows "pathto (N(c := N l)) c (c # bs) t"
  using assms by auto

section \<open>Representation invariant\<close>

definition links :: "('k, 'v) Pair list \<Rightarrow> nat \<Rightarrow> nat" where
  "links bs j = (if j = 0 then 0 else nxt (bs ! (j - 1)))"

definition bkt :: "('k \<Rightarrow> u32) \<Rightarrow> nat \<Rightarrow> 'k \<Rightarrow> nat" where
  "bkt hash n k = unat (hash k) mod n"

definition members :: "('k \<Rightarrow> u32) \<Rightarrow> nat \<Rightarrow> 'k list \<Rightarrow> nat \<Rightarrow> nat set" where
  "members hash n ks h = {j. 1 \<le> j \<and> j \<le> length ks \<and> bkt hash n (ks ! (j - 1)) = h}"

definition keys :: "('k, 'v) FlatHashMap \<Rightarrow> 'k list" where
  "keys m = map key (buckets m)"

definition fhm_chains ::
  "('k \<Rightarrow> u32) \<Rightarrow> ('k, 'v) FlatHashMap \<Rightarrow> (nat \<Rightarrow> nat list) \<Rightarrow> bool" where
  "fhm_chains hash m cs \<longleftrightarrow>
     (\<forall>h < length (heads m). pathto (links (buckets m)) (heads m ! h) (cs h) 0 \<and> distinct (cs h) \<and>
        set (cs h) = members hash (length (heads m)) (keys m) h)"

definition fhm_inv :: "('k \<Rightarrow> u32) \<Rightarrow> ('k, 'v) FlatHashMap \<Rightarrow> bool" where
  "fhm_inv hash m \<longleftrightarrow> (\<exists>w. 4 \<le> w \<and> w \<le> 31 \<and> length (heads m) = 2 ^ w) \<and> distinct (keys m) \<and>
     (\<exists>cs. fhm_chains hash m cs)"

text \<open>The map that a state stands for.\<close>

definition fhm_map :: "('k, 'v) FlatHashMap \<Rightarrow> 'k \<Rightarrow> 'v option" where
  "fhm_map m = map_of (map (\<lambda>p. (key p, val p)) (buckets m))"

lemma links_update: "0 < p \<Longrightarrow> p \<le> length bs \<Longrightarrow> links (bs[p - 1 := b]) = (links bs)(p := nxt b)"
  by (auto simp: links_def fun_eq_iff nth_list_update)

lemma links_append: "j \<le> length bs \<Longrightarrow> links (bs @ xs) j = links bs j"
  by (auto simp: links_def nth_append)

lemma links_butlast: "j < length bs \<Longrightarrow> links (butlast bs) j = links bs j"
  by (auto simp: links_def nth_butlast)

lemma length_keys [simp]: "length (keys m) = length (buckets m)"
  by (simp add: keys_def)

lemma nth_keys: "j < length (buckets m) \<Longrightarrow> keys m ! j = key (buckets m ! j)"
  by (simp add: keys_def)

lemma and_pow2_minus_1: "(x :: 'a :: len word) AND (2 ^ w - 1) = take_bit w x"
  by (simp add: take_bit_eq_mask mask_eq_exp_minus_1)

lemma is_pow2_u64_pow: "w \<le> 31 \<Longrightarrow> is_pow2_u64 (2 ^ w)"
  by (simp add: is_pow2_u64_def and_pow2_minus_1 take_bit_eq_mod)

lemma Bucket_eq:
  assumes "length (heads m) = 2 ^ w" "w \<le> 31"
  shows "Bucket hash m k = Some (bkt hash (length (heads m)) k)"
    "bkt hash (length (heads m)) k < length (heads m)"
  using assms is_pow2_u64_pow [of w]
  by (simp_all add: Bucket_def bkt_def and_pow2_minus_1 unsigned_take_bit_eq take_bit_eq_mod [of _ "_ :: nat"])

lemma fhm_invE:
  assumes "fhm_inv hash m"
  obtains w cs where "4 \<le> w" "w \<le> 31" "length (heads m) = 2 ^ w" "distinct (keys m)"
    "fhm_chains hash m cs" "\<And>k. Bucket hash m k = Some (bkt hash (length (heads m)) k)"
    "\<And>k. bkt hash (length (heads m)) k < length (heads m)"
  using assms Bucket_eq unfolding fhm_inv_def by metis

lemma find_in_chain_eq:
  assumes "pathto (links bs) i xs 0" "\<forall>j \<in> set xs. 1 \<le> j \<and> j \<le> length bs"
  shows "(\<forall>j \<in> set xs. key (bs ! (j - 1)) \<noteq> k) \<Longrightarrow> find_in_chain bs k i prev = Some (0, 0)"
    and "xs = as @ c # rest \<Longrightarrow> (\<forall>j \<in> set as. key (bs ! (j - 1)) \<noteq> k) \<Longrightarrow> key (bs ! (c - 1)) = k \<Longrightarrow>
      find_in_chain bs k i prev = Some (c, last (prev # as))"
  using assms
proof (induction xs arbitrary: i prev as)
  case Nil
  { case 1 then show ?case by (simp add: find_in_chain.simps) }
  { case 2 then show ?case by simp }
next
  case (Cons x xs)
  { case 1
    with Cons.IH(1) [of "links bs x" x] show ?case by (subst find_in_chain.simps) (auto simp: links_def) }
  { case 2
    show ?case
    proof (cases as)
      case Nil
      with 2 show ?thesis by (subst find_in_chain.simps) auto
    next
      case (Cons a as')
      with 2 Cons.IH(2) [of as' "links bs x" x] show ?thesis
        by (subst find_in_chain.simps) (auto simp: links_def)
    qed }
qed

section \<open>Lookup\<close>

lemma members_iff: "j \<in> members hash n (keys m) h \<longleftrightarrow>
    1 \<le> j \<and> j \<le> length (buckets m) \<and> bkt hash n (key (buckets m ! (j - 1))) = h"
  by (cases j) (auto simp: members_def nth_keys)

lemma key_position:
  assumes "distinct (keys m)" "1 \<le> i" "i \<le> length (buckets m)" "1 \<le> j" "j \<le> length (buckets m)"
  shows "key (buckets m ! (i - 1)) = key (buckets m ! (j - 1)) \<longleftrightarrow> i = j"
  using assms nth_eq_iff_index_eq [OF assms(1), of "i - 1" "j - 1"] by (auto simp: nth_keys)

lemma in_keysE:
  assumes "k \<in> set (keys m)"
  obtains c where "1 \<le> c" "c \<le> length (buckets m)" "key (buckets m ! (c - 1)) = k"
proof -
  obtain i where "i < length (buckets m)" "key (buckets m ! i) = k"
    using assms by (auto simp: keys_def in_set_conv_nth)
  then show ?thesis by (intro that [of "Suc i"]) auto
qed

lemma nth_in_keys: "1 \<le> c \<Longrightarrow> c \<le> length (buckets m) \<Longrightarrow> key (buckets m ! (c - 1)) \<in> set (keys m)"
  by (auto simp: keys_def)

lemma GetElement_eq:
  assumes inv: "length (heads m) = 2 ^ w" "w \<le> 31" "distinct (keys m)" "fhm_chains hash m cs"
  defines "h \<equiv> bkt hash (length (heads m))"
  shows "k \<notin> set (keys m) \<Longrightarrow> GetElement hash m k (h k) = Some (0, 0)"
    and "\<lbrakk>1 \<le> c; c \<le> length (buckets m); key (buckets m ! (c - 1)) = k\<rbrakk> \<Longrightarrow>
      \<exists>as rest. cs (h k) = as @ c # rest \<and> GetElement hash m k (h k) = Some (c, last (0 # as))"
proof -
  note B = Bucket_eq [OF inv(1,2), of hash, folded h_def]
  have p: "pathto (links (buckets m)) (heads m ! h k) (cs (h k)) 0" "distinct (cs (h k))"
      "set (cs (h k)) = members hash (length (heads m)) (keys m) (h k)"
    using inv(4) B(2) by (auto simp: fhm_chains_def)
  then have r: "\<forall>j \<in> set (cs (h k)). 1 \<le> j \<and> j \<le> length (buckets m)" by (auto simp: members_iff)
  have g: "GetElement hash m k (h k) = find_in_chain (buckets m) k (heads m ! h k) 0"
    using B by (simp add: GetElement_def)
  show "GetElement hash m k (h k) = Some (0, 0)" if "k \<notin> set (keys m)"
    unfolding g using that r nth_in_keys [of _ m] by (intro find_in_chain_eq(1) [OF p(1) r]) blast
  show "\<exists>as rest. cs (h k) = as @ c # rest \<and> GetElement hash m k (h k) = Some (c, last (0 # as))"
    if c: "1 \<le> c" "c \<le> length (buckets m)" "key (buckets m ! (c - 1)) = k"
  proof -
    have "c \<in> set (cs (h k))" using p(3) c by (auto simp: members_iff h_def)
    then obtain as rest where cs: "cs (h k) = as @ c # rest" by (meson split_list)
    have "\<forall>j \<in> set as. key (buckets m ! (j - 1)) \<noteq> k"
      using p(2) r c key_position [OF inv(3) _ _ c(1,2)] unfolding cs by auto
    then show ?thesis unfolding g using find_in_chain_eq(2) [OF p(1) r cs _ c(3)] cs by blast
  qed
qed

lemma map_of_nth:
  "distinct (map f xs) \<Longrightarrow> i < length xs \<Longrightarrow> map_of (map (\<lambda>p. (f p, g p)) xs) (f (xs ! i)) = Some (g (xs ! i))"
  by (intro map_of_is_SomeI) (auto simp: comp_def)

lemma fhm_map_None: "fhm_map m k = None \<longleftrightarrow> k \<notin> set (keys m)"
  by (simp add: fhm_map_def keys_def map_of_eq_None_iff image_comp comp_def)

lemma dom_fhm_map: "dom (fhm_map m) = set (keys m)"
  by (rule set_eqI) (simp add: domIff fhm_map_None)

lemma fhm_map_nth:
  "distinct (keys m) \<Longrightarrow> 1 \<le> c \<Longrightarrow> c \<le> length (buckets m) \<Longrightarrow>
   fhm_map m (key (buckets m ! (c - 1))) = Some (val (buckets m ! (c - 1)))"
  unfolding fhm_map_def keys_def by (intro map_of_nth) auto

lemma Get_ok:
  assumes "fhm_inv hash m"
  shows "Get hash m k = Some (fhm_map m k)"
  using assms
proof (elim fhm_invE)
  fix w cs
  assume w: "w \<le> 31" "length (heads m) = 2 ^ w" "distinct (keys m)" "fhm_chains hash m cs"
    and B: "\<And>k. Bucket hash m k = Some (bkt hash (length (heads m)) k)"
  note G = GetElement_eq [OF w(2,1,3,4)]
  show ?thesis
  proof (cases "k \<in> set (keys m)")
    case True
    then obtain c where c: "1 \<le> c" "c \<le> length (buckets m)" "key (buckets m ! (c - 1)) = k"
      by (rule in_keysE)
    with G(2) [OF c] fhm_map_nth [OF w(3) c(1,2)] B show ?thesis by (auto simp: Get_def)
  next
    case False
    with G(1) [OF False] B show ?thesis by (simp add: Get_def flip: fhm_map_None)
  qed
qed

lemma Has_ok: "fhm_inv hash m \<Longrightarrow> Has hash m k = Some (k \<in> dom (fhm_map m))"
  by (simp add: Has_def Get_ok dom_def)

section \<open>Insertion\<close>

lemma map_of_append_new:
  "k \<notin> set (map fst ps) \<Longrightarrow> map_of (ps @ [(k, v)]) = (map_of ps)(k \<mapsto> v)"
  by (induction ps) (auto simp: fun_eq_iff)

text \<open>Adding a new entry in front of its chain.\<close>

definition add_entry :: "('k, 'v) FlatHashMap \<Rightarrow> 'k \<Rightarrow> 'v \<Rightarrow> nat \<Rightarrow> ('k, 'v) FlatHashMap" where
  "add_entry m k v h = m\<lparr>heads := (heads m)[h := Suc (length (buckets m))],
     buckets := buckets m @ [\<lparr>key = k, val = v, nxt = heads m ! h\<rparr>]\<rparr>"

lemma fhm_map_add_entry:
  "k \<notin> set (keys m) \<Longrightarrow> fhm_map (add_entry m k v h) = (fhm_map m)(k \<mapsto> v)"
  unfolding fhm_map_def add_entry_def
  by (simp add: map_of_append_new keys_def image_comp comp_def del: map_of_append)

lemma fhm_chains_add_entry:
  assumes "fhm_chains hash m cs" "h = bkt hash (length (heads m)) k" "h < length (heads m)"
  shows "fhm_chains hash (add_entry m k v h) (cs(h := Suc (length (buckets m)) # cs h))"
  unfolding fhm_chains_def
proof (intro allI impI)
  fix g
  let ?m = "add_entry m k v h" and ?cs = "cs(h := Suc (length (buckets m)) # cs h)"
  let ?L = "Suc (length (buckets m))"
  assume "g < length (heads ?m)"
  then have g: "g < length (heads m)" by (simp add: add_entry_def)
  then have p: "pathto (links (buckets m)) (heads m ! g) (cs g) 0" "distinct (cs g)"
      "set (cs g) = members hash (length (heads m)) (keys m) g"
    using assms(1) by (auto simp: fhm_chains_def)
  have "\<forall>j \<in> set (cs g). j \<le> length (buckets m)" using p(3) by (auto simp: members_iff)
  then have "pathto (links (buckets ?m)) (heads m ! g) (cs g) 0" "?L \<notin> set (cs g)"
    using p(1) pathto_cong [of "cs g" "links (buckets ?m)" "links (buckets m)"]
    by (auto simp: add_entry_def links_append)
  moreover have "links (buckets ?m) ?L = heads m ! h" by (simp add: links_def add_entry_def)
  moreover have "members hash (length (heads ?m)) (keys ?m) g =
      members hash (length (heads m)) (keys m) g \<union> (if g = h then {?L} else {})"
    using assms(2) by (auto simp: members_def add_entry_def keys_def nth_append less_Suc_eq_le le_Suc_eq)
  ultimately show "pathto (links (buckets ?m)) (heads ?m ! g) (?cs g) 0 \<and> distinct (?cs g) \<and>
      set (?cs g) = members hash (length (heads ?m)) (keys ?m) g"
    using p g by (auto simp: add_entry_def)
qed

lemma add_entry_ok:
  assumes "fhm_inv hash m" "k \<notin> set (keys m)" "h = bkt hash (length (heads m)) k"
  shows "fhm_inv hash (add_entry m k v h)" "fhm_map (add_entry m k v h) = (fhm_map m)(k \<mapsto> v)"
proof -
  obtain w cs where w: "4 \<le> w" "w \<le> 31" "length (heads m) = 2 ^ w" "distinct (keys m)"
      "fhm_chains hash m cs" "h < length (heads m)"
    using assms(1,3) by (elim fhm_invE) blast
  from fhm_chains_add_entry [OF w(5) assms(3) w(6)] w assms(2)
  show "fhm_inv hash (add_entry m k v h)" by (auto simp: fhm_inv_def add_entry_def keys_def)
  show "fhm_map (add_entry m k v h) = (fhm_map m)(k \<mapsto> v)"
    by (rule fhm_map_add_entry [OF assms(2)])
qed

lemma Insert_with_fit:
  assumes "h < length (heads m)" "length (buckets m) + length (buckets m) div 2 \<le> length (heads m)"
  shows "Insert_with rehash hash m k v h = Some (add_entry m k v h)"
  using assms by (simp add: Insert_with_def add_entry_def Let_def)

section \<open>Rehashing\<close>

lemma grow_capacity_ok:
  assumes "a \<le> 31" "n \<le> 2 ^ 31"
  shows "\<exists>b. a \<le> b \<and> b \<le> 31 \<and> grow_capacity (2 ^ a) n = Some (2 ^ b) \<and> n \<le> 2 ^ b \<and> (b = a \<or> 2 ^ b < 2 * n)"
  using assms(1)
proof (induction a rule: inc_induct)
  case base
  then show ?case using assms(2) by (intro exI [of _ 31]) (simp add: grow_capacity.simps)
next
  case (step a)
  show ?case
  proof (cases "(2 :: nat) ^ a < n")
    case True
    have "(2 :: nat) ^ Suc a < 2 ^ 32" using step.hyps by (intro power_strict_increasing) auto
    then have "(2 :: nat) ^ a * 2 mod 2 ^ 32 = 2 ^ Suc a" by simp
    then have "grow_capacity (2 ^ a) n = grow_capacity (2 ^ Suc a) n"
      using True by (subst grow_capacity.simps) simp
    with step.IH show ?thesis using True by (metis Suc_leD mult_less_mono2 power_Suc zero_less_numeral)
  next
    case False
    then show ?thesis using step.hyps by (intro exI [of _ a]) (simp add: grow_capacity.simps)
  qed
qed

lemma RoundCapacity_ok:
  assumes "n \<le> 2 ^ 31" "s + s div 2 + 5 \<le> 2 ^ 31"
  shows "\<exists>b. 4 \<le> b \<and> b \<le> 31 \<and> RoundCapacity n s = Some (2 ^ b) \<and> n \<le> 2 ^ b \<and> s + s div 2 + 5 \<le> 2 ^ b"
proof -
  have "(s + s div 2 + 5) mod 2 ^ 32 = s + s div 2 + 5" using assms(2) by simp
  then have "RoundCapacity n s = grow_capacity (2 ^ 4) (max n (s + s div 2 + 5))"
    by (simp add: RoundCapacity_def Let_def max_def)
  then show ?thesis using grow_capacity_ok [of 4 "max n (s + s div 2 + 5)"] assms by auto
qed

lemma zero_heads_eq: "n \<le> length hs \<Longrightarrow> zero_heads n hs = Some (replicate n 0 @ drop n hs)"
proof (induction n)
  case (Suc n)
  then show ?case
    by (simp add: list_update_append replicate_append_same [symmetric] Cons_nth_drop_Suc [symmetric])
qed simp

lemma zero_heads_short: "length hs < n \<Longrightarrow> zero_heads n hs = None"
  by (induction n) (auto simp: vset_def zero_heads_eq not_less less_Suc_eq)

definition entries :: "('k, 'v) FlatHashMap \<Rightarrow> ('k \<times> 'v) list" where
  "entries m = map (\<lambda>p. (key p, val p)) (buckets m)"

lemma entries_facts: "fhm_map m = map_of (entries m)" "keys m = map fst (entries m)"
    "length (entries m) = length (buckets m)"
  by (simp_all add: fhm_map_def entries_def keys_def comp_def)

lemma entries_add_entry: "entries (add_entry m k v h) = entries m @ [(k, v)]"
    "length (heads (add_entry m k v h)) = length (heads m)"
    "length (buckets (add_entry m k v h)) = Suc (length (buckets m))"
  by (simp_all add: entries_def add_entry_def)

lemma fhm_inv_empty: "4 \<le> w \<Longrightarrow> w \<le> 31 \<Longrightarrow> fhm_inv hash \<lparr>heads = replicate (2 ^ w) 0, buckets = []\<rparr>"
  by (auto simp: fhm_inv_def fhm_chains_def keys_def members_def intro!: exI [of _ "\<lambda>_. []"])

lemma reinsert_ok:
  assumes "fhm_inv hash m" "distinct (keys m @ map key ps)"
    "length (buckets m) + length ps + (length (buckets m) + length ps) div 2 \<le> length (heads m)"
  shows "\<exists>m'. reinsert hash m ps = Some m' \<and> fhm_inv hash m' \<and> length (heads m') = length (heads m) \<and>
    entries m' = entries m @ map (\<lambda>p. (key p, val p)) ps"
  using assms
proof (induction ps arbitrary: m)
  case Nil
  then show ?case by simp
next
  case (Cons p ps)
  let ?h = "bkt hash (length (heads m)) (key p)"
  let ?m = "add_entry m (key p) (val p) ?h"
  have B: "Bucket hash m (key p) = Some ?h" "?h < length (heads m)"
    using Cons.prems(1) by (auto elim: fhm_invE)
  have r: "Insert_with (\<lambda>_ _. None) hash m (key p) (val p) ?h = Some ?m"
    using Cons.prems(3) by (intro Insert_with_fit B(2)) linarith
  have "fhm_inv hash ?m" using add_entry_ok(1) [OF Cons.prems(1)] Cons.prems(2) by simp
  moreover have "distinct (keys ?m @ map key ps)"
    using Cons.prems(2) by (auto simp: entries_facts(2) entries_add_entry)
  ultimately obtain m' where "reinsert hash ?m ps = Some m'" "fhm_inv hash m'"
      "length (heads m') = length (heads ?m)" "entries m' = entries ?m @ map (\<lambda>p. (key p, val p)) ps"
    using Cons.IH [of ?m] Cons.prems(3) by (auto simp: entries_add_entry)
  then show ?case using B r by (auto simp: entries_add_entry)
qed

lemma Rehash_ok:
  assumes "fhm_inv hash m" "length (heads m) \<le> n" "n \<le> 2 ^ 31"
    "length (buckets m) + length (buckets m) div 2 + 5 \<le> 2 ^ 31"
  shows "\<exists>m'. Rehash hash m n = Some m' \<and> fhm_inv hash m' \<and> entries m' = entries m \<and> n \<le> length (heads m') \<and>
    length (buckets m) + length (buckets m) div 2 + 5 \<le> length (heads m')"
proof -
  obtain b where b: "4 \<le> b" "b \<le> 31" "RoundCapacity n (length (buckets m)) = Some (2 ^ b)" "n \<le> 2 ^ b"
      "length (buckets m) + length (buckets m) div 2 + 5 \<le> 2 ^ b"
    using RoundCapacity_ok [OF assms(3,4)] by blast
  have z: "zero_heads (length (heads m)) (vresize (heads m) (2 ^ b) 0) = Some (replicate (2 ^ b) 0)"
    using assms(2) b(4) by (simp add: zero_heads_eq vresize_def flip: replicate_add)
  let ?m = "\<lparr>heads = replicate (2 ^ b) 0, buckets = []\<rparr> :: ('a, 'b) FlatHashMap"
  have e: "Rehash hash m n = reinsert hash ?m (buckets m)" using b(3) z by (cases m) (simp add: Rehash_def)
  have "distinct (map key (buckets m))" using assms(1) by (auto simp: fhm_inv_def keys_def)
  then obtain m' where "reinsert hash ?m (buckets m) = Some m'" "fhm_inv hash m'"
      "length (heads m') = 2 ^ b" "entries m' = entries m"
    using reinsert_ok [OF fhm_inv_empty [OF b(1,2), of hash], of "buckets m"] b(5)
    by (auto simp: keys_def entries_def)
  then show ?thesis using b e by simp
qed

section \<open>Insert or set\<close>

lemma map_of_set_nth:
  "distinct (map fst ps) \<Longrightarrow> i < length ps \<Longrightarrow> map_of (ps[i := (fst (ps ! i), v)]) = (map_of ps)(fst (ps ! i) \<mapsto> v)"
proof (induction ps arbitrary: i)
  case (Cons p ps)
  then show ?case by (cases i) (auto simp: fun_eq_iff, metis image_eqI nth_mem)
qed simp

lemma Insert_entry_ok:
  assumes "fhm_inv hash m" "k \<notin> set (keys m)" "length (buckets m) < 2 ^ 29"
  shows "\<exists>m'. Insert_entry hash m k v (bkt hash (length (heads m)) k) = Some m' \<and> fhm_inv hash m' \<and>
    entries m' = entries m @ [(k, v)]"
proof (cases "length (heads m) < length (buckets m) + length (buckets m) div 2")
  case True
  let ?n = "length (heads m) * 2"
  have n: "?n mod 2 ^ 32 = ?n" "length (heads m) \<le> ?n" "?n \<le> 2 ^ 31"
      "length (buckets m) + length (buckets m) div 2 + 5 \<le> 2 ^ 31"
    using True assms(3) by auto
  obtain r where r: "Rehash hash m ?n = Some r" "fhm_inv hash r" "entries r = entries m"
      "length (buckets m) + length (buckets m) div 2 + 5 \<le> length (heads r)"
    using Rehash_ok [OF assms(1) n(2-4)] by blast
  let ?h = "bkt hash (length (heads r)) k"
  have k: "k \<notin> set (keys r)" "length (buckets r) = length (buckets m)"
    using assms(2) r(3) by (auto simp: entries_facts(2) simp flip: entries_facts(3))
  have B: "Bucket hash r k = Some ?h" "?h < length (heads r)" using r(2) by (auto elim: fhm_invE)
  have "Insert_entry hash m k v h = Insert_with (Rehash hash) hash r k v ?h" for h
    using True n(1) r(1,4) k(2) B by (simp add: Insert_entry_def Insert_with_def)
  also have "\<dots> = Some (add_entry r k v ?h)" using r(4) k(2) by (intro Insert_with_fit B(2)) simp
  finally show ?thesis using add_entry_ok(1) [OF r(2) k(1)] r(3) by (simp add: entries_add_entry)
next
  case False
  have "bkt hash (length (heads m)) k < length (heads m)" using assms(1) by (auto elim: fhm_invE)
  then have "Insert_entry hash m k v (bkt hash (length (heads m)) k) =
      Some (add_entry m k v (bkt hash (length (heads m)) k))"
    using False unfolding Insert_entry_def by (intro Insert_with_fit) auto
  then show ?thesis using add_entry_ok(1) [OF assms(1,2)] by (simp add: entries_add_entry)
qed

lemma links_val_update: "links (bs[i := (bs ! i)\<lparr>val := v\<rparr>]) = links bs"
  by (cases "i < length bs") (auto simp: links_def fun_eq_iff nth_list_update list_update_beyond)

lemma set_val_ok:
  fixes v
  assumes "fhm_inv hash m" "i < length (buckets m)"
  defines "m' \<equiv> m\<lparr>buckets := (buckets m)[i := (buckets m ! i)\<lparr>val := v\<rparr>]\<rparr>"
  shows "fhm_inv hash m'" "entries m' = (entries m)[i := (key (buckets m ! i), v)]"
proof -
  have k: "keys m' = keys m" "links (buckets m') = links (buckets m)"
    using assms(2) by (auto simp: m'_def keys_def map_update list_update_same_conv links_val_update)
  then show "fhm_inv hash m'" using assms(1) by (simp add: fhm_inv_def fhm_chains_def m'_def)
  show "entries m' = (entries m)[i := (key (buckets m ! i), v)]"
    by (simp add: m'_def entries_def map_update)
qed

lemma InsertOrSet_ok:
  assumes "fhm_inv hash m" "length (buckets m) < 2 ^ 29"
  shows "\<exists>m'. InsertOrSet hash m k v = Some m' \<and> fhm_inv hash m' \<and> fhm_map m' = (fhm_map m)(k \<mapsto> v)"
proof -
  obtain w cs where w: "w \<le> 31" "length (heads m) = 2 ^ w" "distinct (keys m)" "fhm_chains hash m cs"
    and B: "Bucket hash m k = Some (bkt hash (length (heads m)) k)"
    using assms(1) by (elim fhm_invE) blast
  note G = GetElement_eq [OF w(2,1,3,4)]
  show ?thesis
  proof (cases "k \<in> set (keys m)")
    case True
    then obtain c where c: "1 \<le> c" "c \<le> length (buckets m)" "key (buckets m ! (c - 1)) = k"
      by (rule in_keysE)
    let ?m = "m\<lparr>buckets := (buckets m)[c - 1 := (buckets m ! (c - 1))\<lparr>val := v\<rparr>]\<rparr>"
    have i: "c - 1 < length (buckets m)" using c by simp
    have "InsertOrSet hash m k v = Some ?m" using G(2) [OF c] B c by (auto simp: InsertOrSet_def)
    moreover have "fhm_map ?m = (fhm_map m)(k \<mapsto> v)"
      using set_val_ok(2) [OF assms(1) i, of v] map_of_set_nth [of "entries m" "c - 1" v] w(3) c i
      by (simp add: entries_facts) (simp add: entries_def)
    ultimately show ?thesis using set_val_ok(1) [OF assms(1) i] by blast
  next
    case False
    then obtain m' where m': "Insert_entry hash m k v (bkt hash (length (heads m)) k) = Some m'"
        "fhm_inv hash m'" "entries m' = entries m @ [(k, v)]"
      using Insert_entry_ok [OF assms(1) _ assms(2)] by blast
    then have "fhm_map m' = (fhm_map m)(k \<mapsto> v)"
      using False by (simp add: entries_facts map_of_append_new del: map_of_append)
    then show ?thesis using G(1) [OF False] B m' by (simp add: InsertOrSet_def)
  qed
qed

section \<open>Removal\<close>

text \<open>The chains alone, without the requirement that they cover all entries.\<close>

definition raw_chains :: "('k, 'v) FlatHashMap \<Rightarrow> (nat \<Rightarrow> nat list) \<Rightarrow> bool" where
  "raw_chains m cs \<longleftrightarrow>
     (\<forall>h < length (heads m). pathto (links (buckets m)) (heads m ! h) (cs h) 0 \<and> distinct (cs h) \<and>
        set (cs h) \<subseteq> {1..length (buckets m)}) \<and>
     (\<forall>g h. g < length (heads m) \<longrightarrow> h < length (heads m) \<longrightarrow> g \<noteq> h \<longrightarrow> set (cs g) \<inter> set (cs h) = {})"

lemma raw_chains_of: "fhm_chains hash m cs \<Longrightarrow> raw_chains m cs"
  by (auto simp: fhm_chains_def raw_chains_def members_iff)

lemma fhm_chains_iff: "fhm_chains hash m cs \<longleftrightarrow> raw_chains m cs \<and>
    (\<forall>h < length (heads m). set (cs h) = members hash (length (heads m)) (keys m) h)"
proof
  assume "fhm_chains hash m cs"
  then show "raw_chains m cs \<and> (\<forall>h < length (heads m). set (cs h) = members hash (length (heads m)) (keys m) h)"
    using raw_chains_of by (simp add: fhm_chains_def)
qed (simp add: fhm_chains_def raw_chains_def)

lemma raw_chainsI:
  assumes "\<And>h. h < length (heads m) \<Longrightarrow> pathto (links (buckets m)) (heads m ! h) (cs h) 0 \<and> distinct (cs h) \<and>
      set (cs h) \<subseteq> {1..length (buckets m)}"
    "\<And>g h x. g < length (heads m) \<Longrightarrow> h < length (heads m) \<Longrightarrow> g \<noteq> h \<Longrightarrow> x \<in> set (cs g) \<Longrightarrow> x \<notin> set (cs h)"
  shows "raw_chains m cs"
  using assms unfolding raw_chains_def by blast

lemma raw_chainsD:
  assumes "raw_chains m cs" "h < length (heads m)"
  shows "pathto (links (buckets m)) (heads m ! h) (cs h) 0" "distinct (cs h)"
    "set (cs h) \<subseteq> {1..length (buckets m)}"
    "g < length (heads m) \<Longrightarrow> g \<noteq> h \<Longrightarrow> set (cs g) \<inter> set (cs h) = {}"
  using assms by (auto simp: raw_chains_def)

text \<open>Chains of the right shape: duplicate-free, in range, disjoint.\<close>

definition chains_shape :: "nat \<Rightarrow> nat \<Rightarrow> (nat \<Rightarrow> nat list) \<Rightarrow> bool" where
  "chains_shape n l cs \<longleftrightarrow>
     (\<forall>h < n. distinct (cs h) \<and> set (cs h) \<subseteq> {1..l}) \<and>
     (\<forall>g h x. g < n \<longrightarrow> h < n \<longrightarrow> g \<noteq> h \<longrightarrow> x \<in> set (cs g) \<longrightarrow> x \<notin> set (cs h))"

lemma raw_chains_iff: "raw_chains m cs \<longleftrightarrow> chains_shape (length (heads m)) (length (buckets m)) cs \<and>
    (\<forall>h < length (heads m). pathto (links (buckets m)) (heads m ! h) (cs h) 0)"
  unfolding raw_chains_def chains_shape_def by blast

text \<open>Redirecting one link changes one chain.\<close>

lemma set_link_raw:
  assumes h: "h < length (heads m)"
    and shape: "chains_shape (length (heads m)) (length (buckets m)) (cs(h := as @ ys))"
    and others: "\<And>g. g < length (heads m) \<Longrightarrow> g \<noteq> h \<Longrightarrow> pathto (links (buckets m)) (heads m ! g) (cs g) 0"
    and prefix: "pathto (links (buckets m)) (heads m ! h) as k"
    and ys: "pathto (links (buckets m)) t ys 0"
  shows "\<exists>m'. set_link m h (last (0 # as)) t = Some m' \<and> raw_chains m' (cs(h := as @ ys)) \<and>
    entries m' = entries m \<and> length (heads m') = length (heads m)"
proof (cases as rule: rev_cases)
  case Nil
  then show ?thesis
    using h shape others ys by (auto simp: set_link_def entries_def raw_chains_iff nth_list_update)
next
  case (snoc as' p)
  have d: "distinct (as @ ys)" "set (as @ ys) \<subseteq> {1..length (buckets m)}"
    using shape h unfolding chains_shape_def by (metis fun_upd_same)+
  then have p: "0 < p" "p \<le> length (buckets m)" "p \<notin> set as'" "p \<notin> set ys" using snoc by auto
  let ?b = "(buckets m ! (p - 1))\<lparr>nxt := t\<rparr>"
  let ?m = "m\<lparr>buckets := (buckets m)[p - 1 := ?b]\<rparr>"
  have L: "links (buckets ?m) = (links (buckets m))(p := t)" using p links_update [of p "buckets m" ?b] by simp
  have "pathto (links (buckets ?m)) (heads m ! h) (as @ ys) 0"
    using prefix ys snoc p unfolding L by (auto simp: pathto_append)
  moreover have "pathto (links (buckets ?m)) (heads m ! g) (cs g) 0" if g: "g < length (heads m)" "g \<noteq> h" for g
  proof -
    have "p \<in> set ((cs(h := as @ ys)) h)" using snoc by simp
    then have "p \<notin> set ((cs(h := as @ ys)) g)" using shape h g unfolding chains_shape_def by metis
    then show ?thesis unfolding L using others [OF g] g by simp
  qed
  ultimately have "raw_chains ?m (cs(h := as @ ys))" using shape by (simp add: raw_chains_iff)
  moreover have "set_link m h (last (0 # as)) t = Some ?m" using snoc p by (simp add: set_link_def)
  moreover have "entries ?m = entries m"
    using p by (auto simp: entries_def map_update intro: list_update_same_conv [THEN iffD2])
  ultimately show ?thesis by auto
qed

lemma chains_shape_upd:
  assumes "chains_shape n l cs" "h < n" "distinct xs" "set xs \<subseteq> {1..l'}" "l' \<le> l"
    "\<And>g. g < n \<Longrightarrow> g \<noteq> h \<Longrightarrow> set (cs g) \<subseteq> {1..l'} \<and> set (cs g) \<inter> set xs = {}"
  shows "chains_shape n l' (cs(h := xs))"
  unfolding chains_shape_def
proof (intro conjI allI impI)
  fix g
  assume "g < n"
  then show "distinct ((cs(h := xs)) g)" "set ((cs(h := xs)) g) \<subseteq> {1..l'}"
    using assms(1,3,4) assms(6) [of g] by (auto simp: chains_shape_def)
next
  fix g f x
  assume a: "g < n" "f < n" "g \<noteq> f" "x \<in> set ((cs(h := xs)) g)"
  consider "g = h" | "f = h" | "g \<noteq> h" "f \<noteq> h" by blast
  then show "x \<notin> set ((cs(h := xs)) f)"
  proof cases
    case 1
    then show ?thesis using a assms(6) [of f] by auto
  next
    case 2
    then show ?thesis using a assms(6) [of g] by auto
  next
    case 3
    then show ?thesis using a assms(1) unfolding chains_shape_def by simp
  qed
qed

lemma unlink_ok:
  assumes raw: "raw_chains m cs" and h: "h < length (heads m)" and cs: "cs h = as @ c # rest"
  shows "\<exists>m'. set_link m h (last (0 # as)) (nxt (buckets m ! (c - 1))) = Some m' \<and>
    raw_chains m' (cs(h := as @ rest)) \<and> entries m' = entries m \<and> length (heads m') = length (heads m)"
proof -
  note D = raw_chainsD [OF raw h]
  have "links (buckets m) c = nxt (buckets m ! (c - 1))" using D(3) cs by (auto simp: links_def)
  then have "pathto (links (buckets m)) (nxt (buckets m ! (c - 1))) rest 0"
    "pathto (links (buckets m)) (heads m ! h) as c"
    using D(1) cs by (auto simp: pathto_append)
  moreover have "chains_shape (length (heads m)) (length (buckets m)) (cs(h := as @ rest))"
    using raw D cs raw_chainsD(3) [OF raw] h unfolding raw_chains_iff by (intro chains_shape_upd) auto
  ultimately show ?thesis using raw_chainsD(1) [OF raw] by (intro set_link_raw [OF h])
qed

text \<open>Moving the last entry into the free position \<open>c\<close>.\<close>

lemma move_last_raw:
  assumes raw: "raw_chains m cs" and c: "1 \<le> c" "c < length (buckets m)"
    and free: "\<forall>g < length (heads m). c \<notin> set (cs g)"
    and h: "h < length (heads m)" and cs: "cs h = as @ length (buckets m) # rest"
  defines "m1 \<equiv> m\<lparr>buckets := butlast ((buckets m)[c - 1 := last (buckets m)])\<rparr>"
  shows "\<exists>m'. set_link m1 h (last (0 # as)) c = Some m' \<and> raw_chains m' (cs(h := as @ c # rest)) \<and>
    entries m' = swap_remove (entries m) (c - 1) \<and> length (heads m') = length (heads m)"
proof -
  let ?L = "length (buckets m)"
  let ?R = "{1..?L} - {c, ?L}"
  note D = raw_chainsD [OF raw h]
  have ne: "buckets m \<noteq> []" using c by auto
  have l: "links (buckets m1) j = (if j = c then links (buckets m) ?L else links (buckets m) j)"
    if "j < ?L" for j
    using that c ne links_update [of c "buckets m" "last (buckets m)"]
    by (simp add: m1_def links_butlast) (auto simp: links_def last_conv_nth)
  have keep: "pathto (links (buckets m1)) i xs t = pathto (links (buckets m)) i xs t"
    if "set xs \<subseteq> ?R" for i xs t
  proof (intro pathto_cong)
    fix j
    assume "j \<in> set xs"
    with that have "j \<in> ?R" by blast
    then show "links (buckets m1) j = links (buckets m) j" by (subst l) auto
  qed
  have other: "set (cs g) \<subseteq> ?R" if "g < length (heads m)" "g \<noteq> h" for g
    using raw_chainsD(3) [OF raw that(1)] D(4) [OF that] free that cs by auto
  have sub: "set rest \<subseteq> ?R" "set as \<subseteq> ?R" "distinct (as @ c # rest)" using D(2,3) cs free h by auto
  have len: "length (buckets m1) = ?L - 1" "heads m1 = heads m" by (simp_all add: m1_def)
  have p: "pathto (links (buckets m)) (heads m ! h) as ?L"
      "pathto (links (buckets m)) (links (buckets m) ?L) rest 0"
    using D(1) cs by (auto simp: pathto_append)
  have range: "?R \<subseteq> {1..?L - 1}" by auto
  have "set (cs g) \<subseteq> {1..?L - 1} \<and> set (cs g) \<inter> set (as @ c # rest) = {}"
    if g: "g < length (heads m)" "g \<noteq> h" for g
    using other [OF g] range D(4) [OF g] cs free g(1) by (intro conjI) (blast, auto)
  moreover have "set (as @ c # rest) \<subseteq> {1..?L - 1}" using sub(1,2) range c by auto
  ultimately have "chains_shape (length (heads m)) (?L - 1) (cs(h := as @ c # rest))"
    using raw h sub(3) unfolding raw_chains_iff by (intro chains_shape_upd [of _ ?L]) auto
  moreover have "pathto (links (buckets m1)) (heads m ! h) as ?L" using p(1) keep [OF sub(2)] by simp
  moreover have "pathto (links (buckets m1)) c (c # rest) 0" using p(2) keep [OF sub(1)] l [OF c(2)] by simp
  moreover have "pathto (links (buckets m1)) (heads m ! g) (cs g) 0" if "g < length (heads m)" "g \<noteq> h" for g
    using keep [OF other [OF that]] raw_chainsD(1) [OF raw that(1)] by simp
  ultimately have "\<exists>m'. set_link m1 h (last (0 # as)) c = Some m' \<and> raw_chains m' (cs(h := as @ c # rest)) \<and>
    entries m' = entries m1 \<and> length (heads m') = length (heads m1)"
    using h unfolding len(2) [symmetric] len(1) [symmetric] by (intro set_link_raw)
  moreover have "entries m1 = swap_remove (entries m) (c - 1)"
    using ne by (simp add: m1_def entries_def swap_remove_def map_butlast map_update last_map)
  ultimately show ?thesis using len by simp
qed

lemma map_swap_remove: "i < length xs \<Longrightarrow> map f (swap_remove xs i) = swap_remove (map f xs) i"
  by (cases "xs = []") (simp_all add: swap_remove_def map_butlast map_update last_map)

lemma map_of_swap_remove:
  assumes "distinct (map fst ps)" "i < length ps"
  shows "map_of (swap_remove ps i) = (map_of ps)(fst (ps ! i) := None)"
proof
  fix x
  have d: "distinct ps" using assms(1) by (simp add: distinct_map)
  have d': "distinct (map fst (swap_remove ps i))"
    using assms by (simp add: map_swap_remove distinct_swap_remove)
  have "map_of (swap_remove ps i) x = Some v \<longleftrightarrow> ((map_of ps)(fst (ps ! i) := None)) x = Some v" for v
  proof -
    have "(x, v) \<in> set ps - {ps ! i} \<longleftrightarrow> x \<noteq> fst (ps ! i) \<and> (x, v) \<in> set ps"
      using map_of_eq_Some_iff [OF assms(1), of x] map_of_eq_Some_iff [OF assms(1), of "fst (ps ! i)"]
        nth_mem [OF assms(2)] by (cases "ps ! i") (auto, metis option.inject)
    then show ?thesis
      using d' assms by (simp add: set_swap_remove [OF d assms(2)])
  qed
  then show "map_of (swap_remove ps i) x = ((map_of ps)(fst (ps ! i) := None)) x"
    by (metis not_Some_eq)
qed

lemma members_swap:
  assumes "1 \<le> c" "c < length ks"
  shows "members hash n (swap_remove ks (c - 1)) g =
    members hash n ks g - {c, length ks} \<union> (if bkt hash n (last ks) = g then {c} else {})"
proof -
  have "swap_remove ks (c - 1) ! (j - 1) = (if j = c then last ks else ks ! (j - 1))"
    if "1 \<le> j" "j < length ks" for j
    using assms that by (subst nth_swap_remove) auto
  then show ?thesis using assms unfolding members_def by auto
qed

lemma members_butlast: "members hash n (butlast ks) g = members hash n ks g - {length ks}"
  by (auto simp: members_def nth_butlast)

lemma GetElement_raw:
  assumes m: "length (heads m) = 2 ^ w" "w \<le> 31" "distinct (keys m)" "raw_chains m cs"
  assumes cs: "cs (bkt hash (length (heads m)) k) = as @ c # rest" and k: "key (buckets m ! (c - 1)) = k"
  shows "GetElement hash m k (bkt hash (length (heads m)) k) = Some (c, last (0 # as))"
proof -
  let ?h = "bkt hash (length (heads m)) k"
  note B = Bucket_eq [OF m(1,2), of hash k]
  note D = raw_chainsD [OF m(4) B(2)]
  have r: "\<forall>j \<in> set (cs ?h). 1 \<le> j \<and> j \<le> length (buckets m)" using D(3) by auto
  have "key (buckets m ! (j - 1)) \<noteq> k" if "j \<in> set as" for j
    using that r D(2) key_position [OF m(3), of j c] k unfolding cs by auto
  then show ?thesis
    using B find_in_chain_eq(2) [OF D(1) r cs _ k] by (simp add: GetElement_def)
qed

lemma drop_last_raw:
  assumes "raw_chains m cs" "\<forall>g < length (heads m). length (buckets m) \<notin> set (cs g)"
  shows "raw_chains (m\<lparr>buckets := butlast (buckets m)\<rparr>) cs"
proof (intro raw_chainsI)
  fix h
  assume h: "h < length (heads (m\<lparr>buckets := butlast (buckets m)\<rparr>))"
  then have r: "set (cs h) \<subseteq> {1..length (buckets m) - 1}"
    using raw_chainsD(3) [OF assms(1), of h] assms(2) by (force simp: subset_iff le_less)
  then have "pathto (links (butlast (buckets m))) (heads m ! h) (cs h) 0 =
      pathto (links (buckets m)) (heads m ! h) (cs h) 0"
    by (intro pathto_cong links_butlast) force
  then show "pathto (links (buckets (m\<lparr>buckets := butlast (buckets m)\<rparr>)))
      (heads (m\<lparr>buckets := butlast (buckets m)\<rparr>) ! h) (cs h) 0 \<and> distinct (cs h) \<and>
      set (cs h) \<subseteq> {1..length (buckets (m\<lparr>buckets := butlast (buckets m)\<rparr>))}"
    using r h raw_chainsD(1,2) [OF assms(1), of h] by simp
next
  fix g h x
  assume "g < length (heads (m\<lparr>buckets := butlast (buckets m)\<rparr>))"
    "h < length (heads (m\<lparr>buckets := butlast (buckets m)\<rparr>))" "g \<noteq> h" "x \<in> set (cs g)"
  then show "x \<notin> set (cs h)" using raw_chainsD(4) [OF assms(1), of h g] by auto
qed

lemma distinct_set_single: "distinct xs \<Longrightarrow> set xs = {x} \<Longrightarrow> xs = [x]"
  by (cases xs rule: remdups_adj.cases) auto

lemma Remove_last_one:
  assumes "fhm_inv hash m" "length (buckets m) = 1" "key (buckets m ! 0) = k"
  shows "\<exists>m'. Remove hash m k = Some m' \<and> fhm_inv hash m' \<and> entries m' = []"
proof -
  obtain w cs where w: "4 \<le> w" "w \<le> 31" "length (heads m) = 2 ^ w" "fhm_chains hash m cs"
    and B: "Bucket hash m k = Some (bkt hash (length (heads m)) k)"
      "bkt hash (length (heads m)) k < length (heads m)"
    using assms(1) by (elim fhm_invE) blast
  let ?h = "bkt hash (length (heads m)) k"
  let ?m = "m\<lparr>heads := (heads m)[?h := 0], buckets := []\<rparr>"
  have mem: "members hash (length (heads m)) (keys m) g = (if g = ?h then {1} else {})" for g
    using assms(2,3) by (auto simp: members_def keys_def nth_append)
  have c: "pathto (links (buckets m)) (heads m ! g) (cs g) 0" "distinct (cs g)"
      "set (cs g) = (if g = ?h then {1} else {})" if "g < length (heads m)" for g
    using w(4) that mem unfolding fhm_chains_def by blast+
  then have "cs ?h = [1]" using B(2) by (intro distinct_set_single) simp_all
  then have "heads m ! ?h = 1" using c(1) [OF B(2)] by simp
  moreover have "heads m ! g = 0" if "g < length (heads m)" "g \<noteq> ?h" for g
    using c(1,3) [OF that(1)] that(2) by simp
  ultimately have "heads ?m ! g = 0" if "g < length (heads m)" for g
    using that by (cases "g = ?h") auto
  then have "fhm_chains hash ?m (\<lambda>_. [])" by (simp add: fhm_chains_def members_def keys_def)
  then have "fhm_inv hash ?m" using w(1-3) by (auto simp: fhm_inv_def keys_def)
  moreover have "Remove hash m k = Some ?m"
    using assms(2,3) B \<open>heads m ! ?h = 1\<close> by (simp add: Remove_def)
  ultimately show ?thesis by (auto simp: entries_def)
qed

text \<open>After unlinking, the chains cover all entries but the one at position \<open>c\<close>.\<close>

definition chains_but ::
  "('k \<Rightarrow> u32) \<Rightarrow> ('k, 'v) FlatHashMap \<Rightarrow> (nat \<Rightarrow> nat list) \<Rightarrow> nat \<Rightarrow> bool" where
  "chains_but hash m cs c \<longleftrightarrow> raw_chains m cs \<and>
     (\<forall>h < length (heads m). set (cs h) = members hash (length (heads m)) (keys m) h - {c})"

lemma keys_entries: "keys m = map fst (entries m)"
  by (simp add: keys_def entries_def)

lemma fill_hole_last:
  assumes "chains_but hash m cs (length (buckets m))" "buckets m \<noteq> []"
  shows "\<exists>m'. fill_hole hash m (length (buckets m)) prev = Some m' \<and> fhm_chains hash m' cs \<and>
    length (heads m') = length (heads m) \<and> entries m' = swap_remove (entries m) (length (buckets m) - 1)"
proof -
  let ?m = "m\<lparr>buckets := butlast (buckets m)\<rparr>"
  have "keys ?m = butlast (keys m)" by (simp add: keys_def map_butlast)
  then have "fhm_chains hash ?m cs"
    using assms(1) drop_last_raw [of m cs] by (auto simp: chains_but_def fhm_chains_iff members_butlast)
  moreover have "swap_remove xs (length xs - 1) = butlast xs" for xs :: "('a \<times> 'b) list"
    by (cases xs rule: rev_cases) (simp_all add: swap_remove_def)
  from this [of "entries m"] have "entries ?m = swap_remove (entries m) (length (buckets m) - 1)"
    by (simp add: entries_facts(3)) (simp add: entries_def map_butlast)
  ultimately show ?thesis by (simp add: fill_hole_def)
qed

lemma fill_hole_move:
  assumes m: "length (heads m) = 2 ^ w" "w \<le> 31" "distinct (keys m)" "chains_but hash m cs c"
    and c: "1 \<le> c" "c < length (buckets m)"
  shows "\<exists>m' cs'. fill_hole hash m c prev = Some m' \<and> fhm_chains hash m' cs' \<and>
    length (heads m') = length (heads m) \<and> entries m' = swap_remove (entries m) (c - 1)"
proof -
  let ?n = "length (heads m)" and ?L = "length (buckets m)"
  let ?k = "key (last (buckets m))"
  let ?h = "bkt hash ?n ?k"
  note B = Bucket_eq [OF m(1,2), of hash ?k]
  have raw: "raw_chains m cs" and cov: "\<And>g. g < ?n \<Longrightarrow> set (cs g) = members hash ?n (keys m) g - {c}"
    using m(4) by (auto simp: chains_but_def)
  have ne: "buckets m \<noteq> []" using c by auto
  have last: "last (buckets m) = buckets m ! (?L - 1)" "last (keys m) = ?k"
    using last_conv_nth [OF ne] last_map [OF ne, of key] by (simp_all add: keys_def)
  have "?L \<in> set (cs ?h)" using cov [OF B(2)] c last(1) by (auto simp: members_iff)
  then obtain as rest where cs: "cs ?h = as @ ?L # rest" by (meson split_list)
  have G: "GetElement hash m ?k ?h = Some (?L, last (0 # as))"
    using GetElement_raw [OF m(1-3) raw cs] last(1) by simp
  have free: "\<forall>g < ?n. c \<notin> set (cs g)" using cov by simp
  have "c \<notin> set as" using free B(2) cs by auto
  then have "last (0 # as) \<noteq> c" using c(1) last_in_set [of as] by (auto split: if_splits)
  moreover obtain m' where m': "set_link (m\<lparr>buckets := butlast ((buckets m)[c - 1 := last (buckets m)])\<rparr>)
        ?h (last (0 # as)) c = Some m'" "raw_chains m' (cs(?h := as @ c # rest))"
      "entries m' = swap_remove (entries m) (c - 1)" "length (heads m') = ?n"
    using move_last_raw [OF raw c free B(2) cs] by blast
  ultimately have "fill_hole hash m c prev = Some m'"
    using B(1) G c by (simp add: fill_hole_def Let_def)
  moreover have k': "keys m' = swap_remove (keys m) (c - 1)"
    using m'(3) c by (simp add: keys_entries map_swap_remove entries_facts)
  have mem': "members hash ?n (keys m') g = members hash ?n (keys m) g - {c, ?L} \<union> (if ?h = g then {c} else {})" for g
    using members_swap [of c "keys m" hash ?n g] c last(2) unfolding k' by simp
  have "?L \<notin> set as" "?L \<notin> set rest" using raw_chainsD(2) [OF raw B(2)] cs by auto
  then have ar: "set as \<union> set rest = members hash ?n (keys m) ?h - {c, ?L}" using cov [OF B(2)] cs by auto
  have "set ((cs(?h := as @ c # rest)) g) = members hash ?n (keys m') g" if g: "g < ?n" for g
  proof (cases "g = ?h")
    case True
    then show ?thesis using ar by (simp add: mem')
  next
    case False
    then have "?L \<notin> set (cs g)" using raw_chainsD(4) [OF raw B(2) g] cs by auto
    then show ?thesis using cov [OF g] False by (simp add: mem') blast
  qed
  then have "fhm_chains hash m' (cs(?h := as @ c # rest))"
    using m'(2,4) by (simp add: fhm_chains_iff)
  ultimately show ?thesis using m'(3,4) by blast
qed

lemma Remove_entry:
  assumes m: "length (heads m) = 2 ^ w" "w \<le> 31" "distinct (keys m)" "fhm_chains hash m cs"
    and c: "1 \<le> c" "c \<le> length (buckets m)" "key (buckets m ! (c - 1)) = k"
    and two: "2 \<le> length (buckets m)"
  shows "\<exists>m' cs'. Remove hash m k = Some m' \<and> fhm_chains hash m' cs' \<and> length (heads m') = length (heads m) \<and>
    entries m' = swap_remove (entries m) (c - 1)"
proof -
  let ?n = "length (heads m)" and ?L = "length (buckets m)"
  let ?hr = "bkt hash ?n k"
  note B = Bucket_eq [OF m(1,2), of hash k] and raw = raw_chains_of [OF m(4)]
  have mem: "set (cs g) = members hash ?n (keys m) g" if "g < ?n" for g
    using m(4) that by (simp add: fhm_chains_def)
  obtain as rest where cs: "cs ?hr = as @ c # rest"
      and G: "GetElement hash m k ?hr = Some (c, last (0 # as))"
    using GetElement_eq(2) [OF m c] by blast
  obtain a where a: "set_link m ?hr (last (0 # as)) (nxt (buckets m ! (c - 1))) = Some a"
      "raw_chains a (cs(?hr := as @ rest))" "entries a = entries m" "length (heads a) = ?n"
    using unlink_ok [OF raw B(2) cs] by blast
  have la: "length (buckets a) = ?L" "keys a = keys m"
    using a(3) entries_facts(3) [of a] entries_facts(3) [of m] by (simp_all add: keys_entries)
  have "c \<notin> set as" "c \<notin> set rest" using raw_chainsD(2) [OF raw B(2)] cs by auto
  then have "set ((cs(?hr := as @ rest)) g) = members hash ?n (keys m) g - {c}" if "g < ?n" for g
    using mem [OF that] mem [OF B(2)] cs c(3) by (cases "g = ?hr") (auto simp: members_iff)
  then have but: "chains_but hash a (cs(?hr := as @ rest)) c" using a(2,4) la by (simp add: chains_but_def)
  have ne: "buckets m \<noteq> []" using two by auto
  have "Remove hash m k = fill_hole hash a c (last (0 # as))"
    using ne two c(2) vget_ok [of "c - 1" "buckets m"] c(1) B(1) G a(1) unfolding Remove_def
    by (simp del: last.simps)
  moreover have "\<exists>m' cs'. fill_hole hash a c (last (0 # as)) = Some m' \<and> fhm_chains hash m' cs' \<and>
    length (heads m') = length (heads a) \<and> entries m' = swap_remove (entries a) (c - 1)"
  proof (cases "c = ?L")
    case True
    then have "chains_but hash a (cs(?hr := as @ rest)) (length (buckets a))" "buckets a \<noteq> []"
      using but la two by auto
    moreover have e: "c = length (buckets a)" using True la by simp
    ultimately show ?thesis unfolding e by (metis fill_hole_last)
  next
    case False
    then have "c < length (buckets a)" "length (heads a) = 2 ^ w" "distinct (keys a)"
      using a(4) la m(1,3) c(2) by auto
    from fill_hole_move [OF this(2) m(2) this(3) but c(1) this(1)] show ?thesis by blast
  qed
  ultimately show ?thesis using a(3,4) by simp
qed

lemma Remove_ok:
  assumes "fhm_inv hash m"
  shows "\<exists>m'. Remove hash m k = Some m' \<and> fhm_inv hash m' \<and> fhm_map m' = (fhm_map m)(k := None) \<and>
    length (buckets m') = length (buckets m) - (if k \<in> set (keys m) then 1 else 0)"
proof (cases "k \<in> set (keys m)")
  case True
  obtain w cs where w: "4 \<le> w" "w \<le> 31" "length (heads m) = 2 ^ w" "distinct (keys m)" "fhm_chains hash m cs"
    using assms by (elim fhm_invE) blast
  obtain c where c: "1 \<le> c" "c \<le> length (buckets m)" "key (buckets m ! (c - 1)) = k"
    using True by (rule in_keysE)
  have "\<exists>m'. Remove hash m k = Some m' \<and> fhm_inv hash m' \<and> entries m' = swap_remove (entries m) (c - 1)"
  proof (cases "length (buckets m) = 1")
    case True
    then have "swap_remove (entries m) (c - 1) = []" using c by (auto simp: entries_def swap_remove_def length_Suc_conv)
    then show ?thesis using Remove_last_one [OF assms True] c True by auto
  next
    case False
    then obtain m' cs' where m': "Remove hash m k = Some m'" "fhm_chains hash m' cs'"
        "length (heads m') = length (heads m)" "entries m' = swap_remove (entries m) (c - 1)"
      using Remove_entry [OF w(3,2,4,5) c] c by force
    have "distinct (keys m')"
      using m'(4) w(4) c by (simp add: keys_entries map_swap_remove distinct_swap_remove entries_facts)
    then show ?thesis using m' w(1-3) by (auto simp: fhm_inv_def)
  qed
  then obtain m' where m': "Remove hash m k = Some m'" "fhm_inv hash m'"
      "entries m' = swap_remove (entries m) (c - 1)" by blast
  have "fst (entries m ! (c - 1)) = k" using c by (simp add: entries_def)
  then have "fhm_map m' = (fhm_map m)(k := None)"
    using m'(3) map_of_swap_remove [of "entries m" "c - 1"] w(4) c by (simp add: entries_facts)
  moreover have "length (buckets m') = length (buckets m) - 1"
    using arg_cong [OF m'(3), of length] by (simp add: entries_facts)
  ultimately show ?thesis using m' True by simp
next
  case False
  then have "fhm_map m = (fhm_map m)(k := None)" by (simp add: fun_eq_iff fhm_map_None)
  moreover have "Remove hash m k = Some m"
  proof -
    obtain w cs where "w \<le> 31" "length (heads m) = 2 ^ w" "distinct (keys m)" "fhm_chains hash m cs"
        "Bucket hash m k = Some (bkt hash (length (heads m)) k)"
      using assms by (elim fhm_invE) blast
    with GetElement_eq(1) [of m w hash cs k] False show ?thesis
      by (cases "buckets m") (auto simp: Remove_def keys_def)
  qed
  ultimately show ?thesis using assms False by simp
qed

lemma Clear_ok: "fhm_inv hash m \<Longrightarrow> fhm_inv hash (Clear m) \<and> fhm_map (Clear m) = Map.empty"
proof (cases "buckets m = []")
  case False
  assume "fhm_inv hash m"
  with False show ?thesis
    by (auto simp: Clear_def fhm_inv_def fhm_map_def fhm_chains_def keys_def members_def
        intro!: exI [of _ "\<lambda>_. []"])
qed (simp add: Clear_def fhm_map_def)

lemma FHM_new_ok: "4 \<le> w \<Longrightarrow> w \<le> 31 \<Longrightarrow>
    \<exists>m. FHM_new (2 ^ w) = Some m \<and> fhm_inv hash m \<and> fhm_map m = Map.empty"
proof -
  assume w: "4 \<le> w" "w \<le> 31"
  have "(2 :: nat) ^ 4 \<le> 2 ^ w" using w(1) by (intro power_increasing) auto
  then show ?thesis
    using is_pow2_u64_pow [OF w(2)] fhm_inv_empty [OF w, of hash]
    by (simp add: FHM_new_def Let_def fhm_map_def)
qed

lemma card_dom_fhm_map: "fhm_inv hash m \<Longrightarrow> card (dom (fhm_map m)) = Size m"
  by (auto simp: dom_fhm_map Size_def fhm_inv_def distinct_card)

section \<open>The older search functions\<close>

lemma FindPrevId_from_eq:
  assumes "pathto (links bs) i xs 0" "\<forall>j \<in> set xs. 1 \<le> j \<and> j \<le> length bs"
    "find_in_chain bs k i p = Some (c, q)"
  shows "FindPrevId_from bs k i (int p) = Some (if c = 0 then - 1 else int q)"
  using assms
proof (induction xs arbitrary: i p)
  case Nil
  then show ?case by (simp add: FindPrevId_from.simps find_in_chain.simps)
next
  case (Cons x xs)
  then have x: "i = x" "1 \<le> x" "x - 1 < length bs" by auto
  show ?case
  proof (cases "key (bs ! (x - 1)) = k")
    case True
    then show ?thesis
      using Cons.prems(3) x by (subst FindPrevId_from.simps) (subst (asm) find_in_chain.simps, auto)
  next
    case False
    then have "find_in_chain bs k (links bs x) x = Some (c, q)"
      using Cons.prems(3) x by (subst (asm) find_in_chain.simps) (auto simp: links_def)
    with Cons.IH [of "links bs x" x] Cons.prems(1,2) False x show ?thesis
      by (subst FindPrevId_from.simps) (auto simp: links_def)
  qed
qed

lemma FindPrevId_GetNext:
  assumes "fhm_inv hash m"
  shows "\<exists>p. FindPrevId m (bkt hash (length (heads m)) k) k = Some p \<and>
    (p = - 1 \<longleftrightarrow> fhm_map m k = None) \<and>
    map_option fst (GetElement hash m k (bkt hash (length (heads m)) k)) =
      GetNext m p (bkt hash (length (heads m)) k)"
proof -
  let ?h = "bkt hash (length (heads m)) k"
  obtain w cs where w: "w \<le> 31" "length (heads m) = 2 ^ w" "distinct (keys m)" "fhm_chains hash m cs"
      "Bucket hash m k = Some ?h" and h: "?h < length (heads m)"
    using assms by (elim fhm_invE) blast
  note G = GetElement_eq [OF w(2,1,3,4)] and D = raw_chainsD [OF raw_chains_of [OF w(4)] h]
  have r: "\<forall>j \<in> set (cs ?h). 1 \<le> j \<and> j \<le> length (buckets m)" using D(3) by auto
  have F: "FindPrevId m ?h k = Some (if c = 0 then - 1 else int q)" if "GetElement hash m k ?h = Some (c, q)" for c q
    using that w(5) h FindPrevId_from_eq [OF D(1) r, of k 0 c q] by (simp add: FindPrevId_def GetElement_def)
  show ?thesis
  proof (cases "k \<in> set (keys m)")
    case True
    then obtain c where c: "1 \<le> c" "c \<le> length (buckets m)" "key (buckets m ! (c - 1)) = k"
      by (rule in_keysE)
    then obtain as rest where as: "cs ?h = as @ c # rest" "GetElement hash m k ?h = Some (c, last (0 # as))"
      using G(2) by blast
    have "GetNext m (int (last (0 # as))) ?h = Some c"
    proof (cases as rule: rev_cases)
      case Nil
      then show ?thesis using D(1) h as(1) by (simp add: GetNext_def)
    next
      case (snoc as' p)
      then have "1 \<le> p" "p - 1 < length (buckets m)" "links (buckets m) p = c"
        using r D(1) as(1) by (auto simp: pathto_append)
      then show ?thesis using snoc by (simp add: GetNext_def links_def nat_diff_distrib)
    qed
    then show ?thesis using F [OF as(2)] as(2) c(1) True by (simp add: fhm_map_None)
  next
    case False
    then show ?thesis using F [OF G(1)] G(1) by (simp add: fhm_map_None GetNext_def)
  qed
qed

section \<open>The interface of a map\<close>

text \<open>What the users of a map rely on. \<open>absm\<close> is the map a state stands for; an insertion is
  promised to succeed as long as there are fewer than \<open>limit\<close> entries.\<close>

locale partial_map =
  fixes absm :: "'m \<Rightarrow> 'k \<Rightarrow> 'v option"
    and inv :: "'m \<Rightarrow> bool"
    and look :: "'m \<Rightarrow> 'k \<Rightarrow> 'v option option"
    and ins :: "'m \<Rightarrow> 'k \<Rightarrow> 'v \<Rightarrow> 'm option"
    and del :: "'m \<Rightarrow> 'k \<Rightarrow> 'm option"
    and limit :: nat
  assumes look_law: "inv m \<Longrightarrow> look m k = Some (absm m k)"
    and ins_law: "inv m \<Longrightarrow> card (dom (absm m)) < limit \<Longrightarrow>
      \<exists>m'. ins m k v = Some m' \<and> inv m' \<and> absm m' = (absm m)(k \<mapsto> v)"
    and del_law: "inv m \<Longrightarrow> \<exists>m'. del m k = Some m' \<and> inv m' \<and> absm m' = (absm m)(k := None)"
    and finite_law: "inv m \<Longrightarrow> finite (dom (absm m))"
begin

lemma insE:
  assumes "inv m" "card (dom (absm m)) < limit"
  obtains m' where "ins m k v = Some m'" "inv m'" "absm m' = (absm m)(k \<mapsto> v)"
    "card (dom (absm m')) \<le> Suc (card (dom (absm m)))"
proof -
  obtain m' where m': "ins m k v = Some m'" "inv m'" "absm m' = (absm m)(k \<mapsto> v)"
    using ins_law [OF assms] by blast
  then have "card (dom (absm m')) \<le> Suc (card (dom (absm m)))"
    by (simp add: card_insert_if finite_law [OF assms(1)])
  with m' show ?thesis by (rule that)
qed

lemma delE:
  assumes "inv m"
  obtains m' where "del m k = Some m'" "inv m'" "absm m' = (absm m)(k := None)"
    "card (dom (absm m')) = card (dom (absm m) - {k})"
  using del_law [OF assms, of k] by (auto simp: dom_fun_upd)

text \<open>Read after write.\<close>

lemma look_after_ins:
  assumes "inv m" "card (dom (absm m)) < limit"
  shows "\<exists>m'. ins m k v = Some m' \<and> inv m' \<and>
    look m' j = (if j = k then Some (Some v) else look m j)"
  using ins_law [OF assms, of k v] look_law [OF assms(1), of j] by (auto simp: look_law)

lemma look_after_del:
  assumes "inv m"
  shows "\<exists>m'. del m k = Some m' \<and> inv m' \<and> look m' j = (if j = k then Some None else look m j)"
  using del_law [OF assms, of k] look_law [OF assms, of j] by (auto simp: look_law)

text \<open>Some key below any bound that exceeds the number of entries is free.\<close>

lemma free_key:
  assumes "inv m" "finite K" "card (dom (absm m)) < card K"
  obtains k where "k \<in> K" "absm m k = None"
proof -
  have "\<not> K \<subseteq> dom (absm m)" using assms card_mono [OF finite_law [OF assms(1)], of K] by auto
  then show ?thesis using that by blast
qed

end

interpretation fhm: partial_map fhm_map "fhm_inv hash" "Get hash" "InsertOrSet hash" "Remove hash" "2 ^ 29"
  for hash
proof (unfold_locales, goal_cases)
  case (1 m k)
  then show ?case by (rule Get_ok)
next
  case (2 m k v)
  then show ?case using InsertOrSet_ok [of hash m k v] card_dom_fhm_map [of hash m] by (simp add: Size_def)
next
  case (3 m k)
  then show ?case using Remove_ok [of hash m k] by blast
next
  case (4 m)
  then show ?case by (simp add: dom_fhm_map)
qed

section \<open>Properties\<close>

text \<open>C3. A \<open>FlatHashMap\<close> is a finite map, for every hash function, however badly it
  distributes. On a well-formed map with fewer than \<open>2 ^ 29\<close> entries, \<open>Get\<close> returns what the map
  has for the key; \<open>InsertOrSet\<close> (rehashing when the chains get long) and \<open>Remove\<close> (moving the last
  entry into the hole) always return, without an access outside the vectors or a failed
  assertion, keep the map well-formed, and change exactly the one key.\<close>

theorem flat_hash_map_correct:
  assumes "fhm_inv hash m" "Size m < 2 ^ 29"
  shows "Get hash m k = Some (fhm_map m k) \<and>
    (\<exists>m'. InsertOrSet hash m k v = Some m' \<and> fhm_inv hash m' \<and> fhm_map m' = (fhm_map m)(k \<mapsto> v) \<and>
       Get hash m' j = (if j = k then Some (Some v) else Get hash m j)) \<and>
    (\<exists>m'. Remove hash m k = Some m' \<and> fhm_inv hash m' \<and> fhm_map m' = (fhm_map m)(k := None) \<and>
       Get hash m' j = (if j = k then Some None else Get hash m j))"
proof -
  have c: "card (dom (fhm_map m)) < 2 ^ 29" using assms card_dom_fhm_map by fastforce
  obtain m1 where "InsertOrSet hash m k v = Some m1" "fhm_inv hash m1" "fhm_map m1 = (fhm_map m)(k \<mapsto> v)"
    using fhm.insE [OF assms(1) c] by blast
  moreover obtain m2 where "Remove hash m k = Some m2" "fhm_inv hash m2" "fhm_map m2 = (fhm_map m)(k := None)"
    using fhm.delE [OF assms(1)] by blast
  ultimately show ?thesis using assms(1) by (simp add: Get_ok)
qed

definition empty16 :: "(nat, bool) FlatHashMap" where
  "empty16 = \<lparr>heads = replicate 16 0, buckets = []\<rparr>"

lemma empty16_ok: "fhm_inv hash empty16" "Size empty16 = 0" "Capacity empty16 = 16"
  using fhm_inv_empty [of 4 hash] by (simp_all add: empty16_def Size_def Capacity_def)

theorem flat_hash_map_correct_witness:
  "Get (\<lambda>_. 7) empty16 3 = Some (fhm_map empty16 3) \<and>
    (\<exists>m'. InsertOrSet (\<lambda>_. 7) empty16 3 True = Some m' \<and> fhm_inv (\<lambda>_. 7) m' \<and>
       fhm_map m' = (fhm_map empty16)(3 \<mapsto> True) \<and>
       Get (\<lambda>_. 7) m' 4 = (if 4 = (3 :: nat) then Some (Some True) else Get (\<lambda>_. 7) empty16 4)) \<and>
    (\<exists>m'. Remove (\<lambda>_. 7) empty16 3 = Some m' \<and> fhm_inv (\<lambda>_. 7) m' \<and>
       fhm_map m' = (fhm_map empty16)(3 := None) \<and>
       Get (\<lambda>_. 7) m' 4 = (if 4 = (3 :: nat) then Some None else Get (\<lambda>_. 7) empty16 4))"
  by (rule flat_hash_map_correct) (simp_all add: empty16_ok)

text \<open>C29. \<open>Rehash\<close> to a capacity that is not smaller than the current one keeps all entries, in
  their order, and ends with room for them: re-inserting never triggers another rehash.\<close>

theorem rehash_keeps_entries:
  assumes "fhm_inv hash m" "Capacity m \<le> n" "n \<le> 2 ^ 31" "Size m < 2 ^ 29"
  shows "\<exists>m'. Rehash hash m n = Some m' \<and> fhm_inv hash m' \<and> fhm_map m' = fhm_map m \<and>
    map key (buckets m') = map key (buckets m) \<and> n \<le> Capacity m' \<and> Size m' + Size m' div 2 < Capacity m'"
proof -
  have "length (buckets m) + length (buckets m) div 2 + 5 \<le> 2 ^ 31" using assms(4) by (simp add: Size_def)
  then obtain m' where m': "Rehash hash m n = Some m'" "fhm_inv hash m'" "entries m' = entries m" "n \<le> length (heads m')"
      "length (buckets m) + length (buckets m) div 2 + 5 \<le> length (heads m')"
    using Rehash_ok [OF assms(1) _ assms(3)] assms(2) by (auto simp: Capacity_def)
  moreover have "length (buckets m') = length (buckets m)" using m'(3) by (metis entries_facts(3))
  moreover have "keys m' = keys m" using m'(3) by (simp add: keys_entries)
  ultimately show ?thesis by (simp add: Capacity_def Size_def entries_facts(1) keys_def)
qed

theorem rehash_keeps_entries_witness:
  "\<exists>m'. Rehash (\<lambda>_. 7) empty16 20 = Some m' \<and> fhm_inv (\<lambda>_. 7) m' \<and> fhm_map m' = fhm_map empty16 \<and>
    map key (buckets m') = map key (buckets empty16) \<and> 20 \<le> Capacity m' \<and>
    Size m' + Size m' div 2 < Capacity m'"
  by (rule rehash_keeps_entries) (simp_all add: empty16_ok)

text \<open>C36. \<open>Rehash\<close> to a smaller capacity is an error: after shrinking \<open>heads\<close> it still clears as
  many heads as there were before, so it writes outside the vector.\<close>

theorem rehash_shrink_out_of_bounds:
  assumes "RoundCapacity n (Size m) = Some c" "c < Capacity m"
  shows "Rehash hash m n = None"
  using assms by (simp add: Rehash_def Size_def Capacity_def zero_heads_short)

theorem rehash_shrink_out_of_bounds_witness:
  "Rehash (\<lambda>_. 7) (\<lparr>heads = replicate 32 0, buckets = []\<rparr> :: (nat, bool) FlatHashMap) 16 = None"
  by (rule rehash_shrink_out_of_bounds [of _ _ 16])
    (simp_all add: RoundCapacity_def grow_capacity.simps Size_def Capacity_def)

text \<open>C39. The shifts and additions of \<open>Hash32\<close> and \<open>Hash64\<close> compute the FNV-1a step: xor, then
  multiplication with the FNV prime.\<close>

theorem hash_is_fnv_step:
  "Hash32 a b = (b XOR a) * 0x01000193 \<and> Hash64 c d = (d XOR c) * 0x00000100000001b3"
  by (simp_all add: Hash32_def Hash64_def Let_def push_bit_eq_mult algebra_simps)

end
