(* ===== verification/Peers.thy ===== *)
theory Peers
  imports Prelude
begin

text \<open>
  The tables of connected peers: \<open>src/src/PeersToFlush.cpp\<close>, \<open>src/src/PeerManager.cpp\<close> (classes
  \<open>PeerManager\<close> and \<open>PeerReferences\<close>) and the handles of \<open>src/include/icon7/PeerHandle.hpp\<close>.

  A \<open>PeerHandle\<close> is an index into the table of the loop's \<open>PeerManager\<close> together with a version:
  releasing a slot increments its version, so that old handles no longer match. Slots are
  reused through \<open>freeIds\<close>. \<open>PeersToFlush\<close> is a set of slots kept as a dense vector with an
  offset table; \<open>PeerReferences\<close> keeps the peers of one host in the same way, with the offset
  table \<open>perHostOffset\<close> in the manager.

  \<open>PeerData\<close> and \<open>Host\<close> objects, and loops, are addresses (\<open>nat\<close>). The members of a \<open>PeerData\<close> that
  these tables read and write (\<open>peerHandle\<close>, \<open>host\<close>, \<open>sharedPeer\<close>) are maps from addresses; the
  vectors of all hosts of the loop are one map from host addresses. The mutex only orders
  the calls of other threads and has no counterpart.
\<close>

section \<open>Sets of peers to flush\<close>

record PeersToFlush =
  fpeers :: "nat list"
  foffsets :: "int list"

definition InsertPeerToFlush :: "PeersToFlush \<Rightarrow> nat \<Rightarrow> PeersToFlush option" where
  "InsertPeerToFlush s peer =
     do { let offs = (if length (foffsets s) \<le> peer then vresize (foffsets s) (peer + 1) (- 1) else foffsets s);
          off \<leftarrow> vget offs peer;
          (if off \<ge> 0 then Some (s\<lparr>foffsets := offs\<rparr>)
           else do { offs \<leftarrow> vset offs peer (int (length (fpeers s)));
                     Some (s\<lparr>fpeers := fpeers s @ [peer], foffsets := offs\<rparr>) }) }"

definition RemovePeerToFlush :: "PeersToFlush \<Rightarrow> nat \<Rightarrow> PeersToFlush option" where
  "RemovePeerToFlush s peer =
     (if length (foffsets s) \<le> peer then Some s
      else if foffsets s ! peer < 0 then Some s
      else do { cassert (length (fpeers s) > 0);
                let off = nat (foffsets s ! peer);
                let offs = (foffsets s)[peer := - 1];
                (ps, offs) \<leftarrow>
                  (if off + 1 \<noteq> length (fpeers s)
                   then do { ps \<leftarrow> vset (fpeers s) off (last (fpeers s));
                             moved \<leftarrow> vget ps off;
                             offs \<leftarrow> vset offs moved (int off);
                             Some (ps, offs) }
                   else Some (fpeers s, offs));
                Some (s\<lparr>fpeers := butlast ps, foffsets := offs\<rparr>) })"

section \<open>Handles\<close>

record PeerHandle =
  hid :: nat
  hversion :: u32
  hloop :: "nat option"

definition null_handle :: PeerHandle where
  "null_handle = \<lparr>hid = 0, hversion = 0, hloop = None\<rparr>"

definition handle_eq :: "PeerHandle \<Rightarrow> PeerHandle \<Rightarrow> bool" where
  "handle_eq l r \<longleftrightarrow> (hid l = hid r \<and> hversion l = hversion r) \<and> hloop l = hloop r"

definition handle_valid :: "PeerHandle \<Rightarrow> bool" where
  "handle_valid h \<longleftrightarrow> hversion h \<noteq> 0 \<and> hloop h \<noteq> None"

definition handle_hash :: "PeerHandle \<Rightarrow> u64" where
  "handle_hash peer =
     (let h = 0xcbf29ce484222325;
          p = 0x100000001b3;
          h = (h XOR of_nat (hid peer)) * p;
          h = (h XOR ucast (hversion peer)) * p;
          h = (h XOR (case hloop peer of None \<Rightarrow> 0 | Some l \<Rightarrow> of_nat l)) * p
      in h)"

section \<open>The manager\<close>

record PeerTables =
  pmPeers :: "nat option list"
  versions :: "u32 list"
  freeIds :: "nat list"
  perHostOffset :: "int list"
  peersToFlush :: PeersToFlush
  pmLoop :: nat
  peerHandleOf :: "nat \<Rightarrow> PeerHandle"
  hostOf :: "nat \<Rightarrow> nat"
  sharedPeerOf :: "nat \<Rightarrow> nat option"
  sharedHandleOf :: "nat \<Rightarrow> PeerHandle"
  hostPeers :: "nat \<Rightarrow> nat list"

definition PM_Clear :: "PeerTables \<Rightarrow> PeerTables" where
  "PM_Clear s = s\<lparr>pmPeers := [], versions := [], freeIds := []\<rparr>"

definition PM_Alloc :: "PeerTables \<Rightarrow> nat \<Rightarrow> (PeerTables \<times> PeerHandle) option" where
  "PM_Alloc s peerData =
     do { cassert (\<not> handle_valid (peerHandleOf s peerData));
          (s, h) \<leftarrow>
            (if length (freeIds s) > 0
             then do { let i = last (freeIds s);
                       let s = s\<lparr>freeIds := butlast (freeIds s)\<rparr>;
                       v \<leftarrow> vget (versions s) i;
                       p \<leftarrow> vget (pmPeers s) i;
                       cassert (p = None);
                       ps \<leftarrow> vset (pmPeers s) i (Some peerData);
                       Some (s\<lparr>pmPeers := ps\<rparr>, \<lparr>hid = i, hversion = v, hloop = Some (pmLoop s)\<rparr>) }
             else Some (s\<lparr>pmPeers := pmPeers s @ [Some peerData], versions := versions s @ [1],
                          perHostOffset := perHostOffset s @ [- 1]\<rparr>,
                        \<lparr>hid = length (pmPeers s), hversion = 1, hloop = Some (pmLoop s)\<rparr>));
          shared \<leftarrow> sharedPeerOf s peerData;
          cassert (hversion h \<noteq> 0);
          Some (s\<lparr>peerHandleOf := (peerHandleOf s)(peerData := h),
                  sharedHandleOf := (sharedHandleOf s)(shared := h)\<rparr>, h) }"

definition ExistsLocal :: "PeerTables \<Rightarrow> PeerHandle \<Rightarrow> bool option" where
  "ExistsLocal s h =
     do { cassert (length (pmPeers s) = length (versions s));
          cassert (hloop h = Some (pmLoop s));
          (if hid h \<ge> length (versions s) then Some False
           else if pmPeers s ! hid h = None then Some False
           else Some (hversion h = versions s ! hid h)) }"

definition GetCurrentVersionLocal :: "PeerTables \<Rightarrow> PeerHandle \<Rightarrow> PeerHandle option" where
  "GetCurrentVersionLocal s h =
     do { cassert (length (pmPeers s) = length (versions s));
          cassert (hloop h = Some (pmLoop s));
          (if hid h \<ge> length (versions s) then Some null_handle
           else if pmPeers s ! hid h = None then Some null_handle
           else Some \<lparr>hid = hid h, hversion = versions s ! hid h, hloop = Some (pmLoop s)\<rparr>) }"

text \<open>The version that follows \<open>v\<close>: 0 is skipped.\<close>

definition next_version :: "u32 \<Rightarrow> u32" where
  "next_version v = (if v + 1 = 0 then v + 2 else v + 1)"

definition PM_Release :: "PeerTables \<Rightarrow> PeerHandle \<Rightarrow> (PeerTables \<times> nat option) option" where
  "PM_Release s h =
     do { ex \<leftarrow> ExistsLocal s h;
          (if \<not> ex then Some (s, None)
           else do { let s = s\<lparr>freeIds := freeIds s @ [hid h]\<rparr>;
                     data \<leftarrow> vget (pmPeers s) (hid h);
                     ps \<leftarrow> vset (pmPeers s) (hid h) None;
                     v \<leftarrow> vget (versions s) (hid h);
                     vs \<leftarrow> vset (versions s) (hid h) (next_version v);
                     fl \<leftarrow> RemovePeerToFlush (peersToFlush s) (hid h);
                     Some (s\<lparr>pmPeers := ps, versions := vs, peersToFlush := fl\<rparr>, data) }) }"

definition GetLocalPeerData :: "PeerTables \<Rightarrow> PeerHandle \<Rightarrow> nat option option" where
  "GetLocalPeerData s h =
     do { ex \<leftarrow> ExistsLocal s h;
          (if ex then vget (pmPeers s) (hid h) else Some None) }"

definition GetLocalHost :: "PeerTables \<Rightarrow> PeerHandle \<Rightarrow> nat option option" where
  "GetLocalHost s h = do { d \<leftarrow> GetLocalPeerData s h; Some (map_option (hostOf s) d) }"

definition GetLocalPeerDataValid :: "PeerTables \<Rightarrow> nat \<Rightarrow> nat option option" where
  "GetLocalPeerDataValid s peerId =
     do { cassert (peerId < length (pmPeers s)); vget (pmPeers s) peerId }"

definition GetSharedPeer :: "PeerTables \<Rightarrow> PeerHandle \<Rightarrow> nat option option" where
  "GetSharedPeer s h =
     do { d \<leftarrow> GetLocalPeerData s h;
          Some (case d of None \<Rightarrow> None | Some p \<Rightarrow> sharedPeerOf s p) }"

text \<open>The variants for other threads take the mutex around the local ones.\<close>

definition GetCurrentVersionShared :: "PeerTables \<Rightarrow> PeerHandle \<Rightarrow> PeerHandle option" where
  "GetCurrentVersionShared s h = GetCurrentVersionLocal s h"

definition ExistsShared :: "PeerTables \<Rightarrow> PeerHandle \<Rightarrow> bool option" where
  "ExistsShared s h = ExistsLocal s h"

definition GetSharedHost :: "PeerTables \<Rightarrow> PeerHandle \<Rightarrow> nat option option" where
  "GetSharedHost s h = GetLocalHost s h"

section \<open>The peers of a host\<close>

definition PR_Alloc :: "PeerTables \<Rightarrow> nat \<Rightarrow> nat \<Rightarrow> (PeerTables \<times> PeerHandle) option" where
  "PR_Alloc s host peerData =
     do { (s, h) \<leftarrow> PM_Alloc s peerData;
          offs \<leftarrow> vset (perHostOffset s) (hid h) (int (length (hostPeers s host)));
          Some (s\<lparr>perHostOffset := offs,
                  hostPeers := (hostPeers s)(host := hostPeers s host @ [peerData])\<rparr>, h) }"

text \<open>\<open>std::swap\<close> with the last element, then shortening by one, is \<open>swap_remove\<close>.\<close>

definition PR_Release :: "PeerTables \<Rightarrow> nat \<Rightarrow> PeerHandle \<Rightarrow> (PeerTables \<times> nat option) option" where
  "PR_Release s host h =
     do { (s, data) \<leftarrow> PM_Release s h;
          (case data of
             None \<Rightarrow> Some (s, None)
           | Some d \<Rightarrow>
               do { cassert (hostOf s d = host);
                    off \<leftarrow> vget (perHostOffset s) (hid h);
                    offs \<leftarrow> vset (perHostOffset s) (hid h) (- 1);
                    let ps = hostPeers s host;
                    (if off + 1 \<noteq> int (length ps)
                     then do { cassert (off \<ge> 0);
                               ps' \<leftarrow> vset ps (nat off) (last ps);
                               moved \<leftarrow> vget ps' (nat off);
                               offs \<leftarrow> vset offs (hid (peerHandleOf s moved)) off;
                               Some (s\<lparr>perHostOffset := offs,
                                       hostPeers := (hostPeers s)(host := butlast ps')\<rparr>, Some d) }
                     else do { cassert (ps \<noteq> []);
                               Some (s\<lparr>perHostOffset := offs,
                                       hostPeers := (hostPeers s)(host := butlast ps)\<rparr>, Some d) }) }) }"

section \<open>Dense vectors with an offset table\<close>

text \<open>\<open>dense xs off\<close>: the offset table \<open>off\<close> has the position of every element of \<open>xs\<close> and a
  negative number for everything else.\<close>

definition dense :: "'a list \<Rightarrow> ('a \<Rightarrow> int) \<Rightarrow> bool" where
  "dense xs off \<longleftrightarrow> (\<forall>i < length xs. off (xs ! i) = int i) \<and> (\<forall>p. off p \<ge> 0 \<longrightarrow> p \<in> set xs)"

lemma dense_distinct: "dense xs off \<Longrightarrow> distinct xs"
  unfolding dense_def distinct_conv_nth by (metis of_nat_eq_iff)

lemma dense_mem: "dense xs off \<Longrightarrow> off p \<ge> 0 \<longleftrightarrow> p \<in> set xs"
  unfolding dense_def by (metis in_set_conv_nth of_nat_0_le_iff)

lemma dense_nth: "dense xs off \<Longrightarrow> p \<in> set xs \<Longrightarrow> nat (off p) < length xs \<and> xs ! nat (off p) = p"
  unfolding dense_def by (metis in_set_conv_nth nat_int)

lemma dense_add: "dense xs off \<Longrightarrow> p \<notin> set xs \<Longrightarrow> dense (xs @ [p]) (off(p := int (length xs)))"
  unfolding dense_def by (auto simp: nth_append less_Suc_eq)

lemma last_nth: "xs \<noteq> [] \<Longrightarrow> last xs = xs ! (length xs - 1)"
  by (rule last_conv_nth)

lemma dense_remove:
  assumes d: "dense xs off" and p: "p \<in> set xs"
  shows "dense (swap_remove xs (nat (off p)))
    (if nat (off p) + 1 = length xs then off(p := - 1) else (off(p := - 1))(last xs := off p))"
proof -
  let ?i = "nat (off p)" let ?n = "length xs"
  have i: "?i < ?n" "xs ! ?i = p" "off p = int ?i"
    using dense_nth [OF d p] dense_mem [OF d, of p] p by auto
  have ne: "xs \<noteq> []" using i by auto
  have dist: "distinct xs" by (rule dense_distinct [OF d])
  have "(if ?i + 1 = ?n then off(p := - 1) else (off(p := - 1))(last xs := off p)) (swap_remove xs ?i ! j) = int j"
    if j: "j < length (swap_remove xs ?i)" for j
  proof -
    have j': "j < ?n - 1" using j by simp
    have n: "swap_remove xs ?i ! j = (if j = ?i then xs ! (?n - 1) else xs ! j)"
      using nth_swap_remove [OF i(1) j'] last_nth [OF ne] by simp
    have o: "off (xs ! j) = int j" using d j' by (simp add: dense_def)
    show ?thesis
      using n o i j' dist last_nth [OF ne] nth_eq_iff_index_eq [OF dist, of j ?i]
        nth_eq_iff_index_eq [OF dist, of j "?n - 1"] by auto
  qed
  moreover have "set (swap_remove xs ?i) = set xs - {p}" using set_swap_remove [OF dist i(1)] i(2) by simp
  moreover have "last xs \<noteq> p" if "?i + 1 \<noteq> ?n"
    using that i nth_eq_iff_index_eq [OF dist, of ?i "?n - 1"] last_nth [OF ne] by auto
  ultimately show ?thesis
    using dense_mem [OF d] last_in_set [OF ne] unfolding dense_def by (auto split: if_splits)
qed

section \<open>The set of peers to flush\<close>

definition poff :: "PeersToFlush \<Rightarrow> nat \<Rightarrow> int" where
  "poff s p = (if p < length (foffsets s) then foffsets s ! p else - 1)"

definition ptf_inv :: "PeersToFlush \<Rightarrow> bool" where
  "ptf_inv s \<longleftrightarrow> dense (fpeers s) (poff s)"

lemma poff_resize: "poff (s\<lparr>foffsets := vresize (foffsets s) (p + 1) (- 1)\<rparr>) = poff s"
  if "length (foffsets s) \<le> p"
  using that by (auto simp: poff_def fun_eq_iff nth_vresize)

lemma poff_update: "p < length (foffsets s) \<Longrightarrow> poff (s\<lparr>foffsets := (foffsets s)[p := x]\<rparr>) = (poff s)(p := x)"
  by (auto simp: poff_def fun_eq_iff nth_list_update)

lemma poff_fpeers [simp]: "poff (s\<lparr>fpeers := xs, foffsets := ys\<rparr>) = poff (s\<lparr>foffsets := ys\<rparr>)"
    "poff (s\<lparr>foffsets := ys, fpeers := xs\<rparr>) = poff (s\<lparr>foffsets := ys\<rparr>)"
  by (simp_all add: poff_def fun_eq_iff)

lemma InsertPeerToFlush_ok:
  assumes "ptf_inv s"
  shows "\<exists>s'. InsertPeerToFlush s p = Some s' \<and> ptf_inv s' \<and> set (fpeers s') = insert p (set (fpeers s))"
proof -
  let ?o = "if length (foffsets s) \<le> p then vresize (foffsets s) (p + 1) (- 1) else foffsets s"
  let ?s = "s\<lparr>foffsets := ?o\<rparr>"
  have o: "p < length ?o" "poff ?s = poff s" using poff_resize [of s p] by auto
  have nth: "?o ! p = poff s p" using o(1) unfolding o(2) [symmetric] by (simp add: poff_def)
  show ?thesis
  proof (cases "poff s p \<ge> 0")
    case True
    then have "InsertPeerToFlush s p = Some ?s" using o(1) nth by (simp add: InsertPeerToFlush_def Let_def)
    moreover have "p \<in> set (fpeers s)" using dense_mem [of "fpeers s" "poff s" p] True assms by (auto simp: ptf_inv_def)
    ultimately show ?thesis using assms o(2) by (auto simp: ptf_inv_def insert_absorb)
  next
    case False
    let ?t = "s\<lparr>fpeers := fpeers s @ [p], foffsets := ?o[p := int (length (fpeers s))]\<rparr>"
    have "InsertPeerToFlush s p = Some ?t" using o(1) nth False by (simp add: InsertPeerToFlush_def Let_def)
    moreover have "poff ?t = (poff s)(p := int (length (fpeers s)))"
      using poff_update [of p ?s "int (length (fpeers s))"] o by simp
    moreover have "p \<notin> set (fpeers s)" using dense_mem [of "fpeers s" "poff s" p] False assms by (auto simp: ptf_inv_def)
    ultimately show ?thesis using assms dense_add [of "fpeers s" "poff s" p] by (auto simp: ptf_inv_def)
  qed
qed

lemma RemovePeerToFlush_ok:
  assumes "ptf_inv s"
  shows "\<exists>s'. RemovePeerToFlush s p = Some s' \<and> ptf_inv s' \<and> set (fpeers s') = set (fpeers s) - {p}"
proof (cases "p \<in> set (fpeers s)")
  case False
  then have "poff s p < 0" using dense_mem [of "fpeers s" "poff s" p] assms by (auto simp: ptf_inv_def)
  then have "RemovePeerToFlush s p = Some s" by (auto simp: RemovePeerToFlush_def poff_def split: if_splits)
  then show ?thesis using assms False by simp
next
  case True
  have d: "dense (fpeers s) (poff s)" using assms by (simp add: ptf_inv_def)
  let ?i = "nat (poff s p)" let ?n = "length (fpeers s)"
  have p: "0 \<le> poff s p" "?i < ?n" "fpeers s ! ?i = p" using dense_mem [OF d] dense_nth [OF d True] True by auto
  then have q: "p < length (foffsets s)" "foffsets s ! p = poff s p" by (auto simp: poff_def split: if_splits)
  have ne: "fpeers s \<noteq> []" using p by auto
  have l: "last (fpeers s) < length (foffsets s)"
    using last_in_set [OF ne] dense_mem [OF d, of "last (fpeers s)"] by (auto simp: poff_def split: if_splits)
  let ?offs = "if ?i + 1 = ?n then (foffsets s)[p := - 1] else (foffsets s)[p := - 1, last (fpeers s) := poff s p]"
  let ?s = "s\<lparr>fpeers := swap_remove (fpeers s) ?i, foffsets := ?offs\<rparr>"
  have b: "?i + 1 = ?n \<Longrightarrow> butlast (fpeers s) = swap_remove (fpeers s) ?i"
    using ne by (cases "fpeers s" rule: rev_cases) (auto simp: swap_remove_def)
  have "RemovePeerToFlush s p = Some ?s"
    using p q ne l b unfolding RemovePeerToFlush_def by (auto simp: Let_def swap_remove_def)
  moreover have "poff ?s = (if ?i + 1 = ?n then (poff s)(p := - 1) else ((poff s)(p := - 1))(last (fpeers s) := poff s p))"
    using q l by (auto simp: poff_def fun_eq_iff nth_list_update)
  moreover have "set (swap_remove (fpeers s) ?i) = set (fpeers s) - {p}"
    using set_swap_remove [OF dense_distinct [OF d] p(2)] p(3) by simp
  ultimately show ?thesis using dense_remove [OF d True] by (auto simp: ptf_inv_def)
qed

section \<open>Invariant of the tables\<close>

definition live :: "PeerTables \<Rightarrow> nat \<Rightarrow> bool" where
  "live s p \<longleftrightarrow> Some p \<in> set (pmPeers s)"

definition handles_ok :: "PeerTables \<Rightarrow> bool" where
  "handles_ok s \<longleftrightarrow> (\<forall>i < length (pmPeers s). \<forall>p. pmPeers s ! i = Some p \<longrightarrow>
     peerHandleOf s p = \<lparr>hid = i, hversion = versions s ! i, hloop = Some (pmLoop s)\<rparr>)"

definition slots_inv :: "PeerTables \<Rightarrow> bool" where
  "slots_inv s \<longleftrightarrow>
     length (versions s) = length (pmPeers s) \<and> length (perHostOffset s) = length (pmPeers s) \<and>
     0 \<notin> set (versions s) \<and> distinct (freeIds s) \<and>
     set (freeIds s) = {i. i < length (pmPeers s) \<and> pmPeers s ! i = None} \<and> handles_ok s"

definition flush_inv :: "PeerTables \<Rightarrow> bool" where
  "flush_inv s \<longleftrightarrow> ptf_inv (peersToFlush s) \<and>
     (\<forall>i \<in> set (fpeers (peersToFlush s)). i < length (pmPeers s) \<and> pmPeers s ! i \<noteq> None)"

text \<open>The position of a live peer in the vector of its host.\<close>

definition hoff :: "PeerTables \<Rightarrow> nat \<Rightarrow> nat \<Rightarrow> int" where
  "hoff s host p = (if live s p \<and> hostOf s p = host then perHostOffset s ! hid (peerHandleOf s p) else - 1)"

definition hosts_inv :: "PeerTables \<Rightarrow> bool" where
  "hosts_inv s \<longleftrightarrow> (\<forall>host. dense (hostPeers s host) (hoff s host)) \<and>
     (\<forall>p. live s p \<longrightarrow> p \<in> set (hostPeers s (hostOf s p)))"

definition pt_inv :: "PeerTables \<Rightarrow> bool" where
  "pt_inv s \<longleftrightarrow> slots_inv s \<and> flush_inv s \<and> hosts_inv s"

definition PeerTables_new :: "nat \<Rightarrow> PeerTables" where
  "PeerTables_new loop = \<lparr>pmPeers = [], versions = [], freeIds = [], perHostOffset = [],
     peersToFlush = \<lparr>fpeers = [], foffsets = []\<rparr>, pmLoop = loop, peerHandleOf = (\<lambda>_. null_handle),
     hostOf = (\<lambda>_. 0), sharedPeerOf = (\<lambda>_. None), sharedHandleOf = (\<lambda>_. null_handle),
     hostPeers = (\<lambda>_. [])\<rparr>"

lemma pt_inv_new: "pt_inv (PeerTables_new loop)"
  by (simp add: pt_inv_def slots_inv_def handles_ok_def flush_inv_def hosts_inv_def PeerTables_new_def ptf_inv_def
      dense_def poff_def hoff_def live_def)

lemma slots_inv_handle:
  assumes "slots_inv s" "i < length (pmPeers s)" "pmPeers s ! i = Some p"
  shows "peerHandleOf s p = \<lparr>hid = i, hversion = versions s ! i, hloop = Some (pmLoop s)\<rparr>"
  using assms by (simp add: slots_inv_def handles_ok_def)

lemma live_slot:
  assumes "slots_inv s" "live s p"
  shows "hid (peerHandleOf s p) < length (pmPeers s)" "pmPeers s ! hid (peerHandleOf s p) = Some p"
proof -
  obtain i where i: "i < length (pmPeers s)" "pmPeers s ! i = Some p"
    using assms(2) by (auto simp: live_def in_set_conv_nth)
  then show "hid (peerHandleOf s p) < length (pmPeers s)" "pmPeers s ! hid (peerHandleOf s p) = Some p"
    using slots_inv_handle [OF assms(1) i] by auto
qed

lemma live_nth: "i < length (pmPeers s) \<Longrightarrow> pmPeers s ! i = Some p \<Longrightarrow> live s p"
  unfolding live_def by (metis nth_mem)

lemma live_handle_inj:
  assumes "slots_inv s" "live s p" "live s q" "hid (peerHandleOf s p) = hid (peerHandleOf s q)"
  shows "p = q"
  using live_slot(2) [OF assms(1,2)] live_slot(2) [OF assms(1,3)] unfolding assms(4) by (metis option.inject)

lemma ExistsLocal_iff:
  assumes "slots_inv s" "hloop h = Some (pmLoop s)"
  shows "ExistsLocal s h = Some (\<exists>p. live s p \<and> peerHandleOf s p = h)"
proof -
  have l: "length (pmPeers s) = length (versions s)" using assms(1) by (simp add: slots_inv_def)
  have "(\<exists>p. live s p \<and> peerHandleOf s p = h) \<longleftrightarrow>
      hid h < length (pmPeers s) \<and> pmPeers s ! hid h \<noteq> None \<and> hversion h = versions s ! hid h"
  proof
    assume "\<exists>p. live s p \<and> peerHandleOf s p = h"
    then obtain p where "live s p" "peerHandleOf s p = h" by blast
    then show "hid h < length (pmPeers s) \<and> pmPeers s ! hid h \<noteq> None \<and> hversion h = versions s ! hid h"
      using live_slot [OF assms(1), of p]
        arg_cong [OF slots_inv_handle [OF assms(1), of "hid h" p], of hversion] by auto
  next
    assume a: "hid h < length (pmPeers s) \<and> pmPeers s ! hid h \<noteq> None \<and> hversion h = versions s ! hid h"
    then obtain p where p: "pmPeers s ! hid h = Some p" by auto
    then have "peerHandleOf s p = h" using a slots_inv_handle [OF assms(1) _ p] assms(2) by auto
    then show "\<exists>p. live s p \<and> peerHandleOf s p = h" using live_nth a p by blast
  qed
  then show ?thesis using assms(2) l by (auto simp: ExistsLocal_def)
qed

section \<open>Allocation\<close>

lemma last_freeIds:
  assumes "slots_inv s" "freeIds s \<noteq> []"
  shows "last (freeIds s) < length (pmPeers s)" "pmPeers s ! last (freeIds s) = None"
    "set (butlast (freeIds s)) = set (freeIds s) - {last (freeIds s)}"
proof -
  have "last (freeIds s) \<in> set (freeIds s)" using assms(2) by simp
  then show "last (freeIds s) < length (pmPeers s)" "pmPeers s ! last (freeIds s) = None"
    using assms(1) by (auto simp: slots_inv_def)
  have "distinct (freeIds s)" using assms(1) by (simp add: slots_inv_def)
  then show "set (butlast (freeIds s)) = set (freeIds s) - {last (freeIds s)}"
    using assms(2) by (cases "freeIds s" rule: rev_cases) auto
qed

lemma Some_in_update:
  assumes "i < length xs" "xs ! i = None"
  shows "Some q \<in> set (xs[i := Some p]) \<longleftrightarrow> Some q \<in> set xs \<or> q = p"
proof -
  have "set xs = insert (xs ! i) (set (take i xs) \<union> set (drop (Suc i) xs))"
    by (subst id_take_nth_drop [OF assms(1)]) (simp add: assms(1) min_def)
  moreover have "set (xs[i := Some p]) = insert (Some p) (set (take i xs) \<union> set (drop (Suc i) xs))"
    using assms(1) by (simp add: upd_conv_take_nth_drop)
  ultimately show ?thesis using assms(2) by auto
qed

text \<open>What an allocation does to the tables, whichever slot it takes.\<close>

definition alloc_effect :: "PeerTables \<Rightarrow> nat \<Rightarrow> PeerHandle \<Rightarrow> PeerTables \<Rightarrow> bool" where
  "alloc_effect s p h s' \<longleftrightarrow> slots_inv s' \<and> flush_inv s' \<and> peerHandleOf s' = (peerHandleOf s)(p := h) \<and>
     hloop h = Some (pmLoop s) \<and> hversion h \<noteq> 0 \<and> hid h < length (perHostOffset s') \<and>
     length (perHostOffset s) \<le> length (perHostOffset s') \<and>
     (\<forall>q. live s' q \<longleftrightarrow> live s q \<or> q = p) \<and>
     (\<forall>q. live s q \<longrightarrow> hid (peerHandleOf s q) \<noteq> hid h) \<and>
     (\<forall>i < length (perHostOffset s). perHostOffset s' ! i = perHostOffset s ! i) \<and>
     hostPeers s' = hostPeers s \<and> hostOf s' = hostOf s \<and> pmLoop s' = pmLoop s \<and>
     peersToFlush s' = peersToFlush s \<and>
     (\<forall>i < length (versions s). i < length (versions s') \<and> versions s' ! i = versions s ! i)"

lemma alloc_reuse:
  assumes inv: "slots_inv s" "flush_inv s" and p: "\<not> live s p" and f: "freeIds s \<noteq> []"
  defines "i \<equiv> last (freeIds s)"
  defines "h \<equiv> \<lparr>hid = i, hversion = versions s ! i, hloop = Some (pmLoop s)\<rparr>"
  shows "alloc_effect s p h (s\<lparr>freeIds := butlast (freeIds s), pmPeers := (pmPeers s)[i := Some p],
    peerHandleOf := (peerHandleOf s)(p := h), sharedHandleOf := sh\<rparr>)" (is "alloc_effect s p h ?s")
proof -
  note f = last_freeIds [OF inv(1) f, folded i_def]
  have len: "length (versions s) = length (pmPeers s)" "length (perHostOffset s) = length (pmPeers s)"
    "distinct (freeIds s)" "set (freeIds s) = {i. i < length (pmPeers s) \<and> pmPeers s ! i = None}"
    "0 \<notin> set (versions s)"
    using inv(1) by (auto simp: slots_inv_def)
  have other: "q \<noteq> p" if "j < length (pmPeers s)" "pmPeers s ! j = Some q" for j q
    using p live_nth [OF that] by auto
  have "peerHandleOf ?s q = \<lparr>hid = j, hversion = versions s ! j, hloop = Some (pmLoop s)\<rparr>"
    if "j < length (pmPeers s)" "(pmPeers s)[i := Some p] ! j = Some q" for j q
    using that other [of j q] slots_inv_handle [OF inv(1), of j q]
    by (cases "j = i") (simp_all add: h_def)
  moreover have "set (butlast (freeIds s)) = {j. j < length (pmPeers s) \<and> (pmPeers s)[i := Some p] ! j = None}"
    unfolding f(3) len(4) using f(1) by (auto simp: nth_list_update)
  ultimately have "slots_inv ?s"
    using len distinct_butlast [OF len(3)] by (simp add: slots_inv_def handles_ok_def)
  moreover have "flush_inv ?s" using inv(2) f by (auto simp: flush_inv_def nth_list_update)
  moreover have "live ?s q \<longleftrightarrow> live s q \<or> q = p" for q
    using Some_in_update [OF f(1,2)] by (simp add: live_def)
  moreover have "i < length (versions s)" using f(1) len(1) by simp
  then have "hversion h \<noteq> 0" using len(5) unfolding h_def by (metis nth_mem PeerHandle.select_convs(2))
  moreover have "hid (peerHandleOf s q) \<noteq> hid h" if "live s q" for q
    using live_slot [OF inv(1) that] f(2) by (auto simp: h_def)
  ultimately show ?thesis using f(1) len by (simp add: alloc_effect_def h_def)
qed

lemma alloc_fresh:
  assumes inv: "slots_inv s" "flush_inv s" and p: "\<not> live s p" and f: "freeIds s = []"
  defines "h \<equiv> \<lparr>hid = length (pmPeers s), hversion = 1, hloop = Some (pmLoop s)\<rparr>"
  shows "alloc_effect s p h (s\<lparr>pmPeers := pmPeers s @ [Some p], versions := versions s @ [1],
    perHostOffset := perHostOffset s @ [- 1], peerHandleOf := (peerHandleOf s)(p := h),
    sharedHandleOf := sh\<rparr>)" (is "alloc_effect s p h ?s")
proof -
  have len: "length (versions s) = length (pmPeers s)" "length (perHostOffset s) = length (pmPeers s)"
    "{i. i < length (pmPeers s) \<and> pmPeers s ! i = None} = {}" "0 \<notin> set (versions s)"
    using inv(1) f by (auto simp: slots_inv_def)
  have other: "q \<noteq> p" if "j < length (pmPeers s)" "pmPeers s ! j = Some q" for j q
    using p live_nth [OF that] by auto
  have "peerHandleOf ?s q = \<lparr>hid = j, hversion = versions ?s ! j, hloop = Some (pmLoop s)\<rparr>"
    if "j < length (pmPeers ?s)" "pmPeers ?s ! j = Some q" for j q
    using that other [of j q] slots_inv_handle [OF inv(1), of j q] len(1)
    by (cases "j = length (pmPeers s)") (simp_all add: h_def nth_append)
  moreover have "{j. j < length (pmPeers ?s) \<and> pmPeers ?s ! j = None} = {}"
    using len(3) by (auto simp: nth_append)
  ultimately have "slots_inv ?s" using len f by (simp add: slots_inv_def handles_ok_def)
  moreover have "flush_inv ?s" using inv(2) by (auto simp: flush_inv_def nth_append)
  moreover have "live ?s q \<longleftrightarrow> live s q \<or> q = p" for q by (auto simp: live_def)
  moreover have "hid (peerHandleOf s q) \<noteq> hid h" if "live s q" for q
    using live_slot [OF inv(1) that] by (auto simp: h_def)
  ultimately show ?thesis using len by (simp add: alloc_effect_def h_def nth_append)
qed

lemma PM_Alloc_ok:
  assumes inv: "slots_inv s" "flush_inv s" and p: "\<not> live s p" "\<not> handle_valid (peerHandleOf s p)"
    "sharedPeerOf s p \<noteq> None"
  shows "\<exists>s' h. PM_Alloc s p = Some (s', h) \<and> alloc_effect s p h s'"
proof (cases "freeIds s = []")
  case True
  then show ?thesis using alloc_fresh [OF inv p(1) True] p(2,3) by (auto simp: PM_Alloc_def)
next
  case False
  note f = last_freeIds [OF inv(1) False]
  let ?i = "last (freeIds s)"
  let ?h = "\<lparr>hid = ?i, hversion = versions s ! ?i, hloop = Some (pmLoop s)\<rparr>"
  have v: "?i < length (versions s)" "0 \<notin> set (versions s)" using f(1) inv(1) by (auto simp: slots_inv_def)
  then have "versions s ! ?i \<noteq> 0" by (metis nth_mem)
  moreover obtain sh where "sharedPeerOf s p = Some sh" using p(3) by auto
  ultimately have "PM_Alloc s p = Some (s\<lparr>freeIds := butlast (freeIds s), pmPeers := (pmPeers s)[?i := Some p],
      peerHandleOf := (peerHandleOf s)(p := ?h), sharedHandleOf := (sharedHandleOf s)(sh := ?h)\<rparr>, ?h)"
    using v(1) p(2) f False by (simp add: PM_Alloc_def Let_def)
  then show ?thesis using alloc_reuse [OF inv p(1) False] by blast
qed

lemma PR_Alloc_ok:
  assumes inv: "pt_inv s" and p: "\<not> live s p" "\<not> handle_valid (peerHandleOf s p)" "sharedPeerOf s p \<noteq> None"
    "hostOf s p = host"
  shows "\<exists>s' h. PR_Alloc s host p = Some (s', h) \<and> pt_inv s' \<and> peerHandleOf s' = (peerHandleOf s)(p := h) \<and>
    hloop h = Some (pmLoop s) \<and> handle_valid h \<and> (\<forall>q. live s' q \<longleftrightarrow> live s q \<or> q = p) \<and> pmLoop s' = pmLoop s \<and>
    (\<forall>i < length (versions s). i < length (versions s') \<and> versions s' ! i = versions s ! i)"
proof -
  have inv': "slots_inv s" "flush_inv s" "hosts_inv s" using inv by (auto simp: pt_inv_def)
  obtain s1 h where 1: "PM_Alloc s p = Some (s1, h)" "alloc_effect s p h s1"
    using PM_Alloc_ok [OF inv'(1,2) p(1-3)] by blast
  let ?n = "int (length (hostPeers s host))"
  let ?s = "s1\<lparr>perHostOffset := (perHostOffset s1)[hid h := ?n],
    hostPeers := (hostPeers s1)(host := hostPeers s host @ [p])\<rparr>"
  have e: "PR_Alloc s host p = Some (?s, h)" using 1 by (auto simp: PR_Alloc_def alloc_effect_def)
  have sl: "slots_inv ?s" "flush_inv ?s" using 1(2) by (auto simp: alloc_effect_def slots_inv_def handles_ok_def flush_inv_def)
  have lv: "live ?s q \<longleftrightarrow> live s q \<or> q = p" for q using 1(2) by (auto simp: alloc_effect_def live_def)
  have off: "hoff ?s g = (if g = host then (hoff s g)(p := ?n) else hoff s g)" for g
  proof
    fix q
    have "live s q \<Longrightarrow> hid (peerHandleOf s q) < length (perHostOffset s)"
      using live_slot(1) [OF inv'(1)] inv'(1) by (simp add: slots_inv_def)
    then show "hoff ?s g q = (if g = host then (hoff s g)(p := ?n) else hoff s g) q"
      using 1(2) lv [of q] p(1,4) by (auto simp: hoff_def alloc_effect_def nth_list_update)
  qed
  have "p \<notin> set (hostPeers s host)"
    using inv'(3) p(1) dense_mem [of "hostPeers s host" "hoff s host" p] by (auto simp: hosts_inv_def hoff_def)
  then have "hosts_inv ?s"
    using inv'(3) 1(2) lv dense_add [of "hostPeers s host" "hoff s host" p] p(4)
    unfolding hosts_inv_def off by (auto simp: alloc_effect_def)
  then show ?thesis using e sl 1(2) lv by (auto simp: pt_inv_def alloc_effect_def handle_valid_def)
qed

section \<open>Release\<close>

lemma next_version_nonzero: "next_version v \<noteq> 0"
proof (cases "v + 1 = 0")
  case True
  then have "v = - 1" by (simp add: eq_neg_iff_add_eq_0)
  then show ?thesis by (simp add: next_version_def)
qed (simp add: next_version_def)

lemma Some_in_clear:
  assumes "i < length xs" "xs ! i = Some p" "\<And>j. j < length xs \<Longrightarrow> xs ! j = Some p \<Longrightarrow> j = i"
  shows "Some q \<in> set (xs[i := None]) \<longleftrightarrow> Some q \<in> set xs \<and> q \<noteq> p"
proof
  assume "Some q \<in> set (xs[i := None])"
  then obtain j where j: "j < length xs" "xs[i := None] ! j = Some q" by (auto simp: in_set_conv_nth)
  then have "j \<noteq> i" "xs ! j = Some q" using assms(1) by (cases "j = i"; simp)+
  then show "Some q \<in> set xs \<and> q \<noteq> p" using assms(3) [of j] nth_mem [OF j(1)] j(1) by auto
next
  assume a: "Some q \<in> set xs \<and> q \<noteq> p"
  then obtain j where j: "j < length xs" "xs ! j = Some q" by (auto simp: in_set_conv_nth)
  then have "xs[i := None] ! j = Some q" using assms(2) a by (cases "j = i") auto
  then show "Some q \<in> set (xs[i := None])" using nth_mem [of j "xs[i := None]"] j(1) by simp
qed

definition release_effect :: "PeerTables \<Rightarrow> nat \<Rightarrow> PeerTables \<Rightarrow> bool" where
  "release_effect s p s' \<longleftrightarrow> slots_inv s' \<and> flush_inv s' \<and> (\<forall>q. live s' q \<longleftrightarrow> live s q \<and> q \<noteq> p) \<and>
     peerHandleOf s' = peerHandleOf s \<and> perHostOffset s' = perHostOffset s \<and> hostPeers s' = hostPeers s \<and>
     hostOf s' = hostOf s \<and> pmLoop s' = pmLoop s \<and>
     versions s' = (versions s)[hid (peerHandleOf s p) := next_version (versions s ! hid (peerHandleOf s p))]"

lemma PM_Release_live:
  assumes inv: "slots_inv s" "flush_inv s" and p: "live s p"
  shows "\<exists>s'. PM_Release s (peerHandleOf s p) = Some (s', Some p) \<and> release_effect s p s'"
proof -
  let ?h = "peerHandleOf s p" let ?i = "hid (peerHandleOf s p)"
  note l = live_slot [OF inv(1) p]
  have len: "length (versions s) = length (pmPeers s)" "distinct (freeIds s)" "0 \<notin> set (versions s)"
    "set (freeIds s) = {i. i < length (pmPeers s) \<and> pmPeers s ! i = None}"
    "length (perHostOffset s) = length (pmPeers s)"
    using inv(1) by (auto simp: slots_inv_def)
  obtain fl where fl: "RemovePeerToFlush (peersToFlush s) ?i = Some fl" "ptf_inv fl"
      "set (fpeers fl) = set (fpeers (peersToFlush s)) - {?i}"
    using RemovePeerToFlush_ok [of "peersToFlush s" ?i] inv(2) by (auto simp: flush_inv_def)
  let ?s = "s\<lparr>freeIds := freeIds s @ [?i], pmPeers := (pmPeers s)[?i := None],
    versions := (versions s)[?i := next_version (versions s ! ?i)], peersToFlush := fl\<rparr>"
  have "hloop ?h = Some (pmLoop s)" using arg_cong [OF slots_inv_handle [OF inv(1) l], of hloop] by simp
  moreover have "\<exists>q. live s q \<and> peerHandleOf s q = ?h" using p by blast
  ultimately have "ExistsLocal s ?h = Some True" using ExistsLocal_iff [OF inv(1)] by simp
  then have e: "PM_Release s ?h = Some (?s, Some p)"
    using l len(1) fl(1) by (simp add: PM_Release_def Let_def)
  have uniq: "j = ?i" if "j < length (pmPeers s)" "pmPeers s ! j = Some p" for j
    using slots_inv_handle [OF inv(1) that] by simp
  have lv: "live ?s q \<longleftrightarrow> live s q \<and> q \<noteq> p" for q
    using Some_in_clear [OF l uniq] by (simp add: live_def)
  have "versions s ! ?i \<noteq> 0" using len(1,3) l(1) by (metis nth_mem)
  then have "0 \<notin> set (versions ?s)"
    using len(3) next_version_nonzero [of "versions s ! ?i"]
      set_update_subset_insert [of "versions s" ?i "next_version (versions s ! ?i)"] by auto
  moreover have "set (freeIds ?s) = {j. j < length (pmPeers ?s) \<and> pmPeers ?s ! j = None}"
    using l(1) by (simp add: len(4)) (auto simp: nth_list_update)
  moreover have "?i \<notin> set (freeIds s)" unfolding len(4) using l(2) by simp
  then have "distinct (freeIds ?s)" using len(2) by simp
  moreover have "handles_ok ?s"
    unfolding handles_ok_def
  proof (intro allI impI)
    fix j q
    assume j: "j < length (pmPeers ?s)" "pmPeers ?s ! j = Some q"
    then have "j \<noteq> ?i" using l(1) by auto
    then have a: "pmPeers s ! j = Some q" and v: "versions ?s ! j = versions s ! j" and b: "j < length (pmPeers s)"
      using j by simp_all
    show "peerHandleOf ?s q = \<lparr>hid = j, hversion = versions ?s ! j, hloop = Some (pmLoop ?s)\<rparr>"
      using slots_inv_handle [OF inv(1) b a] unfolding v by simp
  qed
  ultimately have "slots_inv ?s" using len by (simp add: slots_inv_def)
  moreover have "flush_inv ?s" using inv(2) fl(2,3) by (simp add: flush_inv_def nth_list_update)
  ultimately show ?thesis using e lv by (auto simp: release_effect_def)
qed

lemma PM_Release_dead:
  assumes "slots_inv s" "hloop h = Some (pmLoop s)" "\<not> (\<exists>p. live s p \<and> peerHandleOf s p = h)"
  shows "PM_Release s h = Some (s, None)"
  using ExistsLocal_iff [OF assms(1,2)] assms(3) by (simp add: PM_Release_def)

lemma PR_Release_live:
  assumes inv: "pt_inv s" and p: "live s p" "hostOf s p = host"
  shows "\<exists>s'. PR_Release s host (peerHandleOf s p) = Some (s', Some p) \<and> pt_inv s' \<and>
    peerHandleOf s' = peerHandleOf s \<and> (\<forall>q. live s' q \<longleftrightarrow> live s q \<and> q \<noteq> p) \<and> pmLoop s' = pmLoop s \<and> hostOf s' = hostOf s \<and>
    versions s' = (versions s)[hid (peerHandleOf s p) := next_version (versions s ! hid (peerHandleOf s p))]"
proof -
  have inv': "slots_inv s" "flush_inv s" "hosts_inv s" using inv by (auto simp: pt_inv_def)
  let ?i = "hid (peerHandleOf s p)" let ?ps = "hostPeers s host"
  obtain s1 where 1: "PM_Release s (peerHandleOf s p) = Some (s1, Some p)" "release_effect s p s1"
    using PM_Release_live [OF inv'(1,2) p(1)] by blast
  have d: "dense ?ps (hoff s host)" and mem: "p \<in> set ?ps" using inv'(3) p by (auto simp: hosts_inv_def)
  let ?off = "perHostOffset s ! ?i"
  have off: "hoff s host p = ?off" using p by (simp add: hoff_def)
  note n = dense_nth [OF d mem, unfolded off] and nn = dense_mem [OF d, of p, unfolded off]
  have len: "length (perHostOffset s) = length (pmPeers s)" using inv'(1) by (simp add: slots_inv_def)
  have i: "?i < length (perHostOffset s)" using live_slot(1) [OF inv'(1) p(1)] len by simp
  have ne: "?ps \<noteq> []" using mem by auto
  have last: "live s (last ?ps)" "hostOf s (last ?ps) = host" "hid (peerHandleOf s (last ?ps)) < length (perHostOffset s)"
    using dense_mem [OF d, of "last ?ps"] last_in_set [OF ne] live_slot(1) [OF inv'(1), of "last ?ps"] len
    by (auto simp: hoff_def split: if_splits)
  let ?offs = "if nat ?off + 1 = length ?ps then (perHostOffset s)[?i := - 1]
    else (perHostOffset s)[?i := - 1, hid (peerHandleOf s (last ?ps)) := ?off]"
  let ?s = "s1\<lparr>perHostOffset := ?offs, hostPeers := (hostPeers s)(host := swap_remove ?ps (nat ?off))\<rparr>"
  have b: "nat ?off + 1 = length ?ps \<Longrightarrow> butlast ?ps = swap_remove ?ps (nat ?off)"
    using ne by (cases ?ps rule: rev_cases) (auto simp: swap_remove_def)
  have "PR_Release s host (peerHandleOf s p) = Some (?s, Some p)"
    using 1 p(2) i n nn mem ne last(3) b
    by (auto simp: PR_Release_def release_effect_def Let_def swap_remove_def nat_eq_iff)
  moreover have "slots_inv ?s" "flush_inv ?s" using 1(2) by (auto simp: release_effect_def slots_inv_def handles_ok_def flush_inv_def)
  moreover have lv: "live ?s q \<longleftrightarrow> live s q \<and> q \<noteq> p" for q using 1(2) by (simp add: release_effect_def live_def)
  have hid: "hid (peerHandleOf s q) = hid (peerHandleOf s r) \<longleftrightarrow> q = r" if "live s q" "live s r" for q r
    using live_handle_inj [OF inv'(1) that] by auto
  have hof: "hoff ?s g = (if g = host then
      (if nat ?off + 1 = length ?ps then (hoff s g)(p := - 1) else ((hoff s g)(p := - 1))(last ?ps := ?off))
      else hoff s g)" for g
  proof
    fix q
    have lp: "nat ?off + 1 \<noteq> length ?ps \<Longrightarrow> last ?ps \<noteq> p"
      using n last_nth [OF ne] nth_eq_iff_index_eq [OF dense_distinct [OF d], of "nat ?off" "length ?ps - 1"] by auto
    show "hoff ?s g q = (if g = host then
      (if nat ?off + 1 = length ?ps then (hoff s g)(p := - 1) else ((hoff s g)(p := - 1))(last ?ps := ?off))
      else hoff s g) q"
    proof (cases "live s q \<and> q \<noteq> p")
      case True
      then have "?offs ! hid (peerHandleOf s q) = (if nat ?off + 1 \<noteq> length ?ps \<and> q = last ?ps then ?off
          else perHostOffset s ! hid (peerHandleOf s q))"
        using hid [OF _ p(1), of q] hid [OF _ last(1), of q] last(3) by (auto simp: nth_list_update)
      then have "hoff ?s g q = (if hostOf s q = g then (if nat ?off + 1 \<noteq> length ?ps \<and> q = last ?ps then ?off
          else perHostOffset s ! hid (peerHandleOf s q)) else - 1)"
        using 1(2) lv [of q] True by (simp add: hoff_def release_effect_def)
      then show ?thesis using True last(2) by (auto simp: hoff_def)
    next
      case False
      then have nl: "\<not> live ?s q" using lv [of q] by blast
      have "hoff ?s g q = - 1" unfolding hoff_def by (simp only: nl simp_thms if_False)
      moreover have "hoff s g q = - 1 \<or> q = p \<and> g = host" "nat ?off + 1 \<noteq> length ?ps \<Longrightarrow> q \<noteq> last ?ps"
        using False p(2) last(1) lp by (auto simp: hoff_def)
      ultimately show ?thesis by auto
    qed
  qed
  have "hosts_inv ?s"
    using inv'(3) dense_remove [OF d mem] set_swap_remove [OF dense_distinct [OF d], of "nat ?off"] n lv 1(2)
    unfolding hosts_inv_def hof off by (auto simp: release_effect_def)
  ultimately show ?thesis using 1(2) by (auto simp: pt_inv_def release_effect_def live_def)
qed

section \<open>The table as a state machine\<close>

lemma valid_if_live: "slots_inv s \<Longrightarrow> live s p \<Longrightarrow> handle_valid (peerHandleOf s p) \<and> hloop (peerHandleOf s p) = Some (pmLoop s)"
proof -
  assume a: "slots_inv s" "live s p"
  let ?i = "hid (peerHandleOf s p)"
  note l = live_slot [OF a]
  have "?i < length (versions s)" "0 \<notin> set (versions s)" using a(1) l(1) by (auto simp: slots_inv_def)
  then have "versions s ! ?i \<noteq> 0" by (metis nth_mem)
  moreover have "hversion (peerHandleOf s p) = versions s ! ?i" "hloop (peerHandleOf s p) = Some (pmLoop s)"
    using arg_cong [OF slots_inv_handle [OF a(1) l], of hversion]
      arg_cong [OF slots_inv_handle [OF a(1) l], of hloop] by simp_all
  ultimately show ?thesis by (simp add: handle_valid_def)
qed

text \<open>The steps of the loop's thread; the label tells which slot is released. Besides the four
  operations: a \<open>PeerData\<close> object is constructed, and it forgets its handle and shared peer when
  its connection has been closed (\<open>_InternalClearInternalDataOnClose\<close>).\<close>

inductive peers_step :: "PeerTables \<Rightarrow> nat option \<Rightarrow> PeerTables \<Rightarrow> bool" where
  create: "\<not> live s p \<Longrightarrow> peers_step s None (s\<lparr>peerHandleOf := (peerHandleOf s)(p := null_handle),
    hostOf := (hostOf s)(p := host), sharedPeerOf := (sharedPeerOf s)(p := Some sh)\<rparr>)"
| alloc: "PR_Alloc s (hostOf s p) p = Some (s', h) \<Longrightarrow> peers_step s None s'"
| release: "PR_Release s host h = Some (s', Some d) \<Longrightarrow> peers_step s (Some (hid h)) s'"
| release_stale: "PR_Release s host h = Some (s', None) \<Longrightarrow> peers_step s None s'"
| flush_insert: "i < length (pmPeers s) \<Longrightarrow> pmPeers s ! i \<noteq> None \<Longrightarrow>
    InsertPeerToFlush (peersToFlush s) i = Some fl \<Longrightarrow> peers_step s None (s\<lparr>peersToFlush := fl\<rparr>)"
| flush_remove: "RemovePeerToFlush (peersToFlush s) i = Some fl \<Longrightarrow> peers_step s None (s\<lparr>peersToFlush := fl\<rparr>)"
| close: "\<not> live s p \<Longrightarrow> peers_step s None (s\<lparr>peerHandleOf := (peerHandleOf s)(p := null_handle),
    sharedPeerOf := (sharedPeerOf s)(p := None)\<rparr>)"

text \<open>\<open>peers_run s i k s'\<close>: some steps lead from \<open>s\<close> to \<open>s'\<close>, and \<open>k\<close> of them release slot \<open>i\<close>.\<close>

inductive peers_run :: "PeerTables \<Rightarrow> nat \<Rightarrow> nat \<Rightarrow> PeerTables \<Rightarrow> bool" for s i where
  run_refl: "peers_run s i 0 s"
| run_release: "peers_run s i k t \<Longrightarrow> peers_step t (Some i) u \<Longrightarrow> peers_run s i (Suc k) u"
| run_other: "peers_run s i k t \<Longrightarrow> peers_step t l u \<Longrightarrow> l \<noteq> Some i \<Longrightarrow> peers_run s i k u"

lemma PR_Release_cases:
  assumes inv: "pt_inv s" and r: "PR_Release s host h = Some (s', r)"
  shows "(r = None \<and> s' = s \<and> hloop h = Some (pmLoop s) \<and> \<not> (\<exists>p. live s p \<and> peerHandleOf s p = h)) \<or>
    (\<exists>p. r = Some p \<and> live s p \<and> hostOf s p = host \<and> peerHandleOf s p = h)"
proof -
  have sl: "slots_inv s" "flush_inv s" using inv by (auto simp: pt_inv_def)
  have hl: "hloop h = Some (pmLoop s)"
    using r by (auto simp: PR_Release_def PM_Release_def ExistsLocal_def bind_eq_Some_conv)
  show ?thesis
  proof (cases "\<exists>p. live s p \<and> peerHandleOf s p = h")
    case True
    then obtain p where p: "live s p" "peerHandleOf s p = h" by blast
    obtain t where t: "PM_Release s h = Some (t, Some p)" "release_effect s p t"
      using PM_Release_live [OF sl p(1)] p(2) by auto
    then have "hostOf t p = host" "r = Some p"
      using r by (auto simp: PR_Release_def Let_def run_simps bind_eq_Some_conv split: if_splits)
    then show ?thesis using p t(2) by (auto simp: release_effect_def)
  next
    case False
    then have "PM_Release s h = Some (s, None)" by (intro PM_Release_dead [OF sl(1) hl])
    then show ?thesis using r False hl by (simp add: PR_Release_def)
  qed
qed

text \<open>Changing the data of a peer that is not in the table keeps the invariant.\<close>

lemma pt_inv_dead_update:
  assumes "pt_inv s" "\<not> live s p" "\<And>q. q \<noteq> p \<Longrightarrow> f q = peerHandleOf s q" "\<And>q. q \<noteq> p \<Longrightarrow> g q = hostOf s q"
  shows "pt_inv (s\<lparr>peerHandleOf := f, hostOf := g, sharedPeerOf := sh\<rparr>)"
proof -
  let ?s = "s\<lparr>peerHandleOf := f, hostOf := g, sharedPeerOf := sh\<rparr>"
  have ne: "live s q \<Longrightarrow> q \<noteq> p" for q using assms(2) by auto
  have lv: "live ?s q = live s q" for q by (simp add: live_def)
  have fq: "f q = peerHandleOf s q" "g q = hostOf s q" if "live s q" for q using assms(3,4) ne [OF that] by auto
  have "handles_ok ?s" if "handles_ok s"
    unfolding handles_ok_def
  proof (intro allI impI)
    fix i q
    assume a: "i < length (pmPeers ?s)" "pmPeers ?s ! i = Some q"
    then have "live s q" using live_nth [of i s q] by simp
    then have "peerHandleOf ?s q = peerHandleOf s q" using fq by simp
    then show "peerHandleOf ?s q = \<lparr>hid = i, hversion = versions ?s ! i, hloop = Some (pmLoop ?s)\<rparr>"
      using that a by (simp add: handles_ok_def)
  qed
  moreover have "hoff ?s h = hoff s h" for h
    by (rule ext) (simp add: hoff_def lv fq cong: conj_cong if_cong)
  ultimately show ?thesis
    using assms(1) by (auto simp: pt_inv_def slots_inv_def flush_inv_def hosts_inv_def lv fq)
qed

lemma pt_inv_flush:
  assumes "pt_inv s" "ptf_inv fl" "\<And>i. i \<in> set (fpeers fl) \<Longrightarrow> i < length (pmPeers s) \<and> pmPeers s ! i \<noteq> None"
  shows "pt_inv (s\<lparr>peersToFlush := fl\<rparr>)"
proof -
  have "hoff (s\<lparr>peersToFlush := fl\<rparr>) = hoff s" by (simp add: fun_eq_iff hoff_def live_def)
  then show ?thesis using assms
    by (simp add: pt_inv_def slots_inv_def flush_inv_def hosts_inv_def handles_ok_def live_def)
qed

lemma hostOf_same: "s\<lparr>peerHandleOf := f, hostOf := hostOf s, sharedPeerOf := sh\<rparr> = s\<lparr>peerHandleOf := f, sharedPeerOf := sh\<rparr>"
  by (cases s) simp

lemma peers_step_inv:
  assumes "peers_step s l s'" "pt_inv s"
  shows "pt_inv s'"
  using assms
proof (induction rule: peers_step.induct)
  case (create s p sh host)
  show ?case
    using pt_inv_dead_update [OF create.prems create.hyps, of "(peerHandleOf s)(p := null_handle)"
        "(hostOf s)(p := host)" "(sharedPeerOf s)(p := Some sh)"] by simp
next
  case (alloc s p s' h)
  then have v: "\<not> handle_valid (peerHandleOf s p)" "sharedPeerOf s p \<noteq> None"
    by (auto simp: PR_Alloc_def PM_Alloc_def run_simps bind_eq_Some_conv Let_def split: if_splits)
  have "\<not> live s p" using v(1) valid_if_live alloc.prems by (auto simp: pt_inv_def)
  then show ?case using PR_Alloc_ok [OF alloc.prems _ v refl] alloc.hyps by auto
next
  case (release s host h s' d)
  then show ?case using PR_Release_cases [OF release.prems release.hyps] PR_Release_live [OF release.prems] by fastforce
next
  case (release_stale s host h s')
  then show ?case using PR_Release_cases [OF release_stale.prems release_stale.hyps] by auto
next
  case (flush_insert i s fl)
  have f: "flush_inv s" using flush_insert.prems by (simp add: pt_inv_def)
  then have "ptf_inv fl" "set (fpeers fl) = insert i (set (fpeers (peersToFlush s)))"
    using InsertPeerToFlush_ok [of "peersToFlush s" i] flush_insert.hyps(3) by (auto simp: flush_inv_def)
  then show ?case using flush_insert f by (intro pt_inv_flush) (auto simp: flush_inv_def)
next
  case (flush_remove s i fl)
  have f: "flush_inv s" using flush_remove.prems by (simp add: pt_inv_def)
  then have "ptf_inv fl" "set (fpeers fl) = set (fpeers (peersToFlush s)) - {i}"
    using RemovePeerToFlush_ok [of "peersToFlush s" i] flush_remove.hyps by (auto simp: flush_inv_def)
  then show ?case using flush_remove f by (intro pt_inv_flush) (auto simp: flush_inv_def)
next
  case (close s p)
  show ?case
    using pt_inv_dead_update [OF close.prems close.hyps, of "(peerHandleOf s)(p := null_handle)"
        "hostOf s" "(sharedPeerOf s)(p := None)"] by (simp add: hostOf_same)
qed

lemma peers_run_inv: "peers_run s i k s' \<Longrightarrow> pt_inv s \<Longrightarrow> pt_inv s'"
  by (induction rule: peers_run.induct) (auto intro: peers_step_inv)

text \<open>What a step does to the versions, and to the handle of a live peer.\<close>

definition step_effect :: "PeerTables \<Rightarrow> nat option \<Rightarrow> PeerTables \<Rightarrow> bool" where
  "step_effect s l s' \<longleftrightarrow> pmLoop s' = pmLoop s \<and>
     (\<forall>i < length (versions s). i < length (versions s') \<and>
        versions s' ! i = (if l = Some i then next_version (versions s ! i) else versions s ! i)) \<and>
     (\<forall>p. live s p \<and> l \<noteq> Some (hid (peerHandleOf s p)) \<longrightarrow> live s' p \<and> peerHandleOf s' p = peerHandleOf s p)"

lemma step_effect_same:
  assumes "versions s' = versions s" "pmPeers s' = pmPeers s" "pmLoop s' = pmLoop s"
    "\<And>p. live s p \<Longrightarrow> peerHandleOf s' p = peerHandleOf s p"
  shows "step_effect s None s'"
  using assms by (auto simp: step_effect_def live_def)

lemma peers_step_effect:
  assumes "peers_step s l s'" "pt_inv s"
  shows "step_effect s l s'"
  using assms
proof (induction rule: peers_step.induct)
  case (create s p sh host)
  then show ?case by (intro step_effect_same) auto
next
  case (alloc s p s' h)
  then have v: "\<not> handle_valid (peerHandleOf s p)" "sharedPeerOf s p \<noteq> None"
    by (auto simp: PR_Alloc_def PM_Alloc_def run_simps bind_eq_Some_conv Let_def split: if_splits)
  have "\<not> live s p" using v(1) valid_if_live alloc.prems by (auto simp: pt_inv_def)
  then show ?case using PR_Alloc_ok [OF alloc.prems _ v refl] alloc.hyps by (auto simp: step_effect_def)
next
  case (release s host h s' d)
  have d: "live s d" "hostOf s d = host" "peerHandleOf s d = h"
    using PR_Release_cases [OF release.prems release.hyps] by auto
  then have "pmLoop s' = pmLoop s" "peerHandleOf s' = peerHandleOf s" "\<And>q. live s' q \<longleftrightarrow> live s q \<and> q \<noteq> d"
    "versions s' = (versions s)[hid h := next_version (versions s ! hid h)]"
    using PR_Release_live [OF release.prems d(1,2)] release.hyps by auto
  then show ?case using d by (auto simp: step_effect_def nth_list_update)
next
  case (release_stale s host h s')
  then show ?case using PR_Release_cases [OF release_stale.prems release_stale.hyps] by (auto intro: step_effect_same)
qed (auto intro!: step_effect_same)

lemma peers_run_effect:
  assumes "peers_run s i k s'" "pt_inv s" "i < length (versions s)"
  shows "pmLoop s' = pmLoop s \<and> i < length (versions s') \<and> versions s' ! i = (next_version ^^ k) (versions s ! i)"
  using assms
proof (induction rule: peers_run.induct)
  case (run_release k t u)
  then show ?case using peers_step_effect [OF run_release.hyps(2)] peers_run_inv [OF run_release.hyps(1)]
    by (auto simp: step_effect_def)
next
  case (run_other k t l u)
  then show ?case using peers_step_effect [OF run_other.hyps(2)] peers_run_inv [OF run_other.hyps(1)]
    by (auto simp: step_effect_def)
qed simp

lemma peers_run_keeps:
  assumes "peers_run s i k s'" "pt_inv s" "live s p" "hid (peerHandleOf s p) = i" "k = 0"
  shows "live s' p \<and> peerHandleOf s' p = peerHandleOf s p"
  using assms
proof (induction rule: peers_run.induct)
  case (run_other k t l u)
  then show ?case using peers_step_effect [OF run_other.hyps(2)] peers_run_inv [OF run_other.hyps(1)]
    by (auto simp: step_effect_def)
qed simp_all

text \<open>The version numbers go round through all non-zero 32-bit values.\<close>

lemma unat_u32: "v \<noteq> 0 \<Longrightarrow> unat (v :: u32) - 1 < 2 ^ 32 - 1 \<and> 0 < unat v"
proof -
  assume "v \<noteq> 0"
  moreover have "unat v < 2 ^ 32" using unsigned_less [of v] by simp
  ultimately show ?thesis by (auto simp: unat_gt_0)
qed

lemma unat_next_version: "v \<noteq> 0 \<Longrightarrow> unat (next_version v) = unat v mod (2 ^ 32 - 1) + 1"
proof (cases "v + 1 = 0")
  case True
  then have "v = - 1" by (simp add: add_eq_0_iff2)
  moreover have "unat (- 1 :: u32) = 2 ^ 32 - 1" by (simp add: unsigned_minus_1_eq_mask mask_eq_exp_minus_1)
  ultimately show ?thesis by (simp add: next_version_def)
next
  case False
  assume v: "v \<noteq> 0"
  have s: "unat (v + 1) = unat v + 1" using unatSuc [of v] False by (simp add: add.commute)
  moreover have "unat (v + 1) < 2 ^ 32" using unsigned_less [of "v + 1"] by simp
  ultimately show ?thesis using False by (simp add: next_version_def)
qed

lemma unat_next_version_pow:
  assumes "v \<noteq> 0"
  shows "(next_version ^^ k) v \<noteq> 0 \<and> unat ((next_version ^^ k) v) = (unat v - 1 + k) mod (2 ^ 32 - 1) + 1"
proof (induction k)
  case 0
  show ?case using assms unat_u32 [OF assms] by simp
next
  case (Suc k)
  then show ?case using unat_next_version [of "(next_version ^^ k) v"] next_version_nonzero
    by (simp add: mod_Suc_eq)
qed

lemma next_version_pow_differs:
  assumes "v \<noteq> 0" "0 < k" "k < 2 ^ 32 - 1"
  shows "(next_version ^^ k) v \<noteq> v"
proof
  assume "(next_version ^^ k) v = v"
  then have "unat v = (unat v - 1 + k) mod (2 ^ 32 - 1) + 1"
    using conjunct2 [OF unat_next_version_pow [OF assms(1), of k]] by metis
  moreover note unat_u32 [OF assms(1)]
  moreover have "(a + k) mod m \<noteq> a" if "a < m" "k < m" for a m :: nat
    using that assms(2) by (cases "a + k < m") (auto simp: mod_if)
  ultimately show False using assms(3) by (metis diff_add_inverse2)
qed

section \<open>Properties\<close>

text \<open>The states that the table of a loop reaches from its construction.\<close>

definition peers_reachable :: "nat \<Rightarrow> PeerTables \<Rightarrow> bool" where
  "peers_reachable loop s \<longleftrightarrow> (\<exists>i k. peers_run (PeerTables_new loop) i k s)"

lemma reachable_inv: "peers_reachable loop s \<Longrightarrow> pt_inv s"
  using peers_run_inv pt_inv_new by (auto simp: peers_reachable_def)

lemma PR_Alloc_returns_handle:
  assumes "pt_inv s" "PR_Alloc s (hostOf s p) p = Some (s', h)"
  shows "live s' p \<and> peerHandleOf s' p = h"
  using PR_Alloc_ok [OF assms(1) _ _ _ refl, of p] peers_step_inv [OF alloc [OF assms(2)] assms(1)]
    valid_if_live [of s p] assms
  by (cases "live s p")
     (auto simp: pt_inv_def PR_Alloc_def PM_Alloc_def run_simps bind_eq_Some_conv Let_def split: if_splits)

text \<open>C4. Stale handles. Take a peer that is in the table of a reachable state. After any further
  run in which its slot is released fewer than 2^32 - 1 times, \<open>ExistsLocal\<close> answers for its handle
  exactly whether the slot has never been released: the handle stays valid until its peer is
  released, and no later peer in the reused slot is ever reached through it. The number of releases
  is bounded by the 32-bit version counter, which skips 0.\<close>
theorem stale_handle_detected:
  assumes "peers_reachable loop s" "live s p" "peers_run s (hid (peerHandleOf s p)) k s'" "k < 2 ^ 32 - 1"
  shows "ExistsLocal s' (peerHandleOf s p) = Some (k = 0)"
proof -
  let ?h = "peerHandleOf s p"
  have inv: "pt_inv s" "pt_inv s'" using assms(1,3) peers_run_inv reachable_inv by blast+
  then have sl: "slots_inv s" "slots_inv s'" by (auto simp: pt_inv_def)
  note l = live_slot [OF sl(1) assms(2)]
  have h: "hversion ?h = versions s ! hid ?h" "hloop ?h = Some (pmLoop s)"
    using arg_cong [OF slots_inv_handle [OF sl(1) l], of hversion] arg_cong [OF slots_inv_handle [OF sl(1) l], of hloop]
    by simp_all
  have i: "hid ?h < length (versions s)" using l(1) sl(1) by (simp add: slots_inv_def)
  have v: "pmLoop s' = pmLoop s" "versions s' ! hid ?h = (next_version ^^ k) (hversion ?h)"
    using peers_run_effect [OF assms(3) inv(1) i] h by simp_all
  have nz: "hversion ?h \<noteq> 0" using valid_if_live [OF sl(1) assms(2)] by (simp add: handle_valid_def)
  have "(\<exists>q. live s' q \<and> peerHandleOf s' q = ?h) \<longleftrightarrow> k = 0"
  proof
    assume "\<exists>q. live s' q \<and> peerHandleOf s' q = ?h"
    then obtain q where q: "live s' q" "peerHandleOf s' q = ?h" by blast
    have "hversion (peerHandleOf s' q) = versions s' ! hid (peerHandleOf s' q)"
      using arg_cong [OF slots_inv_handle [OF sl(2) live_slot [OF sl(2) q(1)]], of hversion] by simp
    then have "(next_version ^^ k) (hversion ?h) = hversion ?h" using q(2) v(2) by simp
    then show "k = 0" using next_version_pow_differs [OF nz _ assms(4)] by auto
  next
    assume "k = 0"
    then show "\<exists>q. live s' q \<and> peerHandleOf s' q = ?h"
      using peers_run_keeps [OF assms(3) inv(1) assms(2) refl] by blast
  qed
  then show ?thesis using ExistsLocal_iff [OF sl(2), of ?h] h(2) v(1) by simp
qed

text \<open>A table in which peer 1 of host 2 (shared peer 3) has been created, allocated and released.\<close>

definition sample_created :: PeerTables where
  "sample_created = (PeerTables_new 7)\<lparr>peerHandleOf := (\<lambda>_. null_handle)(1 := null_handle),
     hostOf := (\<lambda>_. 0)(1 := 2), sharedPeerOf := (\<lambda>_. None)(1 := Some 3)\<rparr>"

definition sample_handle :: PeerHandle where
  "sample_handle = \<lparr>hid = 0, hversion = 1, hloop = Some 7\<rparr>"

definition sample_allocated :: PeerTables where
  "sample_allocated = sample_created\<lparr>pmPeers := [Some 1], versions := [1], perHostOffset := [0],
     peerHandleOf := (peerHandleOf sample_created)(1 := sample_handle),
     sharedHandleOf := (sharedHandleOf sample_created)(3 := sample_handle),
     hostPeers := (hostPeers sample_created)(2 := [1])\<rparr>"

definition sample_released :: PeerTables where
  "sample_released = sample_allocated\<lparr>pmPeers := [None], versions := [2], freeIds := [0], perHostOffset := [- 1],
     hostPeers := (hostPeers sample_allocated)(2 := [])\<rparr>"

lemmas sample_defs = sample_created_def sample_handle_def sample_allocated_def sample_released_def
  PeerTables_new_def null_handle_def

lemma sample_create: "peers_step (PeerTables_new 7) None sample_created"
  using create [of "PeerTables_new 7" 1 3 2] by (simp add: live_def sample_defs)

lemma sample_alloc: "PR_Alloc sample_created 2 1 = Some (sample_allocated, sample_handle)"
  by (simp add: PR_Alloc_def PM_Alloc_def sample_defs handle_valid_def run_simps)

lemma sample_release: "PR_Release sample_allocated 2 sample_handle = Some (sample_released, Some 1)"
  by (simp add: PR_Release_def PM_Release_def ExistsLocal_def RemovePeerToFlush_def sample_defs next_version_def run_simps)

lemma sample_reachable: "peers_reachable 7 sample_allocated"
proof -
  have "peers_run (PeerTables_new 7) 0 0 sample_created" by (rule run_other [OF run_refl sample_create]) simp
  then have "peers_run (PeerTables_new 7) 0 0 sample_allocated"
    by (rule run_other [OF _ alloc [of _ 1]]) (use sample_alloc in \<open>simp_all add: sample_created_def\<close>)
  then show ?thesis by (auto simp: peers_reachable_def)
qed

lemma sample_live: "live sample_allocated 1" "peerHandleOf sample_allocated 1 = sample_handle"
  by (simp_all add: sample_allocated_def live_def)

theorem stale_handle_detected_witness:
  "ExistsLocal sample_allocated sample_handle = Some (0 = (0 :: nat)) \<and>
   ExistsLocal sample_released sample_handle = Some (1 = (0 :: nat))"
proof
  show "ExistsLocal sample_allocated sample_handle = Some (0 = (0 :: nat))"
    using stale_handle_detected [OF sample_reachable sample_live(1) run_refl, unfolded sample_live(2)] by simp
  have "peers_run sample_allocated 0 (Suc 0) sample_released"
    using run_release [OF run_refl release [OF sample_release, unfolded sample_handle_def PeerHandle.simps]] .
  then show "ExistsLocal sample_released sample_handle = Some (1 = (0 :: nat))"
    using stale_handle_detected [OF sample_reachable sample_live(1), of "Suc 0" sample_released, unfolded sample_live(2)]
    by (simp add: sample_handle_def)
qed

text \<open>C12. Every state that the table reaches satisfies its invariant. In particular distinct peers in
  the table have distinct handles, the vector of a host holds each of its peers exactly once and only
  those, and the flush list has no duplicate and names only occupied slots.\<close>
theorem peer_tables_invariant:
  assumes "peers_reachable loop s"
  shows "pt_inv s \<and> inj_on (peerHandleOf s) {p. live s p} \<and>
    (\<forall>host. distinct (hostPeers s host) \<and> set (hostPeers s host) = {p. live s p \<and> hostOf s p = host}) \<and>
    distinct (fpeers (peersToFlush s)) \<and>
    set (fpeers (peersToFlush s)) \<subseteq> (\<lambda>p. hid (peerHandleOf s p)) ` {p. live s p}"
proof -
  have inv: "pt_inv s" by (rule reachable_inv [OF assms])
  then have i: "slots_inv s" "flush_inv s" "hosts_inv s" by (auto simp: pt_inv_def)
  have "inj_on (peerHandleOf s) {p. live s p}" using live_handle_inj [OF i(1)] by (auto intro: inj_onI)
  moreover have "distinct (hostPeers s host) \<and> set (hostPeers s host) = {p. live s p \<and> hostOf s p = host}" for host
  proof -
    have d: "dense (hostPeers s host) (hoff s host)" using i(3) by (simp add: hosts_inv_def)
    have "p \<in> set (hostPeers s host) \<Longrightarrow> live s p \<and> hostOf s p = host" for p
      using dense_mem [OF d, of p] by (auto simp: hoff_def split: if_splits)
    then show ?thesis using dense_distinct [OF d] i(3) by (auto simp: hosts_inv_def)
  qed
  moreover have "\<exists>p. live s p \<and> hid (peerHandleOf s p) = j" if "j \<in> set (fpeers (peersToFlush s))" for j
  proof -
    have "j < length (pmPeers s) \<and> pmPeers s ! j \<noteq> None" using i(2) that by (simp add: flush_inv_def)
    then obtain p where p: "j < length (pmPeers s)" "pmPeers s ! j = Some p" by blast
    then show ?thesis using arg_cong [OF slots_inv_handle [OF i(1) p], of hid] live_nth [OF p] by auto
  qed
  moreover have "distinct (fpeers (peersToFlush s))" using dense_distinct i(2) by (auto simp: flush_inv_def ptf_inv_def)
  ultimately show ?thesis using inv by (simp add: subset_iff image_iff) metis
qed

theorem peer_tables_invariant_witness:
  "hostPeers sample_allocated 2 = [1] \<and> set (hostPeers sample_allocated 2) = {p. live sample_allocated p \<and> hostOf sample_allocated p = 2}"
proof
  show "hostPeers sample_allocated 2 = [1]" by (simp add: sample_allocated_def)
  show "set (hostPeers sample_allocated 2) = {p. live sample_allocated p \<and> hostOf sample_allocated p = 2}"
    using peer_tables_invariant [OF sample_reachable] by blast
qed

lemma GetLocalPeerData_live:
  assumes "slots_inv s" "live s p"
  shows "GetLocalPeerData s (peerHandleOf s p) = Some (Some p)"
  using ExistsLocal_iff [OF assms(1), of "peerHandleOf s p"] valid_if_live [OF assms] live_slot [OF assms] assms(2)
  by (auto simp: GetLocalPeerData_def vget_def)

text \<open>C23. Registration succeeds and interferes with nobody. In a reachable state, allocating a
  constructed peer that has no handle yet meets no assertion and gives it a valid handle under which
  it is found, while every peer of the table is still found under its own handle; releasing the
  handle then returns this peer, and afterwards nothing is found under it while all other peers
  still are.\<close>
theorem alloc_release_roundtrip:
  assumes "peers_reachable loop s" "\<not> handle_valid (peerHandleOf s p)" "sharedPeerOf s p \<noteq> None"
  shows "\<exists>s' h. PR_Alloc s (hostOf s p) p = Some (s', h) \<and> handle_valid h \<and> GetLocalPeerData s' h = Some (Some p) \<and>
    (\<forall>q. live s q \<longrightarrow> q \<noteq> p \<and> GetLocalPeerData s' (peerHandleOf s q) = Some (Some q)) \<and>
    (\<exists>s''. PR_Release s' (hostOf s p) h = Some (s'', Some p) \<and> GetLocalPeerData s'' h = Some None \<and>
       (\<forall>q. live s q \<longrightarrow> GetLocalPeerData s'' (peerHandleOf s q) = Some (Some q)))"
proof -
  have inv: "pt_inv s" by (rule reachable_inv [OF assms(1)])
  have np: "\<not> live s p" using assms(2) valid_if_live inv by (auto simp: pt_inv_def)
  obtain s' h where a: "PR_Alloc s (hostOf s p) p = Some (s', h)" "pt_inv s'"
      "peerHandleOf s' = (peerHandleOf s)(p := h)" "handle_valid h" "\<And>q. live s' q \<longleftrightarrow> live s q \<or> q = p"
    using PR_Alloc_ok [OF inv np assms(2,3) refl] by blast
  have hp: "peerHandleOf s' p = h" "hostOf s' p = hostOf s p"
    using a(3) PR_Alloc_returns_handle [OF inv a(1)] a(1)
    by (auto simp: PR_Alloc_def PM_Alloc_def run_simps bind_eq_Some_conv Let_def split: if_splits)
  have hq: "live s q \<Longrightarrow> peerHandleOf s' q = peerHandleOf s q" for q using a(3) np by auto
  have sl: "slots_inv s'" using a(2) by (simp add: pt_inv_def)
  have lp: "live s' p" by (simp add: a(5))
  obtain s'' where r: "PR_Release s' (hostOf s p) h = Some (s'', Some p)" "pt_inv s''"
      "peerHandleOf s'' = peerHandleOf s'" "\<And>q. live s'' q \<longleftrightarrow> live s' q \<and> q \<noteq> p" "pmLoop s'' = pmLoop s'"
    using PR_Release_live [OF a(2) lp hp(2)] hp(1) by auto
  have sl'': "slots_inv s''" using r(2) by (simp add: pt_inv_def)
  have "hloop h = Some (pmLoop s'')" using valid_if_live [OF sl lp] hp(1) r(5) by simp
  moreover have "\<not> (\<exists>q. live s'' q \<and> peerHandleOf s'' q = h)"
    using live_handle_inj [OF sl _ lp] hp(1) r(3,4) by metis
  ultimately have "GetLocalPeerData s'' h = Some None"
    using ExistsLocal_iff [OF sl'', of h] by (simp only: GetLocalPeerData_def) simp
  moreover have "GetLocalPeerData s'' (peerHandleOf s q) = Some (Some q)" if "live s q" for q
    using GetLocalPeerData_live [OF sl'', of q] hq [OF that] r(3,4) a(5) that np by auto
  moreover have "GetLocalPeerData s' (peerHandleOf s q) = Some (Some q)" if "live s q" for q
    using GetLocalPeerData_live [OF sl, of q] hq [OF that] a(5) that by simp
  ultimately show ?thesis using a(1,4) r(1) GetLocalPeerData_live [OF sl lp] hp(1) np by blast
qed

theorem alloc_release_roundtrip_witness:
  "\<exists>s' h s''. PR_Alloc sample_created 2 1 = Some (s', h) \<and> GetLocalPeerData s' h = Some (Some 1) \<and>
     PR_Release s' 2 h = Some (s'', Some 1) \<and> GetLocalPeerData s'' h = Some None"
proof -
  have "peers_run (PeerTables_new 7) 0 0 sample_created" by (rule run_other [OF run_refl sample_create]) simp
  then have "peers_reachable 7 sample_created" by (auto simp: peers_reachable_def)
  from alloc_release_roundtrip [OF this, of 1] show ?thesis by (auto simp: sample_defs handle_valid_def)
qed

text \<open>A sequence of calls on a flush list (\<open>True\<close>: insert), and what it does to the set of ids.\<close>

fun flush_calls :: "PeersToFlush \<Rightarrow> (bool \<times> nat) list \<Rightarrow> PeersToFlush option" where
  "flush_calls s [] = Some s"
| "flush_calls s ((ins, p) # cs) =
     do { s' \<leftarrow> (if ins then InsertPeerToFlush s p else RemovePeerToFlush s p); flush_calls s' cs }"

fun flush_set :: "nat set \<Rightarrow> (bool \<times> nat) list \<Rightarrow> nat set" where
  "flush_set A [] = A"
| "flush_set A ((ins, p) # cs) = flush_set (if ins then insert p A else A - {p}) cs"

lemma flush_calls_inv:
  assumes "ptf_inv s"
  shows "\<exists>s'. flush_calls s cs = Some s' \<and> ptf_inv s' \<and> set (fpeers s') = flush_set (set (fpeers s)) cs"
  using assms
proof (induction cs arbitrary: s)
  case (Cons c cs)
  obtain ins p where c: "c = (ins, p)" by fastforce
  obtain s1 where "(if ins then InsertPeerToFlush s p else RemovePeerToFlush s p) = Some s1" "ptf_inv s1"
      "set (fpeers s1) = (if ins then insert p (set (fpeers s)) else set (fpeers s) - {p})"
    using InsertPeerToFlush_ok [OF Cons.prems, of p] RemovePeerToFlush_ok [OF Cons.prems, of p] by (cases ins) auto
  then show ?case using Cons.IH [of s1] c by simp
qed simp

text \<open>C27. The flush list implements a set of peer ids: after any calls of \<open>InsertPeerToFlush\<close> and
  \<open>RemovePeerToFlush\<close> on a new list, no call has run out of bounds and the list enumerates the set
  of the inserted and not yet removed ids, each once.\<close>
theorem flush_list_is_set:
  "\<exists>s. flush_calls \<lparr>fpeers = [], foffsets = []\<rparr> cs = Some s \<and> distinct (fpeers s) \<and> set (fpeers s) = flush_set {} cs"
proof -
  have "ptf_inv \<lparr>fpeers = [], foffsets = []\<rparr>" by (simp add: ptf_inv_def dense_def poff_def)
  from flush_calls_inv [OF this, of cs] show ?thesis using dense_distinct by (auto simp: ptf_inv_def)
qed

end
