(* ===== verification/Stats.thy ===== *)
theory Stats
  imports Prelude
begin

text \<open>
  The counters of \<open>src/include/icon7/Stats.hpp\<close>. The inheritance of the structs is record
  extension, so an update of a counter of \<open>PeerStats\<close> applies to all three. The counters are
  64-bit and only ever grow by the number of events and bytes of one run; they are integers here.
\<close>

record PeerStats =
  st_bytesSent :: int
  st_bytesReceived :: int
  st_packetsSent :: int
  st_packetsReceived :: int
  st_framesSent :: int
  st_framesReceived :: int
  st_onWriteable :: int
  st_errorsCount :: int

record HostStats = PeerStats +
  st_timeouts :: int
  st_longTimeouts :: int
  st_connectionsRemoteTotal :: int
  st_connectionsRemoteSuccessfull :: int
  st_connectionsLocalTotal :: int
  st_connectionsLocalSuccessfull :: int
  st_connectionsFailed :: int
  st_disconnectedTotal :: int
  st_disconnectedLocal :: int
  st_disconnectedRemote :: int

record LoopStats = HostStats +
  st_loopWakeups :: int
  st_loopBigIterations :: int
  st_loopTimerWakeups :: int
  st_loopSmallIterations :: int

definition PeerStats_new :: PeerStats where
  "PeerStats_new = \<lparr>st_bytesSent = 0, st_bytesReceived = 0, st_packetsSent = 0, st_packetsReceived = 0,
     st_framesSent = 0, st_framesReceived = 0, st_onWriteable = 0, st_errorsCount = 0\<rparr>"

definition HostStats_new :: HostStats where
  "HostStats_new = PeerStats.extend PeerStats_new (HostStats.fields 0 0 0 0 0 0 0 0 0 0)"

definition LoopStats_new :: LoopStats where
  "LoopStats_new = HostStats.extend HostStats_new (LoopStats.fields 0 0 0 0)"

text \<open>The updates that the code applies to the counters of a peer, its host and its loop alike.\<close>

definition add_error :: "'s PeerStats_scheme \<Rightarrow> 's PeerStats_scheme" where
  "add_error st = st\<lparr>st_errorsCount := st_errorsCount st + 1\<rparr>"

definition add_sent :: "int \<Rightarrow> 's PeerStats_scheme \<Rightarrow> 's PeerStats_scheme" where
  "add_sent b st = st\<lparr>st_bytesSent := st_bytesSent st + b, st_packetsSent := st_packetsSent st + 1\<rparr>"

definition add_frames_sent :: "int \<Rightarrow> 's PeerStats_scheme \<Rightarrow> 's PeerStats_scheme" where
  "add_frames_sent n st = st\<lparr>st_framesSent := st_framesSent st + n\<rparr>"

definition add_received :: "int \<Rightarrow> 's PeerStats_scheme \<Rightarrow> 's PeerStats_scheme" where
  "add_received n st = st\<lparr>st_bytesReceived := st_bytesReceived st + n,
     st_packetsReceived := st_packetsReceived st + 1\<rparr>"

definition add_frame_received :: "'s PeerStats_scheme \<Rightarrow> 's PeerStats_scheme" where
  "add_frame_received st = st\<lparr>st_framesReceived := st_framesReceived st + 1\<rparr>"

end
