(* ===== verification/Peer_Data.thy ===== *)
theory Peer_Data
  imports Frame_Decoder Stats
begin

text \<open>
  The transport independent part of a connection: \<open>Peer\<close> and \<open>PeerData\<close> of
  \<open>src/include/icon7/Peer.hpp\<close> and \<open>src/src/Peer.cpp\<close>, with the frames waiting to be sent of
  \<open>src/include/icon7/SendFrameStruct.hpp\<close>.

  \<open>PeerData\<close> is an abstract class. Its derived classes are record extensions of \<open>PeerData\<close>,
  and the virtual methods that it calls are arguments of the definitions: \<open>tsend\<close> for
  \<open>_InternalSend\<close>, \<open>flushBuf\<close> for \<open>_InternalFlushBufferedSends\<close>, \<open>hasBuf\<close> for
  \<open>_InternalHasBufferedSends\<close> and \<open>backend\<close> for \<open>_InternalOnPacketWithControllSequenceBackend\<close>.
  The locale \<open>transport\<close> states what \<open>PeerData\<close> relies on in them: whatever the transport
  accepts of a frame goes behind the bytes accepted before. The counters of the host and the
  loop are kept in the record, next to those of the peer.

  Sending: no byte of the queued frames is lost, duplicated or reordered by the two queues and
  the partial sends, and a pass over the queues reports success only when it could send
  everything it was allowed to.
\<close>

section \<open>The shared part of a peer\<close>

definition BIT_READY :: u32 where "BIT_READY = 1"
definition BIT_DISCONNECTING :: u32 where "BIT_DISCONNECTING = 2"
definition BIT_CLOSED :: u32 where "BIT_CLOSED = 4"
definition BIT_ERROR_CONNECT :: u32 where "BIT_ERROR_CONNECT = 8"

record Peer =
  peerFlags :: u32
  pstats :: PeerStats

definition Peer_new :: Peer where
  "Peer_new = \<lparr>peerFlags = 0, pstats = PeerStats_new\<rparr>"

record SendFrameStruct =
  fdata :: ByteBufferReadable
  bytesSent :: nat

definition SendFrameStruct_of :: "ByteBufferReadable \<Rightarrow> SendFrameStruct" where
  "SendFrameStruct_of r = \<lparr>fdata = r, bytesSent = 0\<rparr>"

section \<open>The state of a connection\<close>

record PeerData =
  sharedPeer :: "Peer option"
  hostStats :: HostStats
  loopStats :: LoopStats
  globalQueue :: "SendFrameStruct list"
  localQueue :: "SendFrameStruct list"
  localQueueOffset :: nat
  frameDecoder :: FrameDecoder

text \<open>Reading a flag goes through the shared peer.\<close>

definition has_flag :: "u32 \<Rightarrow> 's PeerData_scheme \<Rightarrow> bool option" where
  "has_flag flg s = do { sp \<leftarrow> sharedPeer s; Some (peerFlags sp AND flg \<noteq> 0) }"

definition set_flag :: "u32 \<Rightarrow> 's PeerData_scheme \<Rightarrow> 's PeerData_scheme option" where
  "set_flag flg s = do { sp \<leftarrow> sharedPeer s; Some (s\<lparr>sharedPeer := Some (sp\<lparr>peerFlags := peerFlags sp OR flg\<rparr>)\<rparr>) }"

definition IsReadyToUse :: "'s PeerData_scheme \<Rightarrow> bool option" where "IsReadyToUse = has_flag BIT_READY"
definition IsDisconnecting :: "'s PeerData_scheme \<Rightarrow> bool option" where "IsDisconnecting = has_flag BIT_DISCONNECTING"
definition IsClosed :: "'s PeerData_scheme \<Rightarrow> bool option" where "IsClosed = has_flag BIT_CLOSED"
definition HadConnectError :: "'s PeerData_scheme \<Rightarrow> bool option" where "HadConnectError = has_flag BIT_ERROR_CONNECT"

definition SetReadyToUse :: "'s PeerData_scheme \<Rightarrow> 's PeerData_scheme option" where
  "SetReadyToUse = set_flag BIT_READY"

definition count_error :: "'s PeerData_scheme \<Rightarrow> 's PeerData_scheme option" where
  "count_error s = do { sp \<leftarrow> sharedPeer s;
     Some (s\<lparr>sharedPeer := Some (sp\<lparr>pstats := add_error (pstats sp)\<rparr>),
             hostStats := add_error (hostStats s), loopStats := add_error (loopStats s)\<rparr>) }"

definition count_sent :: "int \<Rightarrow> 's PeerData_scheme \<Rightarrow> 's PeerData_scheme option" where
  "count_sent b s = do { sp \<leftarrow> sharedPeer s;
     Some (s\<lparr>sharedPeer := Some (sp\<lparr>pstats := add_sent b (pstats sp)\<rparr>),
             hostStats := add_sent b (hostStats s), loopStats := add_sent b (loopStats s)\<rparr>) }"

definition count_frames_sent :: "nat \<Rightarrow> 's PeerData_scheme \<Rightarrow> 's PeerData_scheme option" where
  "count_frames_sent n s = do { sp \<leftarrow> sharedPeer s;
     Some (s\<lparr>sharedPeer := Some (sp\<lparr>pstats := add_frames_sent (int n) (pstats sp)\<rparr>),
             hostStats := add_frames_sent (int n) (hostStats s),
             loopStats := add_frames_sent (int n) (loopStats s)\<rparr>) }"

definition count_received :: "nat \<Rightarrow> 's PeerData_scheme \<Rightarrow> 's PeerData_scheme option" where
  "count_received n s = do { sp \<leftarrow> sharedPeer s;
     Some (s\<lparr>sharedPeer := Some (sp\<lparr>pstats := add_received (int n) (pstats sp)\<rparr>),
             hostStats := add_received (int n) (hostStats s),
             loopStats := add_received (int n) (loopStats s)\<rparr>) }"

definition count_frame_received :: "'s PeerData_scheme \<Rightarrow> 's PeerData_scheme option" where
  "count_frame_received s = do { sp \<leftarrow> sharedPeer s;
     Some (s\<lparr>sharedPeer := Some (sp\<lparr>pstats := add_frame_received (pstats sp)\<rparr>),
             hostStats := add_frame_received (hostStats s),
             loopStats := add_frame_received (loopStats s)\<rparr>) }"

section \<open>Sending\<close>

definition HasQueuedSends :: "'s PeerData_scheme \<Rightarrow> bool" where
  "HasQueuedSends s \<longleftrightarrow> localQueueOffset s \<noteq> length (localQueue s) \<or> length (globalQueue s) \<noteq> 0"

text \<open>\<open>PeerData::Send\<close>. The second result tells whether the peer registers itself for flushing
  with its loop (\<open>_InternalInsertPeerToFlush\<close>).\<close>

definition PeerData_Send ::
  "('s PeerData_scheme \<Rightarrow> bool) \<Rightarrow> 's PeerData_scheme \<Rightarrow> ByteBufferReadable \<Rightarrow> ('s PeerData_scheme \<times> bool) option" where
  "PeerData_Send hasBuf s frame =
     do { st \<leftarrow> frame;
          disc \<leftarrow> IsDisconnecting s;
          (if disc then do { s \<leftarrow> count_error s; Some (s, False) }
           else Some (s\<lparr>globalQueue := globalQueue s @ [SendFrameStruct_of (Some st)]\<rparr>,
                      HasQueuedSends s = False \<and> hasBuf s = False)) }"

definition DequeueToLocalQueue :: "'s PeerData_scheme \<Rightarrow> 's PeerData_scheme" where
  "DequeueToLocalQueue s =
     (if length (localQueue s) \<noteq> localQueueOffset s then s
      else let s = (if localQueueOffset s \<noteq> 0 then s\<lparr>localQueueOffset := 0, localQueue := []\<rparr> else s) in
           if globalQueue s = [] then s
           else s\<lparr>localQueue := globalQueue s, globalQueue := localQueue s\<rparr>)"

text \<open>The inner loop of \<open>_InternalFlushQueuedSends\<close>; the first number counts down from
  \<open>maxPacketsToSend - i\<close>. The last result is the value assigned to \<open>ret\<close>, if any.\<close>

fun flush_frames ::
  "('s PeerData_scheme \<Rightarrow> SendFrameStruct \<Rightarrow> bool \<Rightarrow> ('s PeerData_scheme \<times> SendFrameStruct \<times> bool) option) \<Rightarrow>
   nat \<Rightarrow> nat \<Rightarrow> 's PeerData_scheme \<Rightarrow> nat \<Rightarrow> ('s PeerData_scheme \<times> nat \<times> nat \<times> bool option) option" where
  "flush_frames tsend queued 0 s sentFrames = Some (s, 0, sentFrames, None)"
| "flush_frames tsend queued (Suc n) s sentFrames =
     (if length (localQueue s) = localQueueOffset s then Some (s, Suc n, sentFrames, Some True)
      else do { f \<leftarrow> vget (localQueue s) (localQueueOffset s);
                let hasAnyMore = ((of_nat queued - of_nat sentFrames :: u32) > 1);
                (s, f, ok) \<leftarrow> tsend s f hasAnyMore;
                (if ok
                 then do { st \<leftarrow> fdata f;
                           lq \<leftarrow> vset (localQueue s) (localQueueOffset s) (f\<lparr>fdata := None\<rparr>);
                           flush_frames tsend queued n
                             (s\<lparr>localQueue := lq, localQueueOffset := localQueueOffset s + 1\<rparr>) (sentFrames + 1) }
                 else do { lq \<leftarrow> vset (localQueue s) (localQueueOffset s) f;
                           Some (s\<lparr>localQueue := lq\<rparr>, Suc n, sentFrames, Some False) }) })"

definition FlushQueuedSends ::
  "('s PeerData_scheme \<Rightarrow> SendFrameStruct \<Rightarrow> bool \<Rightarrow> ('s PeerData_scheme \<times> SendFrameStruct \<times> bool) option) \<Rightarrow>
   's PeerData_scheme \<Rightarrow> nat \<Rightarrow> ('s PeerData_scheme \<times> bool) option" where
  "FlushQueuedSends tsend s maxPacketsToSend =
     do { let queued = length (globalQueue s) + length (localQueue s) - localQueueOffset s;
          (s, n, sentFrames, r) \<leftarrow> flush_frames tsend queued maxPacketsToSend (DequeueToLocalQueue s) 0;
          (s, sentFrames, ret) \<leftarrow>
            (if r = Some False then Some (s, sentFrames, False)
             else do { (s, n, sentFrames, r) \<leftarrow> flush_frames tsend queued n (DequeueToLocalQueue s) sentFrames;
                       Some (s, sentFrames, r \<noteq> Some False) });
          s \<leftarrow> count_frames_sent sentFrames s;
          Some (s, ret) }"

definition OnWritable ::
  "('s PeerData_scheme \<Rightarrow> SendFrameStruct \<Rightarrow> bool \<Rightarrow> ('s PeerData_scheme \<times> SendFrameStruct \<times> bool) option) \<Rightarrow>
   ('s PeerData_scheme \<Rightarrow> bool) \<Rightarrow> ('s PeerData_scheme \<Rightarrow> bool \<Rightarrow> ('s PeerData_scheme \<times> bool) option) \<Rightarrow>
   's PeerData_scheme \<Rightarrow> ('s PeerData_scheme \<times> bool) option" where
  "OnWritable tsend hasBuf flushBuf s =
     do { ready \<leftarrow> IsReadyToUse s; disc \<leftarrow> IsDisconnecting s; closed \<leftarrow> IsClosed s;
          (if \<not> ready \<or> disc \<or> closed then Some (s, False)
           else do { (s, ret) \<leftarrow> (if HasQueuedSends s then FlushQueuedSends tsend s 384 else Some (s, True));
                     (if hasBuf s then do { (s, r) \<leftarrow> flushBuf s False; Some (s, ret \<and> r) }
                      else Some (s, ret)) }) }"

section \<open>Receiving\<close>

definition OnPacketWithControllSequenceBackend ::
  "'s PeerData_scheme \<Rightarrow> Storage \<Rightarrow> nat \<Rightarrow> 's PeerData_scheme option" where
  "OnPacketWithControllSequenceBackend s buf hdrSize =
     do { vectorCall \<leftarrow> vget (storage_bytes buf) hdrSize; count_error s }"

definition OnPacketWithControllSequence ::
  "('s PeerData_scheme \<Rightarrow> Storage \<Rightarrow> nat \<Rightarrow> 's PeerData_scheme option) \<Rightarrow>
   's PeerData_scheme \<Rightarrow> Storage \<Rightarrow> nat \<Rightarrow> 's PeerData_scheme option" where
  "OnPacketWithControllSequence backend s buf hdrSize =
     do { vectorCall \<leftarrow> vget (storage_bytes buf) hdrSize;
          (if vectorCall \<le> 0x7F then count_error s else backend s buf hdrSize) }"

text \<open>\<open>OnReceive\<close> is the call of \<open>RPCEnvironment::OnReceive\<close>.\<close>

definition OnPacket ::
  "('s PeerData_scheme \<Rightarrow> Storage \<Rightarrow> nat \<Rightarrow> 's PeerData_scheme option) \<Rightarrow>
   ('s PeerData_scheme \<Rightarrow> Storage \<Rightarrow> nat \<Rightarrow> 's PeerData_scheme option) \<Rightarrow>
   's PeerData_scheme \<Rightarrow> Storage \<Rightarrow> nat \<Rightarrow> 's PeerData_scheme option" where
  "OnPacket backend OnReceive s buf hdrSize =
     do { s \<leftarrow> count_frame_received s;
          (if ssize buf = hdrSize then count_error s
           else do { flags \<leftarrow> GetPacketFlags (storage_bytes buf) 0;
                     (if flags AND flag FLAGS_PROTOCOL_CONTROLL_SEQUENCE =
                         flag FLAGS_PROTOCOL_CONTROLL_SEQUENCE
                      then OnPacketWithControllSequence backend s buf hdrSize
                      else OnReceive s buf hdrSize) }) }"

definition OnData ::
  "(nat \<Rightarrow> bytes) \<Rightarrow> ('s PeerData_scheme option \<Rightarrow> Storage \<Rightarrow> nat) \<Rightarrow>
   ('s PeerData_scheme \<Rightarrow> Storage \<Rightarrow> nat \<Rightarrow> 's PeerData_scheme option) \<Rightarrow>
   's PeerData_scheme \<Rightarrow> bytes \<Rightarrow> 's PeerData_scheme option" where
  "OnData A refc onPacket s data =
     do { s \<leftarrow> count_received (length data) s;
          (d, r) \<leftarrow> PushData A (Some (\<lambda>buf h u. (Some buf, u \<bind> (\<lambda>s. onPacket s buf h)))) refc
                     (frameDecoder s) (Some s) data;
          s \<leftarrow> r;
          Some (s\<lparr>frameDecoder := d\<rparr>) }"

section \<open>What is still to be sent\<close>

text \<open>The bytes of a frame that have not been passed on yet, and those of all queued frames.\<close>

definition frest :: "SendFrameStruct \<Rightarrow> bytes" where
  "frest f = (case fdata f of None \<Rightarrow> [] | Some st \<Rightarrow> drop (bytesSent f) (storage_bytes st))"

definition waiting :: "'s PeerData_scheme \<Rightarrow> SendFrameStruct list" where
  "waiting s = drop (localQueueOffset s) (localQueue s) @ globalQueue s"

definition queued_bytes :: "'s PeerData_scheme \<Rightarrow> bytes" where
  "queued_bytes s = concat (map frest (waiting s))"

definition frame_ok :: "SendFrameStruct \<Rightarrow> bool" where
  "frame_ok f \<longleftrightarrow> (\<exists>st. fdata f = Some st \<and> storage_inv st \<and> bytesSent f \<le> ssize st)"

definition queues_ok :: "'s PeerData_scheme \<Rightarrow> bool" where
  "queues_ok s \<longleftrightarrow> sharedPeer s \<noteq> None \<and> localQueueOffset s \<le> length (localQueue s) \<and> list_all frame_ok (waiting s)"

text \<open>\<open>keeps s s'\<close>: the queues, the decoder and the flags are the same.\<close>

definition keeps :: "'s PeerData_scheme \<Rightarrow> 's PeerData_scheme \<Rightarrow> bool" where
  "keeps s s' \<longleftrightarrow> globalQueue s' = globalQueue s \<and> localQueue s' = localQueue s \<and>
     localQueueOffset s' = localQueueOffset s \<and> frameDecoder s' = frameDecoder s \<and>
     map_option peerFlags (sharedPeer s') = map_option peerFlags (sharedPeer s)"

lemma keeps_refl [simp]: "keeps s s" by (simp add: keeps_def)

lemma keeps_trans: "keeps s t \<Longrightarrow> keeps t u \<Longrightarrow> keeps s u" by (simp add: keeps_def)

lemma keeps_queues: "keeps s s' \<Longrightarrow> waiting s' = waiting s \<and> queued_bytes s' = queued_bytes s \<and> queues_ok s' = queues_ok s"
  by (cases "sharedPeer s"; cases "sharedPeer s'") (auto simp: keeps_def waiting_def queued_bytes_def queues_ok_def)

lemma storage_bytes_length: "storage_inv st \<Longrightarrow> length (storage_bytes st) = ssize st"
  by (auto simp: storage_inv_def storage_bytes_def)

lemma frest_new: "frest (SendFrameStruct_of (Some st)) = storage_bytes st"
  by (simp add: frest_def SendFrameStruct_of_def)

lemma frame_ok_new: "storage_inv st \<Longrightarrow> frame_ok (SendFrameStruct_of (Some st))"
  by (simp add: frame_ok_def SendFrameStruct_of_def)

lemma count_simps:
  "sharedPeer s \<noteq> None \<Longrightarrow> \<exists>s'. count_error s = Some s' \<and> keeps s s' \<and> PeerData.more s' = PeerData.more s"
  "sharedPeer s \<noteq> None \<Longrightarrow> \<exists>s'. count_sent b s = Some s' \<and> keeps s s' \<and> PeerData.more s' = PeerData.more s"
  "sharedPeer s \<noteq> None \<Longrightarrow> \<exists>s'. count_frames_sent n s = Some s' \<and> keeps s s' \<and> PeerData.more s' = PeerData.more s"
  by (auto simp: count_error_def count_sent_def count_frames_sent_def keeps_def)

lemma waiting_Dequeue:
  assumes "localQueueOffset s \<le> length (localQueue s)"
  shows "waiting (DequeueToLocalQueue s) = waiting s" "queues_ok (DequeueToLocalQueue s) = queues_ok s"
    "PeerData.more (DequeueToLocalQueue s) = PeerData.more s"
    "sharedPeer (DequeueToLocalQueue s) = sharedPeer s" "frameDecoder (DequeueToLocalQueue s) = frameDecoder s"
    "localQueueOffset (DequeueToLocalQueue s) \<le> length (localQueue (DequeueToLocalQueue s))"
    "localQueueOffset (DequeueToLocalQueue s) = length (localQueue (DequeueToLocalQueue s)) \<longleftrightarrow> waiting s = []"
  using assms by (auto simp: DequeueToLocalQueue_def waiting_def queues_ok_def Let_def)

section \<open>The interface of a transport\<close>

locale transport =
  fixes tsend :: "'s PeerData_scheme \<Rightarrow> SendFrameStruct \<Rightarrow> bool \<Rightarrow> ('s PeerData_scheme \<times> SendFrameStruct \<times> bool) option"
    and hasBuf :: "'s PeerData_scheme \<Rightarrow> bool"
    and flushBuf :: "'s PeerData_scheme \<Rightarrow> bool \<Rightarrow> ('s PeerData_scheme \<times> bool) option"
    and inv :: "'s \<Rightarrow> bool"
    and accepted :: "'s \<Rightarrow> bytes"
  assumes send_law: "inv (PeerData.more s) \<Longrightarrow> sharedPeer s \<noteq> None \<Longrightarrow> frame_ok f \<Longrightarrow>
      \<exists>s' f' r. tsend s f hasMore = Some (s', f', r) \<and> inv (PeerData.more s') \<and> keeps s s' \<and> frame_ok f' \<and>
        fdata f' = fdata f \<and>
        accepted (PeerData.more s') @ frest f' = accepted (PeerData.more s) @ frest f \<and> (r \<longrightarrow> frest f' = [])"
    and flush_law: "inv (PeerData.more s) \<Longrightarrow> sharedPeer s \<noteq> None \<Longrightarrow> hasBuf s \<Longrightarrow>
      \<exists>s' r. flushBuf s hasMore = Some (s', r) \<and> inv (PeerData.more s') \<and> keeps s s' \<and>
        accepted (PeerData.more s') = accepted (PeerData.more s)"
begin

text \<open>Everything that was ever handed over for sending, in order.\<close>

definition "good s \<longleftrightarrow> inv (PeerData.more s) \<and> queues_ok s"

definition "handed s = accepted (PeerData.more s) @ queued_bytes s"

lemma flush_frames_ok:
  assumes "good s"
  shows "\<exists>s' n' k r. flush_frames tsend q n s k0 = Some (s', n', k, r) \<and> good s' \<and> handed s' = handed s \<and>
    map_option peerFlags (sharedPeer s') = map_option peerFlags (sharedPeer s) \<and> frameDecoder s' = frameDecoder s \<and>
    globalQueue s' = globalQueue s \<and> n' + k = n + k0 \<and> n' \<le> n \<and>
    length (waiting s) + k0 = length (waiting s') + k \<and>
    (r = Some True \<longrightarrow> localQueueOffset s' = length (localQueue s')) \<and> (r = None \<longrightarrow> n' = 0)"
  using assms
proof (induction n arbitrary: s k0)
  case 0
  then show ?case by simp
next
  case (Suc n)
  have q: "queues_ok s" "inv (PeerData.more s)" "sharedPeer s \<noteq> None" "localQueueOffset s \<le> length (localQueue s)"
    using Suc.prems by (auto simp: good_def queues_ok_def)
  show ?case
  proof (cases "length (localQueue s) = localQueueOffset s")
    case True
    then show ?thesis using Suc.prems by simp
  next
    case False
    let ?o = "localQueueOffset s" let ?f = "localQueue s ! localQueueOffset s"
    have o: "?o < length (localQueue s)" using False q(4) by simp
    then have w: "waiting s = ?f # drop (Suc ?o) (localQueue s) @ globalQueue s"
      by (simp add: waiting_def Cons_nth_drop_Suc [symmetric])
    then have "frame_ok ?f" using q(1) by (simp add: queues_ok_def)
    from send_law [OF q(2,3) this] obtain t f r where t:
        "tsend s ?f ((of_nat q - of_nat k0 :: u32) > 1) = Some (t, f, r)" "inv (PeerData.more t)" "keeps s t"
        "frame_ok f" "fdata f = fdata ?f"
        "accepted (PeerData.more t) @ frest f = accepted (PeerData.more s) @ frest ?f" "r \<longrightarrow> frest f = []" by blast
    have tk: "localQueue t = localQueue s" "globalQueue t = globalQueue s" "localQueueOffset t = ?o"
        "frameDecoder t = frameDecoder s" "map_option peerFlags (sharedPeer t) = map_option peerFlags (sharedPeer s)"
      using t(3) by (auto simp: keeps_def)
    have sp: "sharedPeer t \<noteq> None" using tk(5) q(3) by auto
    obtain st where st: "fdata f = Some st" using t(4) by (auto simp: frame_ok_def)
    show ?thesis
    proof (cases r)
      case True
      let ?t = "t\<lparr>localQueue := (localQueue s)[?o := f\<lparr>fdata := None\<rparr>], localQueueOffset := ?o + 1\<rparr>"
      have wt: "waiting ?t = drop (Suc ?o) (localQueue s) @ globalQueue s" using tk by (simp add: waiting_def)
      have "good ?t" using q(1) w wt o t(2) sp tk by (simp add: good_def queues_ok_def)
      moreover have tt: "handed ?t = handed s"
        using t(6,7) True unfolding handed_def queued_bytes_def wt w by simp
      moreover have "flush_frames tsend q (Suc n) s k0 = flush_frames tsend q n ?t (k0 + 1)"
        using False o t(1) st True tk by simp
      ultimately show ?thesis using Suc.IH [of ?t "k0 + 1"] tk wt w by auto
    next
      case False
      let ?t = "t\<lparr>localQueue := (localQueue s)[?o := f]\<rparr>"
      have wt: "waiting ?t = f # drop (Suc ?o) (localQueue s) @ globalQueue s"
        using o tk by (simp add: waiting_def Cons_nth_drop_Suc [symmetric])
      have "good ?t" using q(1) w wt o t(2,4) sp tk by (simp add: good_def queues_ok_def)
      moreover have "handed ?t = handed s"
        using t(6) unfolding handed_def queued_bytes_def wt w by (simp del: append_assoc add: append_assoc [symmetric])
      moreover have "flush_frames tsend q (Suc n) s k0 = Some (?t, Suc n, k0, Some False)"
        using \<open>length (localQueue s) \<noteq> ?o\<close> o t(1) False tk by simp
      ultimately show ?thesis using tk wt w by simp
    qed
  qed
qed

lemma good_Dequeue: "good s \<Longrightarrow> good (DequeueToLocalQueue s) \<and> handed (DequeueToLocalQueue s) = handed s"
  using waiting_Dequeue [of s] by (simp add: good_def handed_def queued_bytes_def queues_ok_def)

lemma good_keeps:
  assumes "good s" "keeps s s'" "inv (PeerData.more s')" "accepted (PeerData.more s') = accepted (PeerData.more s)"
  shows "good s'" "handed s' = handed s"
  using assms keeps_queues [OF assms(2)] by (auto simp: good_def handed_def)

lemma count_frames_sent_ok:
  assumes "good s"
  shows "\<exists>s'. count_frames_sent m s = Some s' \<and> good s' \<and> handed s' = handed s \<and> waiting s' = waiting s \<and>
    map_option peerFlags (sharedPeer s') = map_option peerFlags (sharedPeer s) \<and> frameDecoder s' = frameDecoder s"
proof -
  have "sharedPeer s \<noteq> None" using assms by (simp add: good_def queues_ok_def)
  then obtain s' where s': "count_frames_sent m s = Some s'" "keeps s s'" "PeerData.more s' = PeerData.more s"
    using count_simps(3) by blast
  then show ?thesis using assms good_keeps [OF assms s'(2)] keeps_queues [OF s'(2)] by (auto simp: good_def keeps_def)
qed

lemma FlushQueuedSends_ok:
  assumes "good s"
  shows "\<exists>s' r. FlushQueuedSends tsend s n = Some (s', r) \<and> good s' \<and> handed s' = handed s \<and>
    map_option peerFlags (sharedPeer s') = map_option peerFlags (sharedPeer s) \<and> frameDecoder s' = frameDecoder s \<and>
    length (waiting s') \<le> length (waiting s) \<and>
    (r \<longrightarrow> waiting s' = [] \<or> length (waiting s) = length (waiting s') + n)"
proof -
  let ?q = "length (globalQueue s) + length (localQueue s) - localQueueOffset s"
  let ?d = "DequeueToLocalQueue s"
  have off: "localQueueOffset s \<le> length (localQueue s)" using assms by (simp add: good_def queues_ok_def)
  note d = good_Dequeue [OF assms] waiting_Dequeue [OF off]
  obtain t n1 k r where t: "flush_frames tsend ?q n ?d 0 = Some (t, n1, k, r)" "good t" "handed t = handed s"
      "map_option peerFlags (sharedPeer t) = map_option peerFlags (sharedPeer s)" "frameDecoder t = frameDecoder s"
      "n1 + k = n" "length (waiting s) = length (waiting t) + k"
      "r = None \<longrightarrow> n1 = 0" "r = Some True \<longrightarrow> localQueueOffset t = length (localQueue t)"
    using flush_frames_ok [OF conjunct1 [OF d(1)], of ?q n 0] d by auto
  have offt: "localQueueOffset t \<le> length (localQueue t)" using t(2) by (simp add: good_def queues_ok_def)
  note e = good_Dequeue [OF t(2)] waiting_Dequeue [OF offt]
  obtain u n2 k2 r2 where u: "flush_frames tsend ?q n1 (DequeueToLocalQueue t) k = Some (u, n2, k2, r2)" "good u"
      "handed u = handed t"
      "map_option peerFlags (sharedPeer u) = map_option peerFlags (sharedPeer t)" "frameDecoder u = frameDecoder t"
      "n2 + k2 = n1 + k" "length (waiting t) + k = length (waiting u) + k2"
      "r2 = None \<longrightarrow> n2 = 0" "r2 = Some True \<longrightarrow> localQueueOffset u = length (localQueue u)"
      "globalQueue u = globalQueue (DequeueToLocalQueue t)" "n2 \<le> n1"
    using flush_frames_ok [OF conjunct1 [OF e(1)], of ?q n1 k] e by auto
  show ?thesis
  proof (cases "r = Some False")
    case True
    then show ?thesis using t count_frames_sent_ok [OF t(2), of k] by (auto simp: FlushQueuedSends_def)
  next
    case False
    have "FlushQueuedSends tsend s n = count_frames_sent k2 u \<bind> (\<lambda>s'. Some (s', r2 \<noteq> Some False))"
      using False t(1) u(1) by (simp add: FlushQueuedSends_def)
    moreover have "waiting u = [] \<or> length (waiting s) = length (waiting u) + n" if "r2 \<noteq> Some False"
    proof (cases r2)
      case None
      then show ?thesis using u t by simp
    next
      case (Some b)
      then have b: "localQueueOffset u = length (localQueue u)" using u(9) that by auto
      show ?thesis
      proof (cases "r = None")
        case True
        then show ?thesis using Some u(1) t(8) by auto
      next
        case r: False
        then have "localQueueOffset t = length (localQueue t)" using False t(9) by auto
        then have "globalQueue u = []" using u(10) by (simp add: DequeueToLocalQueue_def Let_def)
        then show ?thesis using b by (simp add: waiting_def)
      qed
    qed
    ultimately show ?thesis using count_frames_sent_ok [OF u(2), of k2] u t by (auto simp del: not_None_eq)
  qed
qed

lemma OnWritable_ok:
  assumes "good s"
  shows "\<exists>s' r. OnWritable tsend hasBuf flushBuf s = Some (s', r) \<and> good s' \<and> handed s' = handed s \<and>
    length (waiting s') \<le> length (waiting s) \<and>
    map_option peerFlags (sharedPeer s') = map_option peerFlags (sharedPeer s) \<and> frameDecoder s' = frameDecoder s"
proof -
  obtain sp where sp: "sharedPeer s = Some sp" using assms by (auto simp: good_def queues_ok_def)
  obtain t r where t: "(if HasQueuedSends s then FlushQueuedSends tsend s 384 else Some (s, True)) = Some (t, r)"
      "good t" "handed t = handed s" "map_option peerFlags (sharedPeer t) = map_option peerFlags (sharedPeer s)"
      "frameDecoder t = frameDecoder s" "length (waiting t) \<le> length (waiting s)"
    using FlushQueuedSends_ok [OF assms, of 384] assms by (cases "HasQueuedSends s") auto
  have "sharedPeer t \<noteq> None" "inv (PeerData.more t)" using t(2) by (auto simp: good_def queues_ok_def)
  then obtain u r' where u: "hasBuf t \<Longrightarrow> flushBuf t False = Some (u, r') \<and> inv (PeerData.more u) \<and> keeps t u \<and>
      accepted (PeerData.more u) = accepted (PeerData.more t)"
    using flush_law [of t False] by blast
  show ?thesis
  proof (cases "hasBuf t")
    case True
    then show ?thesis
      using t u [OF True] sp good_keeps [OF t(2), of u] keeps_queues [of t u] assms
      by (auto simp: OnWritable_def IsReadyToUse_def IsDisconnecting_def IsClosed_def has_flag_def keeps_def)
  next
    case False
    then show ?thesis using t sp assms
      by (auto simp: OnWritable_def IsReadyToUse_def IsDisconnecting_def IsClosed_def has_flag_def)
  qed
qed
end

text \<open>A transport that currently accepts whatever it is given.\<close>

locale eager_transport = transport +
  assumes send_true: "inv (PeerData.more s) \<Longrightarrow> sharedPeer s \<noteq> None \<Longrightarrow> frame_ok f \<Longrightarrow>
      tsend s f hasMore = Some (s', f', r) \<Longrightarrow> r"
    and flush_true: "inv (PeerData.more s) \<Longrightarrow> sharedPeer s \<noteq> None \<Longrightarrow> hasBuf s \<Longrightarrow>
      flushBuf s hasMore = Some (s', r) \<Longrightarrow> r \<and> \<not> hasBuf s'"
begin

lemma flush_frames_true:
  assumes "good s" "flush_frames tsend q n s k0 = Some (s', n', k, r)"
  shows "r \<noteq> Some False"
  using assms
proof (induction n arbitrary: s k0)
  case (Suc n)
  show ?case
  proof (cases "length (localQueue s) = localQueueOffset s")
    case True
    then show ?thesis using Suc.prems(2) by auto
  next
    case False
    let ?f = "localQueue s ! localQueueOffset s"
    have o: "localQueueOffset s < length (localQueue s)" "inv (PeerData.more s)" "sharedPeer s \<noteq> None"
      using Suc.prems(1) False by (auto simp: good_def queues_ok_def)
    then have w: "waiting s = ?f # drop (Suc (localQueueOffset s)) (localQueue s) @ globalQueue s"
      by (simp add: waiting_def Cons_nth_drop_Suc [symmetric])
    then have f: "frame_ok ?f" using Suc.prems(1) by (simp add: good_def queues_ok_def)
    from send_law [OF o(2,3) f] obtain t f r where t:
        "tsend s ?f ((of_nat q - of_nat k0 :: u32) > 1) = Some (t, f, r)" "inv (PeerData.more t)" "keeps s t"
        "frame_ok f" by blast
    have r: r using send_true [OF o(2,3) f t(1)] .
    let ?t = "t\<lparr>localQueue := (localQueue s)[localQueueOffset s := f\<lparr>fdata := None\<rparr>],
      localQueueOffset := localQueueOffset s + 1\<rparr>"
    have tk: "localQueue t = localQueue s" "globalQueue t = globalQueue s" "localQueueOffset t = localQueueOffset s"
        "sharedPeer t \<noteq> None"
      using t(3) o(3) by (auto simp: keeps_def)
    have wt: "waiting ?t = drop (Suc (localQueueOffset s)) (localQueue s) @ globalQueue s" using tk by (simp add: waiting_def)
    have "good ?t" using Suc.prems(1) w wt o(1) t(2) tk by (simp add: good_def queues_ok_def)
    moreover obtain st where "fdata f = Some st" using t(4) by (auto simp: frame_ok_def)
    ultimately show ?thesis using Suc.IH [of ?t "k0 + 1"] Suc.prems(2) False o(1) t(1) r tk by simp
  qed
qed simp

lemma FlushQueuedSends_true:
  assumes "good s" "FlushQueuedSends tsend s n = Some (s', r)"
  shows r
proof -
  let ?q = "length (globalQueue s) + length (localQueue s) - localQueueOffset s"
  note d = conjunct1 [OF good_Dequeue [OF assms(1)]]
  obtain t n1 k r1 where t: "flush_frames tsend ?q n (DequeueToLocalQueue s) 0 = Some (t, n1, k, r1)" "good t"
    using flush_frames_ok [OF d, of ?q n 0] by auto
  note e = conjunct1 [OF good_Dequeue [OF t(2)]]
  obtain u n2 k2 r2 where u: "flush_frames tsend ?q n1 (DequeueToLocalQueue t) k = Some (u, n2, k2, r2)"
    using flush_frames_ok [OF e, of ?q n1 k] by auto
  show ?thesis
    using assms(2) t u flush_frames_true [OF d t(1)] flush_frames_true [OF e u]
    by (auto simp: FlushQueuedSends_def bind_eq_Some_conv)
qed

text \<open>One call of \<open>_InternalOnWritable\<close> passes on 384 frames, or all of them.\<close>

lemma OnWritable_progress:
  assumes "good s" "map_option peerFlags (sharedPeer s) = Some BIT_READY"
  shows "\<exists>s'. OnWritable tsend hasBuf flushBuf s = Some (s', True) \<and> good s' \<and> handed s' = handed s \<and>
    map_option peerFlags (sharedPeer s') = Some BIT_READY \<and> \<not> hasBuf s' \<and>
    length (waiting s') \<le> length (waiting s) - 384"
proof -
  obtain t r where t: "(if HasQueuedSends s then FlushQueuedSends tsend s 384 else Some (s, True)) = Some (t, r)"
      "good t" "handed t = handed s" "map_option peerFlags (sharedPeer t) = Some BIT_READY"
      "r \<longrightarrow> waiting t = [] \<or> length (waiting s) = length (waiting t) + 384"
    using FlushQueuedSends_ok [OF assms(1), of 384] assms by (cases "HasQueuedSends s") (auto simp: HasQueuedSends_def waiting_def)
  have r: r using t(1) FlushQueuedSends_true [OF assms(1), of 384] by (cases "HasQueuedSends s") auto
  have tt: "inv (PeerData.more t)" "sharedPeer t \<noteq> None" using t(2) by (auto simp: good_def queues_ok_def)
  have fl: "IsReadyToUse s = Some True" "IsDisconnecting s = Some False" "IsClosed s = Some False"
    using assms(2) by (auto simp: IsReadyToUse_def IsDisconnecting_def IsClosed_def has_flag_def BIT_READY_def
        BIT_DISCONNECTING_def BIT_CLOSED_def)
  show ?thesis
  proof (cases "hasBuf t")
    case True
    from flush_law [OF tt True] obtain u r' where u: "flushBuf t False = Some (u, r')" "inv (PeerData.more u)" "keeps t u"
        "accepted (PeerData.more u) = accepted (PeerData.more t)" by blast
    then have "OnWritable tsend hasBuf flushBuf s = Some (u, True)" "\<not> hasBuf u"
      using fl t(1) r True flush_true [OF tt True u(1)] by (auto simp: OnWritable_def)
    then show ?thesis using t(3-5) r u good_keeps [OF t(2) u(3)] keeps_queues [OF u(3)] by (auto simp: keeps_def)
  next
    case False
    then show ?thesis using fl t r by (auto simp: OnWritable_def)
  qed
qed

end

end
