(* ===== verification/Peer_Tcp.thy ===== *)
theory Peer_Tcp
  imports Peer_Data
begin

text \<open>
  The TCP transport of a peer, \<open>src/src/PeerUStcp.cpp\<close>: small frames are gathered in a write
  buffer, large ones are passed to the socket directly, and the socket may take only a part.

  The socket is third-party code (uSockets). The argument \<open>W\<close> of the definitions stands for
  \<open>us_socket_write\<close>: the result of the \<open>n\<close>-th call for the given bytes and \<open>msg_more\<close> flag,
  negative for an error and otherwise the number of bytes taken. The hypothesis \<open>write_ok\<close> states
  its contract, that it takes at most the bytes it is given. \<open>wire\<close> collects the bytes taken.

  The interpretation \<open>tcp\<close> shows that this transport keeps the order of all bytes, for every
  behaviour of the socket; \<open>tcp_eager\<close> that it makes progress while the socket accepts.
\<close>

section \<open>Model\<close>

record tcpPeer = PeerData +
  socket :: bool
  writeBuffer :: ByteBufferWritable
  writeBufferOffset :: nat
  wire :: bytes
  writes :: nat

type_synonym us_write = "nat \<Rightarrow> bytes \<Rightarrow> bool \<Rightarrow> int"

definition us_socket_write :: "us_write \<Rightarrow> 's tcpPeer_scheme \<Rightarrow> bytes \<Rightarrow> bool \<Rightarrow> ('s tcpPeer_scheme \<times> int) option" where
  "us_socket_write W s data hasMore =
     do { cassert (socket s);
          let b = W (writes s) data hasMore;
          Some (s\<lparr>wire := wire s @ take (nat b) data, writes := writes s + 1\<rparr>, b) }"

definition tcp_HasBufferedSends :: "'s tcpPeer_scheme \<Rightarrow> bool" where
  "tcp_HasBufferedSends s \<longleftrightarrow> writeBufferOffset s < bsize (writeBuffer s)"

definition tcp_FlushBufferedSends :: "us_write \<Rightarrow> 's tcpPeer_scheme \<Rightarrow> bool \<Rightarrow> ('s tcpPeer_scheme \<times> bool) option" where
  "tcp_FlushBufferedSends W s hasMore =
     (let bytesToSend = int (bsize (writeBuffer s)) - int (writeBufferOffset s) in
      if bytesToSend > 0
      then do { (s, b) \<leftarrow> us_socket_write W s (drop (writeBufferOffset s) (contents (writeBuffer s))) hasMore;
                (if b < 0 then do { s \<leftarrow> count_error s; Some (s, False) }
                 else if b > 0
                 then do { s \<leftarrow> count_sent b s;
                           let s = s\<lparr>writeBufferOffset := writeBufferOffset s + nat b\<rparr>;
                           (if bsize (writeBuffer s) = writeBufferOffset s
                            then do { w \<leftarrow> clear (writeBuffer s);
                                      Some (s\<lparr>writeBuffer := w, writeBufferOffset := 0\<rparr>, True) }
                            else Some (s, False)) }
                 else Some (s, False)) }
      else Some (s, False))"

text \<open>The three ways of \<open>_InternalSend\<close> to pass on the bytes \<open>data\<close> of the frame.\<close>

definition send_direct ::
  "us_write \<Rightarrow> 's tcpPeer_scheme \<Rightarrow> SendFrameStruct \<Rightarrow> Storage \<Rightarrow> bool \<Rightarrow> ('s tcpPeer_scheme \<times> SendFrameStruct \<times> bool) option" where
  "send_direct W s f st hasMore =
     do { (s, b) \<leftarrow> us_socket_write W s (drop (bytesSent f) (storage_bytes st)) hasMore;
          (if b < 0 then do { s \<leftarrow> count_error s; Some (s, f, \<not> bytesSent f < ssize st) }
           else if b > 0
           then (let f = f\<lparr>bytesSent := bytesSent f + nat b\<rparr> in Some (s, f, \<not> bytesSent f < ssize st))
           else Some (s, f, False)) }"

definition buffer_bytes ::
  "(nat \<Rightarrow> bytes) \<Rightarrow> 's tcpPeer_scheme \<Rightarrow> SendFrameStruct \<Rightarrow> Storage \<Rightarrow> nat \<Rightarrow> ('s tcpPeer_scheme \<times> SendFrameStruct) option" where
  "buffer_bytes A s f st n =
     do { w \<leftarrow> append_bytes A (writeBuffer s) (take n (drop (bytesSent f) (storage_bytes st)));
          Some (s\<lparr>writeBuffer := w\<rparr>, f\<lparr>bytesSent := bytesSent f + n\<rparr>) }"

partial_function (option) tcp_Send ::
  "(nat \<Rightarrow> bytes) \<Rightarrow> us_write \<Rightarrow> 's tcpPeer_scheme \<Rightarrow> SendFrameStruct \<Rightarrow> bool \<Rightarrow>
   ('s tcpPeer_scheme \<times> SendFrameStruct \<times> bool) option" where
  "tcp_Send A W s f hasMore =
     (if \<not> socket s then Some (s, f, False)
      else do {
        (s, b) \<leftarrow> (if bsize (writeBuffer s) = bcapacity (writeBuffer s) then tcp_FlushBufferedSends W s True
                   else Some (s, True));
        (if b = False then Some (s, f, False)
         else do {
           st \<leftarrow> fdata f;
           (if bytesSent f < ssize st
            then let bytesToWrite = ssize st - bytesSent f in
              if bsize (writeBuffer s) = writeBufferOffset s \<and> (bytesToWrite > 1200 \<or> hasMore = False)
              then send_direct W s f st hasMore
              else if bsize (writeBuffer s) + bytesToWrite \<le> bcapacity (writeBuffer s)
              then do { (s, f) \<leftarrow> buffer_bytes A s f st bytesToWrite;
                        (if hasMore = False \<or> bsize (writeBuffer s) = bcapacity (writeBuffer s)
                         then do { (s, r) \<leftarrow> tcp_FlushBufferedSends W s hasMore; Some (s, f, r) }
                         else Some (s, f, True)) }
              else do { (s, f) \<leftarrow> buffer_bytes A s f st
                          (min bytesToWrite (bcapacity (writeBuffer s) - bsize (writeBuffer s)));
                        (s, canWriteMore) \<leftarrow> tcp_FlushBufferedSends W s True;
                        (if canWriteMore = False then Some (s, f, False)
                         else tcp_Send A W s f hasMore) }
            else Some (s, f, True)) }) })"

definition tcpPeer_new :: "(nat \<Rightarrow> bytes) \<Rightarrow> HostStats \<Rightarrow> LoopStats \<Rightarrow> bool \<Rightarrow> tcpPeer option" where
  "tcpPeer_new A hs ls sock =
     do { w \<leftarrow> reserve A BBW_null (4096 - 32);
          Some \<lparr>sharedPeer = Some Peer_new, hostStats = hs, loopStats = ls, globalQueue = [], localQueue = [],
                localQueueOffset = 0, frameDecoder = FrameDecoder_new, socket = sock, writeBuffer = w,
                writeBufferOffset = 0, wire = [], writes = 0\<rparr> }"

definition tcp_OnWritable :: "(nat \<Rightarrow> bytes) \<Rightarrow> us_write \<Rightarrow> 's tcpPeer_scheme \<Rightarrow> ('s tcpPeer_scheme \<times> bool) option" where
  "tcp_OnWritable A W = OnWritable (tcp_Send A W) tcp_HasBufferedSends (tcp_FlushBufferedSends W)"

definition tcp_PeerData_Send :: "'s tcpPeer_scheme \<Rightarrow> ByteBufferReadable \<Rightarrow> ('s tcpPeer_scheme \<times> bool) option" where
  "tcp_PeerData_Send = PeerData_Send tcp_HasBufferedSends"

section \<open>Invariant\<close>

definition write_ok :: "us_write \<Rightarrow> bool" where
  "write_ok W \<longleftrightarrow> (\<forall>n data hm. W n data hm \<le> int (length data))"

definition accepts_all :: "us_write \<Rightarrow> bool" where
  "accepts_all W \<longleftrightarrow> (\<forall>n data hm. W n data hm = int (length data))"

definition wb_ok :: "ByteBufferWritable \<Rightarrow> bool" where
  "wb_ok b \<longleftrightarrow> bw_inv b \<and> buffer b \<noteq> None \<and> boffset b = 32 \<and> 0 < bcapacity b \<and> bcapacity b \<le> size_limit"

definition tcp_ok :: "'s tcpPeer_scheme \<Rightarrow> bool" where
  "tcp_ok s \<longleftrightarrow> socket s \<and> wb_ok (writeBuffer s) \<and> writeBufferOffset s \<le> bsize (writeBuffer s) \<and>
     (bsize (writeBuffer s) = writeBufferOffset s \<longrightarrow> writeBufferOffset s = 0)"

definition tcp_accepted :: "'s tcpPeer_scheme \<Rightarrow> bytes" where
  "tcp_accepted s = wire s @ drop (writeBufferOffset s) (contents (writeBuffer s))"

lemma wb_ok_size: "wb_ok b \<Longrightarrow> bsize b \<le> bcapacity b \<and> length (contents b) = bsize b"
  by (auto simp: wb_ok_def bw_inv_Some length_contents)

lemma wb_ok_clear: "wb_ok b \<Longrightarrow> \<exists>b'. clear b = Some b' \<and> wb_ok b' \<and> contents b' = [] \<and> bsize b' = 0 \<and> bcapacity b' = bcapacity b"
  by (auto simp: wb_ok_def clear_def bw_inv_Some contents_Some INITIAL_DATA_OFFSET_def)

lemma wb_ok_append:
  assumes "wb_ok b" "bsize b + length xs \<le> bcapacity b"
  shows "\<exists>b'. append_bytes A b xs = Some b' \<and> wb_ok b' \<and> contents b' = contents b @ xs \<and>
    bsize b' = bsize b + length xs \<and> bcapacity b' = bcapacity b"
proof -
  have "bsize b + length xs < 2 ^ 30" using assms by (auto simp: wb_ok_def size_limit_def)
  then obtain b' where b': "append_bytes A b xs = Some b'" "bw_inv b'" "contents b' = contents b @ xs"
      "bcapacity b' = bcapacity b" "boffset b' = boffset b" "buffer b' = None \<longleftrightarrow> buffer b = None"
    using append_with_fit [of b xs "reserve_or_shrink A"] assms by (auto simp: append_bytes_def wb_ok_def)
  then show ?thesis using assms length_contents [of b] length_contents [of b'] by (auto simp: wb_ok_def)
qed

text \<open>Steps that leave the TCP part alone.\<close>

lemma more_tcp:
  assumes "PeerData.more (s' :: 's tcpPeer_scheme) = PeerData.more s"
  shows "socket s' = socket s" "writeBuffer s' = writeBuffer s" "writeBufferOffset s' = writeBufferOffset s"
    "wire s' = wire s" "writes s' = writes s"
  using assms by (cases s; cases s'; simp)+

lemma count_tcp:
  assumes "sharedPeer (s :: 's tcpPeer_scheme) \<noteq> None"
  shows "\<exists>s'. count_error s = Some s' \<and> keeps s s' \<and> socket s' = socket s \<and> writeBuffer s' = writeBuffer s \<and>
      writeBufferOffset s' = writeBufferOffset s \<and> wire s' = wire s"
    "\<exists>s'. count_sent b s = Some s' \<and> keeps s s' \<and> socket s' = socket s \<and> writeBuffer s' = writeBuffer s \<and>
      writeBufferOffset s' = writeBufferOffset s \<and> wire s' = wire s"
  using count_simps(1,2) [OF assms] more_tcp by metis+

lemma keeps_tcp_update [simp]:
  "keeps s (s'\<lparr>wire := w, writes := n\<rparr>) = keeps s s'" "keeps s (s'\<lparr>writeBuffer := b\<rparr>) = keeps s s'"
  "keeps s (s'\<lparr>writeBufferOffset := n\<rparr>) = keeps s s'" "keeps (s\<lparr>wire := w, writes := n\<rparr>) s' = keeps s s'"
  "keeps (s\<lparr>writeBuffer := b\<rparr>) s' = keeps s s'"
  by (simp_all add: keeps_def)

lemma us_socket_write_ok:
  assumes "write_ok W" "socket s"
  obtains t b where "us_socket_write W s data hm = Some (t, b)" "keeps s t" "sharedPeer t = sharedPeer s"
    "socket t" "writeBuffer t = writeBuffer s" "writeBufferOffset t = writeBufferOffset s"
    "wire t = wire s @ take (nat b) data" "b \<le> int (length data)" "accepts_all W \<Longrightarrow> b = int (length data)"
proof -
  let ?b = "W (writes s) data hm"
  have "us_socket_write W s data hm = Some (s\<lparr>wire := wire s @ take (nat ?b) data, writes := writes s + 1\<rparr>, ?b)"
    using assms(2) by (simp add: us_socket_write_def Let_def)
  moreover have "?b \<le> int (length data)" using assms(1) unfolding write_ok_def by blast
  moreover have "accepts_all W \<Longrightarrow> ?b = int (length data)" unfolding accepts_all_def by blast
  ultimately show ?thesis using that assms(2) by simp
qed

section \<open>The write buffer\<close>

text \<open>Moving the offset of the write buffer past bytes the socket took; a buffer sent to its end is cleared.\<close>

lemma advance_offset_ok:
  assumes "socket u" "wb_ok (writeBuffer u)" "writeBufferOffset u + n \<le> bsize (writeBuffer u)"
  shows "\<exists>v r. (let s = u\<lparr>writeBufferOffset := writeBufferOffset u + n\<rparr> in
        (if bsize (writeBuffer s) = writeBufferOffset s
         then do { w \<leftarrow> clear (writeBuffer s); Some (s\<lparr>writeBuffer := w, writeBufferOffset := 0\<rparr>, True) }
         else Some (s, False))) = Some (v, r) \<and> tcp_ok v \<and> keeps u v \<and>
    tcp_accepted v = wire u @ drop (writeBufferOffset u + n) (contents (writeBuffer u)) \<and>
    bcapacity (writeBuffer v) = bcapacity (writeBuffer u) \<and> (r \<longrightarrow> bsize (writeBuffer v) = 0) \<and>
    r = (bsize (writeBuffer u) = writeBufferOffset u + n)"
proof (cases "bsize (writeBuffer u) = writeBufferOffset u + n")
  case True
  obtain w where "clear (writeBuffer u) = Some w" "wb_ok w" "contents w = []" "bsize w = 0" "bcapacity w = bcapacity (writeBuffer u)"
    using wb_ok_clear [OF assms(2)] by blast
  moreover have "drop (writeBufferOffset u + n) (contents (writeBuffer u)) = []" using wb_ok_size [OF assms(2)] True by simp
  ultimately show ?thesis using assms(1) True by (auto simp: tcp_ok_def keeps_def tcp_accepted_def)
next
  case False
  then show ?thesis using assms by (auto simp: tcp_ok_def keeps_def tcp_accepted_def)
qed

lemma tcp_Flush_ok:
  assumes "write_ok W" "tcp_ok s" "sharedPeer s \<noteq> None"
  shows "\<exists>s' r. tcp_FlushBufferedSends W s hm = Some (s', r) \<and> tcp_ok s' \<and> keeps s s' \<and>
    tcp_accepted s' = tcp_accepted s \<and> bcapacity (writeBuffer s') = bcapacity (writeBuffer s) \<and>
    (r \<longrightarrow> bsize (writeBuffer s') = 0) \<and> (accepts_all W \<longrightarrow> r = tcp_HasBufferedSends s)"
proof (cases "writeBufferOffset s < bsize (writeBuffer s)")
  case False
  then have "tcp_FlushBufferedSends W s hm = Some (s, False)" by (simp add: tcp_FlushBufferedSends_def)
  then show ?thesis using assms False by (auto simp: tcp_HasBufferedSends_def)
next
  case True
  let ?o = "writeBufferOffset s" let ?w = "writeBuffer s"
  define d where "d = drop ?o (contents ?w)"
  have wb: "wb_ok ?w" "socket s" using assms(2) by (auto simp: tcp_ok_def)
  have len: "length d = bsize ?w - ?o" using wb_ok_size [OF wb(1)] by (simp add: d_def)
  obtain t b where t: "us_socket_write W s d hm = Some (t, b)" "keeps s t" "sharedPeer t = sharedPeer s"
      "socket t" "writeBuffer t = ?w" "writeBufferOffset t = ?o" "wire t = wire s @ take (nat b) d"
      "b \<le> int (length d)" "accepts_all W \<Longrightarrow> b = int (length d)"
    using us_socket_write_ok [OF assms(1) wb(2), of d hm] by metis
  have sp: "sharedPeer t \<noteq> None" using t(3) assms(3) by simp
  have has: "tcp_HasBufferedSends s" using True by (simp add: tcp_HasBufferedSends_def)
  have body: "tcp_FlushBufferedSends W s hm = (if b < 0 then do { s \<leftarrow> count_error t; Some (s, False) }
                 else if b > 0
                 then do { s \<leftarrow> count_sent b t;
                           let s = s\<lparr>writeBufferOffset := writeBufferOffset s + nat b\<rparr>;
                           (if bsize (writeBuffer s) = writeBufferOffset s
                            then do { w \<leftarrow> clear (writeBuffer s);
                                      Some (s\<lparr>writeBuffer := w, writeBufferOffset := 0\<rparr>, True) }
                            else Some (s, False)) }
                 else Some (t, False))"
    using True t(1) by (simp add: tcp_FlushBufferedSends_def d_def)
  have same: "tcp_ok u \<and> tcp_accepted u = tcp_accepted s \<and> bcapacity (writeBuffer u) = bcapacity ?w"
    if "socket u" "writeBuffer u = ?w" "writeBufferOffset u = ?o" "wire u = wire s" for u :: "'a tcpPeer_scheme"
    using that assms(2) by (simp add: tcp_ok_def tcp_accepted_def)
  consider "b < 0" | "b = 0" | "0 < b" by linarith
  then show ?thesis
  proof cases
    case 1
    obtain u where u: "count_error t = Some u" "keeps t u" "socket u" "writeBuffer u = ?w" "writeBufferOffset u = ?o"
        "wire u = wire s"
      using count_tcp(1) [OF sp] t 1 by auto
    then show ?thesis using 1 body same [of u] keeps_trans [OF t(2) u(2)] t(9) len True by auto
  next
    case 2
    then show ?thesis using body same [of t] t len True by auto
  next
    case 3
    obtain u where u: "count_sent b t = Some u" "keeps t u" "socket u" "writeBuffer u = ?w" "writeBufferOffset u = ?o"
        "wire u = wire s @ take (nat b) d"
      using count_tcp(2) [OF sp] t by metis
    have le: "writeBufferOffset u + nat b \<le> bsize (writeBuffer u)" unfolding u(4,5) using len t(8) 3 True by linarith
    obtain v r where v: "tcp_FlushBufferedSends W s hm = Some (v, r)" "tcp_ok v" "keeps u v"
        "tcp_accepted v = wire u @ drop (?o + nat b) (contents ?w)" "bcapacity (writeBuffer v) = bcapacity ?w"
        "r \<longrightarrow> bsize (writeBuffer v) = 0" "r = (bsize ?w = ?o + nat b)"
      using advance_offset_ok [OF u(3) _ le] wb(1) body 3 u(1,4,5) by auto
    have "tcp_accepted v = tcp_accepted s"
      using u(6) v(4) by (simp add: tcp_accepted_def d_def drop_take_append [symmetric])
    moreover have "accepts_all W \<longrightarrow> r" using t(9) len True v(7) by auto
    ultimately show ?thesis using v keeps_trans [OF keeps_trans [OF t(2) u(2)] v(3)] has by auto
  qed
qed

section \<open>Sending a frame\<close>

text \<open>What \<open>_InternalSend\<close> guarantees, as a relation between the states and the frame before and after.\<close>

definition send_spec :: "us_write \<Rightarrow> 's tcpPeer_scheme \<Rightarrow> SendFrameStruct \<Rightarrow> 's tcpPeer_scheme \<Rightarrow> SendFrameStruct \<Rightarrow> bool \<Rightarrow> bool" where
  "send_spec W s f s' f' r \<longleftrightarrow> tcp_ok s' \<and> keeps s s' \<and> frame_ok f' \<and> fdata f' = fdata f \<and>
     tcp_accepted s' @ frest f' = tcp_accepted s @ frest f \<and> (r \<longrightarrow> frest f' = []) \<and> (accepts_all W \<longrightarrow> r)"

lemma send_spec_trans:
  assumes "tcp_ok t" "keeps s t" "fdata g = fdata f" "tcp_accepted t @ frest g = tcp_accepted s @ frest f"
    "send_spec W t g s' f' r"
  shows "send_spec W s f s' f' r"
  using assms keeps_trans [of s t s'] by (auto simp: send_spec_def)

lemma frest_Some: "fdata f = Some st \<Longrightarrow> frest f = drop (bytesSent f) (storage_bytes st)"
  by (simp add: frest_def)

lemma send_direct_ok:
  assumes "write_ok W" "tcp_ok s" "sharedPeer s \<noteq> None" "fdata f = Some st" "storage_inv st" "bytesSent f < ssize st"
    "bsize (writeBuffer s) = writeBufferOffset s"
  shows "\<exists>s' f' r. send_direct W s f st hm = Some (s', f', r) \<and> send_spec W s f s' f' r"
proof -
  define d where "d = drop (bytesSent f) (storage_bytes st)"
  have sock: "socket s" using assms(2) by (simp add: tcp_ok_def)
  have len: "length d = ssize st - bytesSent f" using storage_bytes_length [OF assms(5)] by (simp add: d_def)
  obtain t b where t: "us_socket_write W s d hm = Some (t, b)" "keeps s t" "sharedPeer t = sharedPeer s"
      "socket t" "writeBuffer t = writeBuffer s" "writeBufferOffset t = writeBufferOffset s"
      "wire t = wire s @ take (nat b) d" "b \<le> int (length d)" "accepts_all W \<Longrightarrow> b = int (length d)"
    using us_socket_write_ok [OF assms(1) sock, of d hm] by metis
  have emp: "drop (writeBufferOffset s) (contents (writeBuffer s)) = []"
    using assms(2,7) wb_ok_size [of "writeBuffer s"] by (simp add: tcp_ok_def)
  have rest: "frest f = d" unfolding d_def by (rule frest_Some [OF assms(4)])
  have fok: "frame_ok f" using assms(4-6) by (simp add: frame_ok_def)
  have tok: "tcp_ok u" if "socket u" "writeBuffer u = writeBuffer s" "writeBufferOffset u = writeBufferOffset s"
    for u :: "'a tcpPeer_scheme" using that assms(2) by (simp add: tcp_ok_def)
  have body: "send_direct W s f st hm = (if b < 0 then do { s \<leftarrow> count_error t; Some (s, f, False) }
           else if b > 0
           then Some (t, f\<lparr>bytesSent := bytesSent f + nat b\<rparr>, \<not> bytesSent f + nat b < ssize st)
           else Some (t, f, False))"
    using t(1) assms(6) by (simp add: send_direct_def d_def Let_def)
  consider "b < 0" | "b = 0" | "0 < b" by linarith
  then show ?thesis
  proof cases
    case 1
    have sp: "sharedPeer t \<noteq> None" using t(3) assms(3) by simp
    obtain u where u: "count_error t = Some u" "keeps t u" "socket u" "writeBuffer u = writeBuffer s"
        "writeBufferOffset u = writeBufferOffset s" "wire u = wire s"
      using count_tcp(1) [OF sp] t 1 by auto
    have "send_spec W s f u f False"
      using u tok [of u] fok keeps_trans [OF t(2) u(2)] t(9) 1 by (auto simp: send_spec_def tcp_accepted_def)
    then show ?thesis using body 1 u(1) by auto
  next
    case 2
    then have "send_spec W s f t f False"
      using t tok [of t] fok len assms(6) by (auto simp: send_spec_def tcp_accepted_def)
    then show ?thesis using body 2 by auto
  next
    case 3
    let ?f = "f\<lparr>bytesSent := bytesSent f + nat b\<rparr>"
    have le: "bytesSent f + nat b \<le> ssize st" using t(8) len assms(6) 3 by linarith
    have r: "frest ?f = drop (nat b) d" using assms(4) by (simp add: frest_def d_def add.commute)
    have "tcp_accepted t @ frest ?f = tcp_accepted s @ frest f"
      using emp t by (simp add: tcp_accepted_def r rest)
    moreover have "\<not> bytesSent f + nat b < ssize st \<Longrightarrow> frest ?f = []" unfolding r using len le by simp
    moreover have "accepts_all W \<Longrightarrow> \<not> bytesSent f + nat b < ssize st" using t(9) len by simp
    moreover have "frame_ok ?f" using assms(4,5) le by (simp add: frame_ok_def)
    ultimately have "send_spec W s f t ?f (\<not> bytesSent f + nat b < ssize st)"
      using tok [of t] t by (simp add: send_spec_def)
    then show ?thesis using body 3 by auto
  qed
qed

lemma buffer_bytes_ok:
  assumes "tcp_ok s" "fdata f = Some st" "storage_inv st" "bytesSent f + n \<le> ssize st" "0 < n"
    "bsize (writeBuffer s) + n \<le> bcapacity (writeBuffer s)"
  shows "\<exists>s' f'. buffer_bytes A s f st n = Some (s', f') \<and> tcp_ok s' \<and> keeps s s' \<and> sharedPeer s' = sharedPeer s \<and>
    fdata f' = fdata f \<and> bytesSent f' = bytesSent f + n \<and> tcp_accepted s' @ frest f' = tcp_accepted s @ frest f \<and>
    bsize (writeBuffer s') = bsize (writeBuffer s) + n \<and> bcapacity (writeBuffer s') = bcapacity (writeBuffer s) \<and>
    writeBufferOffset s' < bsize (writeBuffer s')"
proof -
  let ?d = "drop (bytesSent f) (storage_bytes st)"
  have wb: "wb_ok (writeBuffer s)" "writeBufferOffset s \<le> bsize (writeBuffer s)" using assms(1) by (auto simp: tcp_ok_def)
  have len: "length (take n ?d) = n" using storage_bytes_length [OF assms(3)] assms(4) by simp
  then obtain w where w: "append_bytes A (writeBuffer s) (take n ?d) = Some w" "wb_ok w"
      "contents w = contents (writeBuffer s) @ take n ?d" "bsize w = bsize (writeBuffer s) + n"
      "bcapacity w = bcapacity (writeBuffer s)"
    using wb_ok_append [OF wb(1), of "take n ?d" A] assms(6) by auto
  have "drop (writeBufferOffset s) (contents w) = drop (writeBufferOffset s) (contents (writeBuffer s)) @ take n ?d"
    using wb wb_ok_size [OF wb(1)] w(3) by simp
  moreover have "take n ?d @ drop (bytesSent f + n) (storage_bytes st) = ?d" by (rule drop_take_append [symmetric])
  ultimately show ?thesis using w wb assms
    by (auto simp: buffer_bytes_def tcp_ok_def tcp_accepted_def frest_Some simp del: drop_append)
qed

text \<open>Copying a part of the frame to the write buffer, and flushing the buffer.\<close>

lemma buffer_flush_ok:
  assumes "write_ok W" "tcp_ok t" "sharedPeer t \<noteq> None" "fdata f = Some st" "storage_inv st" "bytesSent f + n \<le> ssize st" "0 < n"
    "bsize (writeBuffer t) + n \<le> bcapacity (writeBuffer t)"
  obtains u g v r where "buffer_bytes A t f st n = Some (u, g)" "tcp_ok u" "keeps t u" "frame_ok g" "fdata g = fdata f"
    "bytesSent g = bytesSent f + n" "length (frest g) = ssize st - bytesSent g"
    "tcp_accepted u @ frest g = tcp_accepted t @ frest f"
    "tcp_FlushBufferedSends W u hm = Some (v, r)" "tcp_ok v" "keeps t v" "sharedPeer v \<noteq> None"
    "tcp_accepted v @ frest g = tcp_accepted t @ frest f" "accepts_all W \<longrightarrow> r"
proof -
  obtain u g where u: "buffer_bytes A t f st n = Some (u, g)" "tcp_ok u" "keeps t u" "sharedPeer u = sharedPeer t"
      "fdata g = fdata f" "bytesSent g = bytesSent f + n" "tcp_accepted u @ frest g = tcp_accepted t @ frest f"
      "writeBufferOffset u < bsize (writeBuffer u)"
    using buffer_bytes_ok [OF assms(2,4-8), of A] by auto
  have g: "frame_ok g" "length (frest g) = ssize st - bytesSent g"
    using u(5,6) assms(4-6) storage_bytes_length [OF assms(5)] by (simp_all add: frame_ok_def frest_def)
  obtain v r where v: "tcp_FlushBufferedSends W u hm = Some (v, r)" "tcp_ok v" "keeps u v"
      "tcp_accepted v = tcp_accepted u" "accepts_all W \<longrightarrow> r"
    using tcp_Flush_ok [OF assms(1) u(2), of hm] u(4,8) assms(3) by (auto simp: tcp_HasBufferedSends_def)
  have "keeps t v" "sharedPeer v \<noteq> None" using keeps_trans [OF u(3) v(3)] assms(3) by (auto simp: keeps_def)
  then show ?thesis using that [OF u(1-3) g(1) u(5,6) g(2) u(7) v(1,2)] v(4,5) u(7) by simp
qed

text \<open>Making room in a full write buffer.\<close>

lemma make_room_ok:
  assumes "write_ok W" "tcp_ok s" "sharedPeer s \<noteq> None"
  obtains t b where "(if bsize (writeBuffer s) = bcapacity (writeBuffer s) then tcp_FlushBufferedSends W s True
      else Some (s, True)) = Some (t, b)" "tcp_ok t" "keeps s t" "tcp_accepted t = tcp_accepted s"
    "b \<longrightarrow> bsize (writeBuffer t) < bcapacity (writeBuffer t)" "accepts_all W \<longrightarrow> b"
proof (cases "bsize (writeBuffer s) = bcapacity (writeBuffer s)")
  case True
  have "tcp_HasBufferedSends s" using assms(2) True by (auto simp: tcp_ok_def wb_ok_def tcp_HasBufferedSends_def)
  then show ?thesis using tcp_Flush_ok [OF assms, of True] True that by (auto simp: tcp_ok_def wb_ok_def)
next
  case False
  then show ?thesis using that [of s True] assms(2) wb_ok_size [of "writeBuffer s"] by (auto simp: tcp_ok_def)
qed

text \<open>The rest of the frame fits into the write buffer.\<close>

lemma send_whole_ok:
  assumes "write_ok W" "tcp_ok t" "sharedPeer t \<noteq> None" "fdata f = Some st" "storage_inv st" "bytesSent f < ssize st"
    "bsize (writeBuffer t) + (ssize st - bytesSent f) \<le> bcapacity (writeBuffer t)"
  shows "\<exists>s' f' r. do { (s, f) \<leftarrow> buffer_bytes A t f st (ssize st - bytesSent f);
        (if hm = False \<or> bsize (writeBuffer s) = bcapacity (writeBuffer s)
         then do { (s, r) \<leftarrow> tcp_FlushBufferedSends W s hm; Some (s, f, r) }
         else Some (s, f, True)) } = Some (s', f', r) \<and> send_spec W t f s' f' r"
proof -
  have n: "bytesSent f + (ssize st - bytesSent f) \<le> ssize st" "0 < ssize st - bytesSent f" using assms(6) by auto
  obtain u g v r where u: "buffer_bytes A t f st (ssize st - bytesSent f) = Some (u, g)" "tcp_ok u" "keeps t u" "frame_ok g"
      "fdata g = fdata f" "bytesSent g = bytesSent f + (ssize st - bytesSent f)" "length (frest g) = ssize st - bytesSent g"
      "tcp_accepted u @ frest g = tcp_accepted t @ frest f"
      and v: "tcp_FlushBufferedSends W u hm = Some (v, r)" "tcp_ok v" "keeps t v" "sharedPeer v \<noteq> None"
      "tcp_accepted v @ frest g = tcp_accepted t @ frest f" "accepts_all W \<longrightarrow> r"
    by (rule buffer_flush_ok [OF assms(1-5) n assms(7), of A hm])
  have "frest g = []" using u(6,7) n(1) by simp
  then have "send_spec W t f v g r" "send_spec W t f u g True" using u v by (auto simp: send_spec_def)
  then show ?thesis using u(1) v(1) by (cases "hm = False \<or> bsize (writeBuffer u) = bcapacity (writeBuffer u)") auto
qed

lemma tcp_Send_body:
  assumes "socket s" "fdata f = Some st" "(if bsize (writeBuffer s) = bcapacity (writeBuffer s)
    then tcp_FlushBufferedSends W s True else Some (s, True)) = Some (t, b)"
  shows "tcp_Send A W s f hm = (if b = False then Some (t, f, False) else
     (if bytesSent f < ssize st
      then
        if bsize (writeBuffer t) = writeBufferOffset t \<and> (ssize st - bytesSent f > 1200 \<or> hm = False)
        then send_direct W t f st hm
        else if bsize (writeBuffer t) + (ssize st - bytesSent f) \<le> bcapacity (writeBuffer t)
        then do { (s, f) \<leftarrow> buffer_bytes A t f st (ssize st - bytesSent f);
                  (if hm = False \<or> bsize (writeBuffer s) = bcapacity (writeBuffer s)
                   then do { (s, r) \<leftarrow> tcp_FlushBufferedSends W s hm; Some (s, f, r) }
                   else Some (s, f, True)) }
        else do { (s, f) \<leftarrow> buffer_bytes A t f st (min (ssize st - bytesSent f) (bcapacity (writeBuffer t) - bsize (writeBuffer t)));
                  (s, canWriteMore) \<leftarrow> tcp_FlushBufferedSends W s True;
                  (if canWriteMore = False then Some (s, f, False) else tcp_Send A W s f hm) }
      else Some (t, f, True)))"
  by (subst tcp_Send.simps) (simp only: assms Let_def if_False if_True not_True_eq_False Option.bind.simps prod.case)

lemma tcp_Send_ok:
  assumes "write_ok W" "tcp_ok s" "sharedPeer s \<noteq> None" "frame_ok f"
  shows "\<exists>s' f' r. tcp_Send A W s f hm = Some (s', f', r) \<and> send_spec W s f s' f' r"
  using assms(2-4)
proof (induction "length (frest f)" arbitrary: s f rule: less_induct)
  case less
  obtain st where f: "fdata f = Some st" "storage_inv st" "bytesSent f \<le> ssize st"
    using less.prems(3) by (auto simp: frame_ok_def)
  have fr: "length (frest f) = ssize st - bytesSent f" using frest_Some [OF f(1)] storage_bytes_length [OF f(2)] by simp
  have sock: "socket s" using less.prems(1) by (simp add: tcp_ok_def)
  obtain t b where t: "(if bsize (writeBuffer s) = bcapacity (writeBuffer s) then tcp_FlushBufferedSends W s True
        else Some (s, True)) = Some (t, b)" "tcp_ok t" "keeps s t" "tcp_accepted t = tcp_accepted s"
      "b \<longrightarrow> bsize (writeBuffer t) < bcapacity (writeBuffer t)" "accepts_all W \<longrightarrow> b"
    using make_room_ok [OF assms(1) less.prems(1,2)] by blast
  have sp: "sharedPeer t \<noteq> None" using t(3) less.prems(2) by (auto simp: keeps_def)
  note body = tcp_Send_body [OF sock f(1) t(1), of A hm]
  note trans = send_spec_trans [OF t(2,3) refl, of f]
  let ?n = "ssize st - bytesSent f" let ?w = "writeBuffer t" let ?m = "min ?n (bcapacity ?w - bsize ?w)"
  consider (stop) "\<not> (b \<and> bytesSent f < ssize st)"
    | (direct) "b" "bytesSent f < ssize st" "bsize ?w = writeBufferOffset t \<and> (?n > 1200 \<or> hm = False)"
    | (fits) "b" "bytesSent f < ssize st" "\<not> (bsize ?w = writeBufferOffset t \<and> (?n > 1200 \<or> hm = False))"
        "bsize ?w + ?n \<le> bcapacity ?w"
    | (part) "b" "bytesSent f < ssize st" "\<not> (bsize ?w = writeBufferOffset t \<and> (?n > 1200 \<or> hm = False))"
        "\<not> bsize ?w + ?n \<le> bcapacity ?w"
    by blast
  then show ?case
  proof cases
    case stop
    then have "tcp_Send A W s f hm = Some (t, f, b)" unfolding body by (cases b) auto
    moreover have "send_spec W s f t f b" using stop t less.prems(3) f fr by (auto simp: send_spec_def)
    ultimately show ?thesis by blast
  next
    case direct
    then have "tcp_Send A W s f hm = send_direct W t f st hm" unfolding body by simp
    then show ?thesis using send_direct_ok [OF assms(1) t(2) sp f(1,2), of hm] direct trans t(4) by auto
  next
    case fits
    show ?thesis unfolding body
      using send_whole_ok [OF assms(1) t(2) sp f(1,2) fits(2,4), of A hm] fits trans t(4) by (simp only: if_P if_not_P simp_thms) blast
  next
    case part
    have m: "bytesSent f + ?m \<le> ssize st" "0 < ?m" "bsize ?w + ?m \<le> bcapacity ?w" using part(1,2) t(5) by auto
    obtain u g v r where u: "buffer_bytes A t f st ?m = Some (u, g)" "tcp_ok u" "keeps t u" "frame_ok g"
        "fdata g = fdata f" "bytesSent g = bytesSent f + ?m" "length (frest g) = ssize st - bytesSent g"
        "tcp_accepted u @ frest g = tcp_accepted t @ frest f"
      and v: "tcp_FlushBufferedSends W u True = Some (v, r)" "tcp_ok v" "keeps t v" "sharedPeer v \<noteq> None"
        "tcp_accepted v @ frest g = tcp_accepted t @ frest f" "accepts_all W \<longrightarrow> r"
      by (rule buffer_flush_ok [OF assms(1) t(2) sp f(1,2) m, of A True])
    have eq: "tcp_Send A W s f hm = (if r = False then Some (v, g, False) else tcp_Send A W v g hm)"
      unfolding body using part u(1) v(1) by (simp only: if_P if_not_P simp_thms Option.bind.simps prod.case)
    have "k - (i + j) < k - i" if "i + j \<le> k" "0 < j" for i j k :: nat using that by arith
    from this [OF m(1,2)] have "length (frest g) < length (frest f)" unfolding u(7) fr u(6) .
    from less.hyps [OF this v(2,4) u(4)] obtain s' f' r' where
      "tcp_Send A W v g hm = Some (s', f', r')" "send_spec W v g s' f' r'" by blast
    moreover from this(2) have "send_spec W t f s' f' r'" using send_spec_trans [OF v(2,3) u(5)] v(5) by blast
    moreover have "\<not> r \<Longrightarrow> send_spec W t f v g False" using u v by (auto simp: send_spec_def)
    ultimately show ?thesis using eq trans t(4) by (cases r) auto
  qed
qed

section \<open>The transport contract\<close>

text \<open>The TCP part alone, seen as a peer.\<close>

definition tcp_view :: "'s tcpPeer_ext \<Rightarrow> 's tcpPeer_scheme" where
  "tcp_view e = PeerData.extend \<lparr>sharedPeer = None, hostStats = HostStats_new, loopStats = LoopStats_new,
     globalQueue = [], localQueue = [], localQueueOffset = 0, frameDecoder = FrameDecoder_new\<rparr> e"

lemma tcp_view_more [simp]:
  "tcp_ok (tcp_view (PeerData.more s)) = tcp_ok s" "tcp_accepted (tcp_view (PeerData.more s)) = tcp_accepted s"
proof -
  have "PeerData.more (tcp_view (PeerData.more s)) = PeerData.more s" by (simp add: tcp_view_def PeerData.defs)
  from more_tcp [OF this]
  show "tcp_ok (tcp_view (PeerData.more s)) = tcp_ok s" "tcp_accepted (tcp_view (PeerData.more s)) = tcp_accepted s"
    by (simp_all add: tcp_ok_def tcp_accepted_def)
qed

interpretation tcp: transport "tcp_Send A W" tcp_HasBufferedSends "tcp_FlushBufferedSends W"
    "\<lambda>e. write_ok W \<and> tcp_ok (tcp_view e)" "\<lambda>e. tcp_accepted (tcp_view e)" for A W
proof (unfold_locales, goal_cases)
  case (1 s f hm)
  then show ?case using tcp_Send_ok [of W s f A hm] by (auto simp: send_spec_def)
next
  case (2 s hm)
  then show ?case using tcp_Flush_ok [of W s hm] by auto
qed

interpretation tcp_eager: eager_transport "tcp_Send A W" tcp_HasBufferedSends "tcp_FlushBufferedSends W"
    "\<lambda>e. (write_ok W \<and> accepts_all W) \<and> tcp_ok (tcp_view e)" "\<lambda>e. tcp_accepted (tcp_view e)" for A W
proof (unfold_locales, goal_cases)
  case (1 s f hm)
  then show ?case using tcp_Send_ok [of W s f A hm] by (auto simp: send_spec_def)
next
  case (2 s hm)
  then show ?case using tcp_Flush_ok [of W s hm] by auto
next
  case (3 s f hm s' f' r)
  then show ?case using tcp_Send_ok [of W s f A hm] by (auto simp: send_spec_def)
next
  case (4 s hm s' r)
  then show ?case using tcp_Flush_ok [of W s hm] by (auto simp: tcp_HasBufferedSends_def)
qed

section \<open>Runs of a connection\<close>

datatype peer_call = Call_Send Storage | Call_Writable

fun peer_calls :: "(nat \<Rightarrow> bytes) \<Rightarrow> us_write \<Rightarrow> 's tcpPeer_scheme \<Rightarrow> peer_call list \<Rightarrow> 's tcpPeer_scheme option" where
  "peer_calls A W s [] = Some s"
| "peer_calls A W s (Call_Send st # cs) =
     do { (s, wake) \<leftarrow> tcp_PeerData_Send s (Some st); peer_calls A W s cs }"
| "peer_calls A W s (Call_Writable # cs) =
     do { (s, r) \<leftarrow> tcp_OnWritable A W s; peer_calls A W s cs }"

fun sent_storages :: "peer_call list \<Rightarrow> Storage list" where
  "sent_storages [] = []"
| "sent_storages (Call_Send st # cs) = st # sent_storages cs"
| "sent_storages (Call_Writable # cs) = sent_storages cs"

text \<open>The bytes that have been handed over for sending and are not on the wire yet.\<close>

definition unsent :: "'s tcpPeer_scheme \<Rightarrow> bytes" where
  "unsent s = drop (writeBufferOffset s) (contents (writeBuffer s)) @ queued_bytes s"

definition conn_ok :: "'s tcpPeer_scheme \<Rightarrow> bool" where
  "conn_ok s \<longleftrightarrow> tcp_ok s \<and> queues_ok s \<and> map_option peerFlags (sharedPeer s) = Some BIT_READY"

lemma handed_unsent: "tcp.handed s = wire s @ unsent s"
  unfolding tcp.handed_def tcp_view_more by (simp add: tcp_accepted_def unsent_def)

lemma good_conn: "tcp.good W s \<longleftrightarrow> write_ok W \<and> tcp_ok s \<and> queues_ok s"
  unfolding tcp.good_def by simp

lemma good_eager: "tcp_eager.good W s \<longleftrightarrow> write_ok W \<and> accepts_all W \<and> tcp_ok s \<and> queues_ok s"
  unfolding tcp_eager.good_def by simp

lemma Send_ok:
  assumes "conn_ok s" "storage_inv st"
  shows "\<exists>s' w. tcp_PeerData_Send s (Some st) = Some (s', w) \<and> conn_ok s' \<and>
    wire s' @ unsent s' = wire s @ unsent s @ storage_bytes st \<and> length (waiting s') = Suc (length (waiting s))"
proof -
  have "IsDisconnecting s = Some False"
    using assms(1) by (auto simp: conn_ok_def IsDisconnecting_def has_flag_def BIT_READY_def BIT_DISCONNECTING_def)
  then show ?thesis using assms frame_ok_new [OF assms(2)] frest_new [of st]
    by (auto simp: tcp_PeerData_Send_def PeerData_Send_def conn_ok_def queues_ok_def tcp_ok_def waiting_def unsent_def
        queued_bytes_def)
qed

lemma Writable_ok:
  assumes "conn_ok s" "write_ok W"
  shows "\<exists>s' r. tcp_OnWritable A W s = Some (s', r) \<and> conn_ok s' \<and> wire s' @ unsent s' = wire s @ unsent s \<and>
    length (waiting s') \<le> length (waiting s)"
  using tcp.OnWritable_ok [of W s A, unfolded good_conn handed_unsent] assms
  by (auto simp: conn_ok_def tcp_OnWritable_def)

lemma peer_calls_ok:
  assumes "conn_ok s" "write_ok W" "list_all storage_inv (sent_storages cs)"
  shows "\<exists>s'. peer_calls A W s cs = Some s' \<and> conn_ok s' \<and>
    wire s' @ unsent s' = wire s @ unsent s @ concat (map storage_bytes (sent_storages cs)) \<and>
    length (waiting s') \<le> length (waiting s) + length (sent_storages cs)"
  using assms
proof (induction cs arbitrary: s rule: sent_storages.induct)
  case (2 st cs)
  obtain t w where t: "tcp_PeerData_Send s (Some st) = Some (t, w)" "conn_ok t"
      "wire t @ unsent t = wire s @ unsent s @ storage_bytes st" "length (waiting t) = Suc (length (waiting s))"
    using Send_ok [of s st] "2.prems" by auto
  show ?case using "2.IH" [OF t(2)] "2.prems" t(1,3,4) by auto
next
  case (3 cs)
  obtain t r where t: "tcp_OnWritable A W s = Some (t, r)" "conn_ok t" "wire t @ unsent t = wire s @ unsent s"
      "length (waiting t) \<le> length (waiting s)"
    using Writable_ok [of s W A] "3.prems" by auto
  show ?case using "3.IH" [OF t(2)] "3.prems" t(1,3,4) by fastforce
qed simp

section \<open>Construction\<close>

lemma round_4064: "round_capacity_up 4064 = Some 4064"
  using round_capacity_up_eq [of 4064] by (simp add: rstep_def bit_width.simps)

lemma tcpPeer_new_ok:
  assumes "pool_ok A" "length (A 4096) \<le> 2 ^ 30"
  shows "\<exists>s s'. tcpPeer_new A hs ls True = Some s \<and> SetReadyToUse s = Some s' \<and> conn_ok s' \<and> wire s' = [] \<and>
    unsent s' = [] \<and> waiting s' = []"
proof -
  have len: "4096 \<le> length (A 4096)" using assms(1) by (simp add: pool_ok_def)
  let ?w = "\<lparr>buffer = Some (A 4096), bsize = 0, bcapacity = length (A 4096) - 32, boffset = 32, bflags = 0\<rparr>"
  have w: "reserve A BBW_null (4096 - 32) = Some ?w"
    using len by (simp add: reserve_def reserve_with_def reserve_or_shrink_def BBW_new_def BBW_null_def round_4064
        INITIAL_DATA_OFFSET_def Let_def cassert_def)
  have "wb_ok ?w" using len assms(2) by (simp add: wb_ok_def bw_inv_Some size_limit_def)
  then show ?thesis using w
    by (simp add: tcpPeer_new_def SetReadyToUse_def set_flag_def Peer_new_def conn_ok_def tcp_ok_def queues_ok_def
        waiting_def unsent_def queued_bytes_def contents_def)
qed

section \<open>Properties\<close>

text \<open>C10. Sending over TCP keeps the stream intact. For every behaviour of the socket within its
  contract (partial writes, full buffers, errors) and every sequence of \<open>PeerData::Send\<close> and
  \<open>_InternalOnWritable\<close> calls on a new connection that is ready, no call fails, and the bytes
  written to the socket followed by the bytes still buffered or queued are exactly the frames
  passed to \<open>Send\<close>, in order: nothing is lost, duplicated or reordered.\<close>
theorem tcp_stream_in_order:
  assumes "pool_ok A" "length (A 4096) \<le> 2 ^ 30" "write_ok W" "list_all storage_inv (sent_storages cs)"
  shows "\<exists>s s1 s2. tcpPeer_new A hs ls True = Some s \<and> SetReadyToUse s = Some s1 \<and>
    peer_calls A W s1 cs = Some s2 \<and> wire s2 @ unsent s2 = concat (map storage_bytes (sent_storages cs))"
proof -
  obtain s s1 where s: "tcpPeer_new A hs ls True = Some s" "SetReadyToUse s = Some s1" "conn_ok s1" "wire s1 = []"
      "unsent s1 = []"
    using tcpPeer_new_ok [OF assms(1,2), of hs ls] by blast
  then show ?thesis using peer_calls_ok [OF s(3) assms(3,4), of A] by auto
qed

text \<open>A frame of three bytes (a header and a body of two), and a socket that takes two bytes at a time.\<close>

definition sample_frame :: Storage where
  "sample_frame = \<lparr>sblock = replicate 32 0 @ [4, 7, 8, 0], ssize = 3, soffset = 32, scapacity = 4, sflags = 0\<rparr>"

definition slow_socket :: us_write where
  "slow_socket n data hm = int (min 2 (length data))"

lemma sample_frame_ok: "storage_inv sample_frame" "storage_bytes sample_frame = [4, 7, 8]"
  by (simp_all add: storage_inv_def sample_frame_def storage_bytes_def)

theorem tcp_stream_in_order_witness:
  "\<exists>s s1 s2. tcpPeer_new (\<lambda>n. replicate n 0) HostStats_new LoopStats_new True = Some s \<and> SetReadyToUse s = Some s1 \<and>
    peer_calls (\<lambda>n. replicate n 0) slow_socket s1 [Call_Send sample_frame, Call_Writable, Call_Send sample_frame] = Some s2 \<and>
    wire s2 @ unsent s2 = concat (map storage_bytes (sent_storages [Call_Send sample_frame, Call_Writable, Call_Send sample_frame]))"
  by (rule tcp_stream_in_order)
     (simp_all add: pool_ok_zeros write_ok_def slow_socket_def sample_frame_ok)

lemma unsent_empty: "conn_ok s \<Longrightarrow> waiting s = [] \<Longrightarrow> \<not> tcp_HasBufferedSends s \<Longrightarrow> unsent s = []"
  using wb_ok_size [of "writeBuffer s"]
  by (auto simp: unsent_def queued_bytes_def tcp_HasBufferedSends_def conn_ok_def tcp_ok_def)

lemma writable_progress:
  assumes "conn_ok s" "accepts_all W" "length (waiting s) \<le> 384 * n"
  shows "\<exists>s'. peer_calls A W s (replicate (Suc n) Call_Writable) = Some s' \<and> conn_ok s' \<and> unsent s' = [] \<and>
    wire s' = wire s @ unsent s"
  using assms(1,3)
proof (induction n arbitrary: s)
  case step: 0
  have W: "write_ok W" using assms(2) by (simp add: write_ok_def accepts_all_def)
  obtain t where t: "tcp_OnWritable A W s = Some (t, True)" "conn_ok t" "tcp.handed t = tcp.handed s"
      "\<not> tcp_HasBufferedSends t" "length (waiting t) \<le> length (waiting s) - 384"
    using tcp_eager.OnWritable_progress [of W s A, unfolded good_eager] step.prems(1) W assms(2)
    by (auto simp: conn_ok_def tcp_OnWritable_def)
  then show ?case using step.prems(2) unsent_empty [OF t(2)] by (auto simp: handed_unsent)
next
  case (Suc n)
  have W: "write_ok W" using assms(2) by (simp add: write_ok_def accepts_all_def)
  obtain t where t: "tcp_OnWritable A W s = Some (t, True)" "conn_ok t" "tcp.handed t = tcp.handed s"
      "length (waiting t) \<le> length (waiting s) - 384"
    using tcp_eager.OnWritable_progress [of W s A, unfolded good_eager] Suc.prems(1) W assms(2)
    by (auto simp: conn_ok_def tcp_OnWritable_def)
  have "length (waiting t) \<le> 384 * n" using t(4) Suc.prems(2) by simp
  from Suc.IH [OF t(2) this] show ?case using t(1,3) by (auto simp: handed_unsent)
qed

text \<open>C14. Progress. Whatever the socket did before, once it accepts all data it is given, calling
  \<open>_InternalOnWritable\<close> once per 384 queued frames and once more writes every byte that was ever
  passed to \<open>Send\<close>: no frame stays behind in the queues or in the write buffer.\<close>
theorem tcp_send_progress:
  assumes "pool_ok A" "length (A 4096) \<le> 2 ^ 30" "write_ok W" "list_all storage_inv (sent_storages cs)"
    "accepts_all W'" "length (sent_storages cs) \<le> 384 * n"
  shows "\<exists>s s1 s2 s3. tcpPeer_new A hs ls True = Some s \<and> SetReadyToUse s = Some s1 \<and>
    peer_calls A W s1 cs = Some s2 \<and> peer_calls A W' s2 (replicate (Suc n) Call_Writable) = Some s3 \<and>
    wire s3 = concat (map storage_bytes (sent_storages cs)) \<and> unsent s3 = []"
proof -
  obtain s s1 where s: "tcpPeer_new A hs ls True = Some s" "SetReadyToUse s = Some s1" "conn_ok s1" "wire s1 = []"
      "unsent s1 = []" "waiting s1 = []"
    using tcpPeer_new_ok [OF assms(1,2), of hs ls] by blast
  obtain s2 where s2: "peer_calls A W s1 cs = Some s2" "conn_ok s2"
      "wire s2 @ unsent s2 = concat (map storage_bytes (sent_storages cs))"
      "length (waiting s2) \<le> length (waiting s1) + length (sent_storages cs)"
    using peer_calls_ok [OF s(3) assms(3,4), of A] s(4,5) by auto
  then have "length (waiting s2) \<le> 384 * n" using assms(6) s(6) by simp
  from writable_progress [OF s2(2) assms(5) this, of A] obtain s3 where
    "peer_calls A W' s2 (replicate (Suc n) Call_Writable) = Some s3" "unsent s3 = []" "wire s3 = wire s2 @ unsent s2"
    by blast
  then show ?thesis using s(1,2) s2(1,3) by auto
qed

theorem tcp_send_progress_witness:
  "\<exists>s s1 s2 s3. tcpPeer_new (\<lambda>n. replicate n 0) HostStats_new LoopStats_new True = Some s \<and> SetReadyToUse s = Some s1 \<and>
    peer_calls (\<lambda>n. replicate n 0) slow_socket s1 [Call_Send sample_frame, Call_Writable] = Some s2 \<and>
    peer_calls (\<lambda>n. replicate n 0) (\<lambda>n data hm. int (length data)) s2 (replicate (Suc 1) Call_Writable) = Some s3 \<and>
    wire s3 = concat (map storage_bytes (sent_storages [Call_Send sample_frame, Call_Writable])) \<and> unsent s3 = []"
  by (rule tcp_send_progress)
     (simp_all add: pool_ok_zeros write_ok_def accepts_all_def slow_socket_def sample_frame_ok)

end
