(* ===== verification/Calendar.thy ===== *)
theory Calendar
  imports Prelude "HOL-Library.Signed_Division" "HOL-Library.Char_ord"
begin

text \<open>
  Timestamps and calendar dates: \<open>src/include/icon7/Time.hpp\<close> and \<open>src/src/Time.cpp\<close>.

  A timestamp is a number of nanoseconds since 1970-01-01. C++ integers are \<open>int\<close> here: an
  overflow of a signed type is undefined behaviour, and no theorem below leaves the 64-bit range
  of its input. \<open>/\<close> and \<open>%\<close> are \<open>sdiv\<close> and \<open>smod\<close>, which round towards zero.

  The clock (\<open>concurrent::time\<close> and \<open>std::chrono\<close>) is a parameter: the offset between the two
  clocks (\<open>nanosecondsSinceEpoch\<close>) and the offset from UTC in hours are arguments. The \<open>printf\<close>
  and \<open>scanf\<close> conversions of the C library that the code uses are modelled.

  The calendar is compared with an independent definition, \<open>next_date\<close>: the date after a date.
\<close>

section \<open>Timestamps\<close>

datatype Timestamp = ts (ns: int)

definition TemporaryTimestampToTimestamp :: "int \<Rightarrow> int \<Rightarrow> Timestamp" where
  "TemporaryTimestampToTimestamp sinceEpoch tmp = ts (sinceEpoch + tmp)"

definition DeltaNsBetweenTimestamps :: "Timestamp \<Rightarrow> Timestamp \<Rightarrow> int" where
  "DeltaNsBetweenTimestamps b e = ns e - ns b"

definition DeltaNsBetweenTimepoints :: "int \<Rightarrow> int \<Rightarrow> int" where
  "DeltaNsBetweenTimepoints b e = e - b"

definition ts_add :: "Timestamp \<Rightarrow> int \<Rightarrow> Timestamp" where
  "ts_add p d = ts (ns p + d)"

definition ts_sub :: "Timestamp \<Rightarrow> int \<Rightarrow> Timestamp" where
  "ts_sub p d = ts (ns p - d)"

definition ts_diff :: "Timestamp \<Rightarrow> Timestamp \<Rightarrow> int" where
  "ts_diff a b = ns a - ns b"

definition ts_less :: "Timestamp \<Rightarrow> Timestamp \<Rightarrow> bool" where
  "ts_less l r \<longleftrightarrow> ns l < ns r"

definition ts_less_eq :: "Timestamp \<Rightarrow> Timestamp \<Rightarrow> bool" where
  "ts_less_eq l r \<longleftrightarrow> ns l \<le> ns r"

instantiation Timestamp :: linorder
begin
definition less_Timestamp :: "Timestamp \<Rightarrow> Timestamp \<Rightarrow> bool" where
  "less_Timestamp = ts_less"
definition less_eq_Timestamp :: "Timestamp \<Rightarrow> Timestamp \<Rightarrow> bool" where
  "less_eq_Timestamp = ts_less_eq"
instance
  by standard (auto simp: less_Timestamp_def less_eq_Timestamp_def ts_less_def ts_less_eq_def Timestamp.expand)
end

text \<open>The clocks at the start of the program: the wall clock \<open>date\<close>, the monotonic clock \<open>now\<close>, and
  the offset from UTC in seconds if the platform has it. \<open>glob()\<close> keeps the values.\<close>

record DayTimeBegin =
  nanosecondsSinceEpoch :: int
  hoursOffset :: int

definition DayTimeBegin_new :: "int \<Rightarrow> int \<Rightarrow> int option \<Rightarrow> DayTimeBegin" where
  "DayTimeBegin_new date timeSinceEpoch tm_gmtoff =
     \<lparr>nanosecondsSinceEpoch = date - timeSinceEpoch,
      hoursOffset = (case tm_gmtoff of Some off \<Rightarrow> (- off) sdiv 3600 | None \<Rightarrow> 0)\<rparr>"

definition GetTimestamp :: "DayTimeBegin \<Rightarrow> int \<Rightarrow> Timestamp" where
  "GetTimestamp glob now = TemporaryTimestampToTimestamp (nanosecondsSinceEpoch glob) now"

section \<open>Dates\<close>

definition ns_per_day :: int where
  "ns_per_day = 24 * 3600 * 1000 * 1000 * 1000"

definition IsLeapYear :: "int \<Rightarrow> bool" where
  "IsLeapYear year \<longleftrightarrow> (year smod 4 = 0 \<and> year smod 100 \<noteq> 0) \<or> year smod 400 = 0"

definition LeapYearsBefore :: "int \<Rightarrow> int" where
  "LeapYearsBefore year = (year sdiv 4) - (year sdiv 100) + (year sdiv 400)"

definition daysPerMonth :: "int \<Rightarrow> int list" where
  "daysPerMonth year = (let feb = if IsLeapYear year then 29 else 28 in
     [31, feb, 31, 30, 31, 30, 31, 31, 30, 31, 30, 31])"

text \<open>The loop over the years; the year that is left is the one in which the day lies.\<close>

partial_function (option) year_loop :: "int \<Rightarrow> int \<Rightarrow> (int \<times> int) option" where
  "year_loop days year =
     (let m = if IsLeapYear year then 366 else 365 in
      if days \<ge> m then year_loop (days - m) (year + 1) else Some (days, year))"

partial_function (option) month_loop :: "int list \<Rightarrow> int \<Rightarrow> nat \<Rightarrow> (int \<times> nat) option" where
  "month_loop perMonth days month =
     do { n \<leftarrow> vget perMonth month;
          (if days \<ge> n then month_loop perMonth (days - n) (month + 1) else Some (days, month)) }"

declare year_loop.simps [code] month_loop.simps [code]

record YMD =
  yyear :: int
  ymonth :: int
  yday :: int

definition YMDFromTimestamp :: "Timestamp \<Rightarrow> YMD option" where
  "YMDFromTimestamp timestamp =
     do { let days = ns timestamp sdiv ns_per_day;
          let year = 1970 + (days - 370) sdiv 366;
          let leapYears = LeapYearsBefore (year - 1) - LeapYearsBefore 1970;
          let days = days - ((year - 1970) * 365 + leapYears);
          (days, year) \<leftarrow> year_loop days year;
          (days, month) \<leftarrow> month_loop (daysPerMonth year) days 0;
          Some \<lparr>yyear = year, ymonth = int month + 1, yday = days + 1\<rparr> }"

text \<open>The days of the months before \<open>month\<close>, reading \<open>daysPerMonth\<close> with a bounds check.\<close>

fun sum_months :: "int list \<Rightarrow> nat \<Rightarrow> int option" where
  "sum_months perMonth 0 = Some 0"
| "sum_months perMonth (Suc i) =
     do { s \<leftarrow> sum_months perMonth i; n \<leftarrow> vget perMonth i; Some (s + n) }"

definition TimestampFromYMD :: "YMD \<Rightarrow> Timestamp option" where
  "TimestampFromYMD d =
     do { let leapYears = LeapYearsBefore (yyear d - 1) - LeapYearsBefore 1970;
          let days = (yyear d - 1970) * 365 + yday d - 1 + leapYears;
          s \<leftarrow> sum_months (daysPerMonth (yyear d)) (nat (ymonth d - 1));
          Some (ts ((days + s) * ns_per_day)) }"

section \<open>Printing and parsing\<close>

text \<open>Decimal digits; \<open>pad w\<close> is the unsigned conversion with at least \<open>w\<close> digits.\<close>

definition dig :: "nat \<Rightarrow> char" where
  "dig k = char_of (48 + k)"

fun dec :: "nat \<Rightarrow> string" where
  "dec n = (if n < 10 then [dig n] else dec (n div 10) @ [dig (n mod 10)])"

declare dec.simps [simp del]

definition pad :: "nat \<Rightarrow> nat \<Rightarrow> string" where
  "pad w n = replicate (w - length (dec n)) (CHR ''0'') @ dec n"

text \<open>\<open>%w.wi\<close> and \<open>%+i\<close> of \<open>printf\<close>.\<close>

definition fmt_int :: "nat \<Rightarrow> int \<Rightarrow> string" where
  "fmt_int w x = (if x < 0 then CHR ''-'' # pad w (nat (- x)) else pad w (nat x))"

definition fmt_signed :: "int \<Rightarrow> string" where
  "fmt_signed x = (if x < 0 then CHR ''-'' # dec (nat (- x)) else CHR ''+'' # dec (nat x))"

definition TimestampToString :: "int \<Rightarrow> Timestamp \<Rightarrow> int \<Rightarrow> string option" where
  "TimestampToString hoursOff timestamp subsecondDigits =
     do { let hoursOffsetNanoseconds = hoursOff * 3600 * 1000 * 1000 * 1000;
          let timestamp = ts (ns timestamp - hoursOffsetNanoseconds);
          let seconds = ns timestamp sdiv 1000000000;
          let sub = ns timestamp - seconds * 1000000000;
          let digits = (if subsecondDigits > 9 then 9 else if subsecondDigits < 0 then 0 else subsecondDigits);
          let subsecondsLen = digits + (digits + 2) sdiv 3;
          let subsecondsStr = take (nat subsecondsLen)
            (''.'' @ fmt_int 3 (sub sdiv 1000000) @ ''.'' @ fmt_int 3 (sub sdiv 1000 smod 1000) @ ''.'' @ fmt_int 3 (sub smod 1000));
          ymd \<leftarrow> YMDFromTimestamp timestamp;
          let h = seconds sdiv 3600 smod 24;
          let m = seconds sdiv 60 smod 60;
          let s = seconds smod 60;
          Some (fmt_int 4 (yyear ymd) @ ''-'' @ fmt_int 2 (ymonth ymd) @ ''-'' @ fmt_int 2 (yday ymd) @ ''+'' @
                fmt_int 2 h @ '':'' @ fmt_int 2 m @ '':'' @ fmt_int 2 s @ subsecondsStr @
                ''U'' @ fmt_signed (- hoursOff)) }"

definition GetCurrentTimestampString :: "DayTimeBegin \<Rightarrow> int \<Rightarrow> int \<Rightarrow> string option" where
  "GetCurrentTimestampString glob now subsecondDigits = TimestampToString (hoursOffset glob) (GetTimestamp glob now) subsecondDigits"

text \<open>\<open>%d\<close> of \<open>scanf\<close>: white space, a sign, digits; the value and the rest of the input.\<close>

definition is_digit :: "char \<Rightarrow> bool" where
  "is_digit c \<longleftrightarrow> 48 \<le> (of_char c :: nat) \<and> (of_char c :: nat) \<le> 57"

definition is_space :: "char \<Rightarrow> bool" where
  "is_space c \<longleftrightarrow> c = CHR '' '' \<or> (9 \<le> (of_char c :: nat) \<and> (of_char c :: nat) \<le> 13)"

definition value_of :: "string \<Rightarrow> nat" where
  "value_of = foldl (\<lambda>a c. 10 * a + (of_char c - 48)) 0"

definition scan_nat :: "string \<Rightarrow> (int \<times> string) option" where
  "scan_nat s = (if takeWhile is_digit s = [] then None
     else Some (int (value_of (takeWhile is_digit s)), dropWhile is_digit s))"

definition scan_int :: "string \<Rightarrow> (int \<times> string) option" where
  "scan_int s = (case dropWhile is_space s of
     [] \<Rightarrow> None
   | c # r \<Rightarrow> if c = CHR ''-'' then map_option (\<lambda>(v, r). (- v, r)) (scan_nat r)
             else if c = CHR ''+'' then scan_nat r
             else scan_nat (c # r))"

text \<open>\<open>sscanf\<close> with a format of \<open>%d\<close> (\<open>None\<close>) and literal characters: the values converted until the first mismatch.\<close>

fun scan_fmt :: "char option list \<Rightarrow> string \<Rightarrow> int list" where
  "scan_fmt [] s = []"
| "scan_fmt (None # fs) s = (case scan_int s of None \<Rightarrow> [] | Some (v, r) \<Rightarrow> v # scan_fmt fs r)"
| "scan_fmt (Some c # fs) s = (case s of [] \<Rightarrow> [] | c' # r \<Rightarrow> if c = c' then scan_fmt fs r else [])"

definition atoi :: "string \<Rightarrow> int" where
  "atoi s = (case scan_int s of None \<Rightarrow> 0 | Some (v, r) \<Rightarrow> v)"

definition field :: "int list \<Rightarrow> nat \<Rightarrow> int" where
  "field vs i = (if i < length vs then vs ! i else 0)"

definition StringToTimestamp :: "string \<Rightarrow> Timestamp option" where
  "StringToTimestamp str =
     do { let vs = scan_fmt [None, Some (CHR ''-''), None, Some (CHR ''-''), None, Some (CHR ''+''), None,
            Some (CHR '':''), None, Some (CHR '':''), None] str;
          cassert (20 \<le> length str);
          let sub = drop 20 str;
          let (sub, utcOffset) =
            (if CHR ''U'' \<in> set sub
             then (takeWhile (\<lambda>c. c \<noteq> CHR ''U'') sub,
                   - field (scan_fmt [Some (CHR ''U''), None] (dropWhile (\<lambda>c. c \<noteq> CHR ''U'') sub)) 0)
             else (sub, 0));
          let sub = (if length sub > 7 then take 7 sub @ drop 8 sub else sub);
          let sub = (if length sub > 3 then take 3 sub @ drop 4 sub else sub);
          let subseconds = atoi (vresize sub 9 (CHR ''0''));
          date \<leftarrow> TimestampFromYMD \<lparr>yyear = field vs 0, ymonth = field vs 1, yday = field vs 2\<rparr>;
          let t = ns date sdiv 1000000000 + (field vs 3 * 60 + field vs 4) * 60 + field vs 5;
          let tpSeconds = t + utcOffset * 3600;
          Some (ts (tpSeconds * 1000000000 + subseconds)) }"

section \<open>The calendar\<close>

definition year_len :: "int \<Rightarrow> int" where
  "year_len y = (if IsLeapYear y then 366 else 365)"

definition valid_date :: "YMD \<Rightarrow> bool" where
  "valid_date d \<longleftrightarrow> 1 \<le> ymonth d \<and> ymonth d \<le> 12 \<and> 1 \<le> yday d \<and>
     yday d \<le> daysPerMonth (yyear d) ! nat (ymonth d - 1)"

definition next_date :: "YMD \<Rightarrow> YMD" where
  "next_date d =
     (if yday d < daysPerMonth (yyear d) ! nat (ymonth d - 1) then d\<lparr>yday := yday d + 1\<rparr>
      else if ymonth d < 12 then d\<lparr>ymonth := ymonth d + 1, yday := 1\<rparr>
      else \<lparr>yyear = yyear d + 1, ymonth = 1, yday = 1\<rparr>)"

text \<open>The number of the first day of a year, and of a date.\<close>

definition year_start :: "int \<Rightarrow> int" where
  "year_start y = (y - 1970) * 365 + (LeapYearsBefore (y - 1) - LeapYearsBefore 1970)"

definition day_number :: "YMD \<Rightarrow> int" where
  "day_number d = year_start (yyear d) + sum_list (take (nat (ymonth d - 1)) (daysPerMonth (yyear d))) + yday d - 1"

lemma sdiv_pos: "0 \<le> (a :: int) \<Longrightarrow> 0 < b \<Longrightarrow> a sdiv b = a div b"
  by (cases "a = 0") (simp_all add: signed_divide_int_def)

lemma smod_pos: "0 \<le> (a :: int) \<Longrightarrow> 0 < b \<Longrightarrow> a smod b = a mod b"
  by (cases "a = 0") (simp_all add: signed_modulo_int_def)

lemma div_step: "0 < (m :: int) \<Longrightarrow> y div m - (y - 1) div m = (if y mod m = 0 then 1 else 0)"
proof -
  assume m: "0 < m"
  have y: "y = m * (y div m) + y mod m" "0 \<le> y mod m" "y mod m < m" using m by simp_all
  show ?thesis
  proof (cases "y mod m = 0")
    case True
    have "(y - 1) div m = y div m - 1"
      by (rule int_div_pos_eq [of _ _ _ "m - 1"]) (use y True m in \<open>simp_all add: algebra_simps\<close>)
    then show ?thesis using True by simp
  next
    case False
    have "(y - 1) div m = y div m"
      by (rule int_div_pos_eq [of _ _ _ "y mod m - 1"]) (use y False in linarith)+
    then show ?thesis using False by simp
  qed
qed

lemma leap_multiples: "(y :: int) mod 400 = 0 \<Longrightarrow> y mod 100 = 0" "(y :: int) mod 100 = 0 \<Longrightarrow> y mod 4 = 0"
  using dvd_trans [of 100 400 y] dvd_trans [of 4 100 y] by (auto simp: dvd_eq_mod_eq_0)

lemma LeapYearsBefore_step: "1 \<le> y \<Longrightarrow> LeapYearsBefore y - LeapYearsBefore (y - 1) = (if IsLeapYear y then 1 else 0)"
proof -
  assume y: "1 \<le> y"
  have "LeapYearsBefore y - LeapYearsBefore (y - 1) =
      (y div 4 - (y - 1) div 4) - (y div 100 - (y - 1) div 100) + (y div 400 - (y - 1) div 400)"
    using y by (simp add: LeapYearsBefore_def sdiv_pos)
  also have "\<dots> = (if y mod 4 = 0 then 1 else 0) - (if y mod 100 = 0 then 1 else 0) + (if y mod 400 = 0 then 1 else 0)"
    by (simp only: div_step zero_less_numeral)
  also have "\<dots> = (if (y mod 4 = 0 \<and> y mod 100 \<noteq> 0) \<or> y mod 400 = 0 then 1 else 0)"
    using leap_multiples [of y] by auto
  finally show ?thesis using y by (simp add: IsLeapYear_def smod_pos)
qed

lemma year_start_Suc: "1 \<le> y \<Longrightarrow> year_start (y + 1) = year_start y + year_len y"
  using LeapYearsBefore_step [of y] by (simp add: year_start_def year_len_def split: if_splits)

lemma year_len_pos [simp]: "0 < year_len y" "year_len y \<le> 366" "365 \<le> year_len y"
  by (simp_all add: year_len_def)

lemma year_start_mono: "1 \<le> y \<Longrightarrow> year_start y + 365 * int k \<le> year_start (y + int k) \<and>
    year_start (y + int k) \<le> year_start y + 366 * int k"
proof (induction k)
  case (Suc k)
  have "year_start (y + int (Suc k)) = year_start (y + int k) + year_len (y + int k)"
    using year_start_Suc [of "y + int k"] Suc.prems by (simp add: algebra_simps)
  then show ?case using conjunct1 [OF Suc.IH [OF Suc.prems]] conjunct2 [OF Suc.IH [OF Suc.prems]]
      year_len_pos(2,3) [of "y + int k"] by (auto simp del: year_len_pos)
qed simp

text \<open>The year of a day is unique.\<close>

lemma year_unique:
  assumes "1 \<le> y" "1 \<le> z" "year_start y \<le> n" "n < year_start y + year_len y"
    "year_start z \<le> n" "n < year_start z + year_len z"
  shows "y = z"
proof -
  have "\<not> a < b" if "1 \<le> a" "n < year_start a + year_len a" "year_start b \<le> n" for a b
  proof
    assume "a < b"
    then obtain k where k: "b = a + 1 + int k" by (metis zless_iff_Suc_zadd of_nat_Suc add.assoc add.commute)
    have "year_start (a + 1) \<le> year_start b" using year_start_mono [of "a + 1" k] that(1) k by simp
    then show False using that year_start_Suc [of a] by simp
  qed
  from this [of y z] this [of z y] assms show ?thesis by auto
qed

lemma year_loop_ok:
  assumes "0 \<le> days" "1 \<le> year"
  shows "\<exists>d y. year_loop days year = Some (d, y) \<and> 0 \<le> d \<and> d < year_len y \<and> year \<le> y \<and>
    year_start y + d = year_start year + days"
  using assms
proof (induction "nat days" arbitrary: days year rule: less_induct)
  case less
  show ?case
  proof (cases "days \<ge> year_len year")
    case True
    then have "year_loop days year = year_loop (days - year_len year) (year + 1)"
      by (subst year_loop.simps) (simp add: year_len_def Let_def)
    moreover have "nat (days - year_len year) < nat days" using True year_len_pos(1) [of year] by linarith
    then obtain d y where "year_loop (days - year_len year) (year + 1) = Some (d, y)" "0 \<le> d" "d < year_len y"
      "year + 1 \<le> y" "year_start y + d = year_start (year + 1) + (days - year_len year)"
      using less.hyps [of "days - year_len year" "year + 1"] True less.prems by auto
    ultimately show ?thesis using year_start_Suc [OF less.prems(2)] by auto
  next
    case False
    then have "year_loop days year = Some (days, year)"
      by (subst year_loop.simps) (simp add: year_len_def Let_def)
    then show ?thesis using False less.prems by auto
  qed
qed

text \<open>The first guess of the year is never too late.\<close>

lemma first_year:
  assumes "0 \<le> n"
  defines "g \<equiv> 1970 + (n - 370) sdiv 366"
  shows "1969 \<le> g \<and> year_start g \<le> n"
proof (cases "n < 370")
  case True
  have "(n - 370) sdiv 366 = - ((370 - n) div 366)"
    using True assms(1) by (simp add: signed_divide_int_def)
  moreover have "(370 - n) div 366 = (if n \<le> 4 then 1 else 0)"
    using True assms(1) by (auto intro!: div_pos_pos_trivial int_div_pos_eq [of _ _ _ "4 - n"])
  ultimately have "g = (if n \<le> 4 then 1969 else 1970)" by (simp add: g_def)
  then show ?thesis using assms(1) by (auto simp: year_start_def LeapYearsBefore_def sdiv_pos)
next
  case False
  define k where "k = (n - 370) div 366"
  have k: "0 \<le> k" "366 * k \<le> n - 370" using False by (simp_all add: k_def)
  have g: "g = 1970 + k" using False by (simp add: g_def k_def sdiv_pos)
  have "year_start (1970 + int (nat k)) \<le> year_start 1970 + 366 * int (nat k)"
    by (rule conjunct2 [OF year_start_mono]) simp
  moreover have "year_start 1970 = 0" by (simp add: year_start_def LeapYearsBefore_def sdiv_pos)
  ultimately show ?thesis using k g by simp
qed

lemma length_daysPerMonth [simp]: "length (daysPerMonth y) = 12"
  by (simp add: daysPerMonth_def Let_def)

lemma daysPerMonth_pos: "i < 12 \<Longrightarrow> 28 \<le> daysPerMonth y ! i"
proof -
  assume "i < 12"
  then have "daysPerMonth y ! i \<in> set (daysPerMonth y)" by simp
  then show ?thesis by (auto simp: daysPerMonth_def Let_def)
qed

lemma daysPerMonth_le: "i < 12 \<Longrightarrow> daysPerMonth y ! i \<le> 31"
proof -
  assume "i < 12"
  then have "daysPerMonth y ! i \<in> set (daysPerMonth y)" by simp
  then show ?thesis by (auto simp: daysPerMonth_def Let_def)
qed

lemma sum_daysPerMonth: "sum_list (daysPerMonth y) = year_len y"
  by (simp add: daysPerMonth_def year_len_def Let_def)

lemma month_loop_ok:
  assumes "i \<le> 12" "0 \<le> days" "days < sum_list (drop i (daysPerMonth y))"
  shows "\<exists>d m. month_loop (daysPerMonth y) days i = Some (d, m) \<and> m < 12 \<and> 0 \<le> d \<and> d < daysPerMonth y ! m \<and>
    sum_list (take m (daysPerMonth y)) + d = sum_list (take i (daysPerMonth y)) + days"
  using assms
proof (induction "12 - i" arbitrary: i days)
  case 0
  then show ?case by simp
next
  case (Suc k)
  have i: "i < 12" using Suc.hyps(2) by simp
  have d: "drop i (daysPerMonth y) = daysPerMonth y ! i # drop (Suc i) (daysPerMonth y)"
    using i by (simp add: Cons_nth_drop_Suc)
  have t: "sum_list (take (Suc i) (daysPerMonth y)) = sum_list (take i (daysPerMonth y)) + daysPerMonth y ! i"
    using i by (simp add: take_Suc_conv_app_nth)
  show ?case
  proof (cases "days \<ge> daysPerMonth y ! i")
    case True
    then have "month_loop (daysPerMonth y) days i = month_loop (daysPerMonth y) (days - daysPerMonth y ! i) (i + 1)"
      using i by (subst month_loop.simps) simp
    then show ?thesis using Suc.hyps(1) [of "Suc i" "days - daysPerMonth y ! i"] Suc.hyps(2) Suc.prems True d t by auto
  next
    case False
    then have "month_loop (daysPerMonth y) days i = Some (days, i)" using i by (subst month_loop.simps) simp
    then show ?thesis using False i Suc.prems by auto
  qed
qed

lemma sum_months_ok: "k \<le> length xs \<Longrightarrow> sum_months xs k = Some (sum_list (take k xs))"
  by (induction k) (simp_all add: take_Suc_conv_app_nth)

lemma TimestampFromYMD_ok:
  assumes "valid_date d"
  shows "TimestampFromYMD d = Some (ts (day_number d * ns_per_day))"
proof -
  have "nat (ymonth d - 1) \<le> 12" using assms unfolding valid_date_def by linarith
  then have "sum_months (daysPerMonth (yyear d)) (nat (ymonth d - 1)) =
      Some (sum_list (take (nat (ymonth d - 1)) (daysPerMonth (yyear d))))" by (intro sum_months_ok) simp
  then show ?thesis by (simp add: TimestampFromYMD_def day_number_def year_start_def algebra_simps)
qed

lemma day_in_year:
  assumes "valid_date d"
  shows "year_start (yyear d) \<le> day_number d \<and> day_number d < year_start (yyear d) + year_len (yyear d)"
proof -
  let ?m = "nat (ymonth d - 1)" let ?p = "daysPerMonth (yyear d)"
  have m: "?m < 12" "1 \<le> yday d" "yday d \<le> ?p ! ?m" using assms by (auto simp: valid_date_def)
  have nonneg: "0 \<le> sum_list xs" if "set xs \<subseteq> set ?p" for xs
    using that by (intro sum_list_nonneg) (auto simp: daysPerMonth_def Let_def split: if_splits)
  have "sum_list ?p = sum_list (take ?m ?p) + ?p ! ?m + sum_list (drop (Suc ?m) ?p)"
    using m(1) by (subst id_take_nth_drop [of ?m ?p]) simp_all
  then show ?thesis using m nonneg [of "take ?m ?p"] nonneg [of "drop (Suc ?m) ?p"] sum_daysPerMonth [of "yyear d"]
    by (simp add: day_number_def set_take_subset set_drop_subset)
qed

lemma YMDFromTimestamp_ok:
  assumes "0 \<le> ns t"
  shows "\<exists>d. YMDFromTimestamp t = Some d \<and> valid_date d \<and> 1969 \<le> yyear d \<and> day_number d = ns t div ns_per_day"
proof -
  define n where "n = ns t div ns_per_day"
  have n: "ns t sdiv ns_per_day = n" "0 \<le> n" using assms by (simp_all add: n_def sdiv_pos ns_per_day_def)
  define g where "g = 1970 + (n - 370) sdiv 366"
  have g: "1969 \<le> g" "year_start g \<le> n" using first_year [OF n(2)] by (simp_all add: g_def)
  obtain r y where y: "year_loop (n - year_start g) g = Some (r, y)" "0 \<le> r" "r < year_len y" "g \<le> y" "year_start y + r = n"
    using year_loop_ok [of "n - year_start g" g] g by auto
  obtain d m where m: "month_loop (daysPerMonth y) r 0 = Some (d, m)" "m < 12" "0 \<le> d" "d < daysPerMonth y ! m"
      "sum_list (take m (daysPerMonth y)) + d = r"
    using month_loop_ok [of 0 r y] y sum_daysPerMonth [of y] by auto
  let ?d = "\<lparr>yyear = y, ymonth = int m + 1, yday = d + 1\<rparr>"
  have "YMDFromTimestamp t = Some ?d"
    by (simp only: YMDFromTimestamp_def n(1) Let_def g_def [symmetric] year_start_def [symmetric] y(1) m(1)
        Option.bind.simps prod.case)
  moreover have "valid_date ?d" using m by (simp add: valid_date_def)
  moreover have "day_number ?d = n" using m(5) y(5) by (simp add: day_number_def)
  ultimately show ?thesis using g(1) y(4) by (auto simp: n_def)
qed

text \<open>A date is determined by its number.\<close>

lemma month_unique:
  assumes "i < 12" "j < 12" "0 \<le> a" "a < daysPerMonth y ! i" "0 \<le> b" "b < daysPerMonth y ! j"
    "sum_list (take i (daysPerMonth y)) + a = sum_list (take j (daysPerMonth y)) + b"
  shows "i = j \<and> a = b"
proof -
  let ?p = "daysPerMonth y"
  have step: "sum_list (take (Suc i) ?p) \<le> sum_list (take j ?p)" if "i < j" "j < 12" for i j
  proof -
    have "take j ?p = take (Suc i) ?p @ take (j - Suc i) (drop (Suc i) ?p)"
      using that(1) by (metis take_add le_add_diff_inverse Suc_leI)
    moreover have "0 \<le> sum_list (take (j - Suc i) (drop (Suc i) ?p))"
      by (intro sum_list_nonneg) (auto dest!: in_set_takeD in_set_dropD simp: daysPerMonth_def Let_def split: if_splits)
    ultimately show ?thesis by simp
  qed
  have t: "sum_list (take (Suc i) ?p) = sum_list (take i ?p) + ?p ! i" if "i < 12" for i
    using that by (simp add: take_Suc_conv_app_nth)
  show ?thesis
    using step [of i j] step [of j i] t [OF assms(1)] t [OF assms(2)] assms by (cases i j rule: linorder_cases) auto
qed

lemma day_number_inj:
  assumes "valid_date d" "valid_date e" "1 \<le> yyear d" "1 \<le> yyear e" "day_number d = day_number e"
  shows "d = e"
proof -
  have y: "yyear d = yyear e"
    using year_unique [OF assms(3,4), of "day_number d"] day_in_year [OF assms(1)] day_in_year [OF assms(2)] assms(5) by simp
  have "nat (ymonth d - 1) = nat (ymonth e - 1) \<and> yday d - 1 = yday e - 1"
    using assms(1,2,5) y by (intro month_unique [of _ _ _ "yyear d"]) (auto simp: valid_date_def day_number_def)
  then have "ymonth d = ymonth e" "yday d = yday e" using assms(1,2) by (auto simp: valid_date_def)
  then show ?thesis using y by (cases d; cases e) simp
qed

lemma next_date_ok:
  assumes "valid_date d" "1 \<le> yyear d"
  shows "valid_date (next_date d) \<and> day_number (next_date d) = day_number d + 1 \<and> yyear d \<le> yyear (next_date d)"
proof -
  let ?m = "nat (ymonth d - 1)" let ?p = "daysPerMonth (yyear d)"
  have m: "?m < 12" "1 \<le> yday d" "yday d \<le> ?p ! ?m" "1 \<le> ymonth d" "ymonth d \<le> 12" using assms by (auto simp: valid_date_def)
  consider "yday d < ?p ! ?m" | "yday d = ?p ! ?m" "ymonth d < 12" | "yday d = ?p ! ?m" "ymonth d = 12" using m by linarith
  then show ?thesis
  proof cases
    case 1
    then show ?thesis using m by (simp add: next_date_def valid_date_def day_number_def)
  next
    case 2
    have s: "nat (ymonth d) = Suc ?m" using m by simp
    have "sum_list (take (nat (ymonth d)) ?p) = sum_list (take ?m ?p) + ?p ! ?m"
      unfolding s using m(1) by (simp add: take_Suc_conv_app_nth)
    moreover have "28 \<le> ?p ! nat (ymonth d)" using 2 m by (intro daysPerMonth_pos) linarith
    ultimately show ?thesis using 2 m
      by (simp add: next_date_def valid_date_def day_number_def)
  next
    case 3
    have "sum_list (take 11 ?p) + ?p ! 11 = year_len (yyear d)"
      by (simp add: sum_daysPerMonth [symmetric] daysPerMonth_def Let_def)
    then show ?thesis using 3 m daysPerMonth_pos [of 0 "yyear d + 1"] year_start_Suc [OF assms(2)]
      by (simp add: next_date_def valid_date_def day_number_def)
  qed
qed

section \<open>Decimal conversions\<close>

lemma of_char_dig: "k < 10 \<Longrightarrow> (of_char (dig k) :: nat) = 48 + k"
  by (simp add: dig_def)

lemma is_digit_dig: "k < 10 \<Longrightarrow> is_digit (dig k)"
  by (simp add: is_digit_def of_char_dig)

lemma value_of_Nil [simp]: "value_of [] = 0"
  by (simp add: value_of_def)

lemma value_of_snoc [simp]: "value_of (xs @ [c]) = 10 * value_of xs + (of_char c - 48)"
  by (simp add: value_of_def)

lemma dec_ok: "list_all is_digit (dec n) \<and> value_of (dec n) = n \<and> dec n \<noteq> []"
proof (induction n rule: dec.induct)
  case (1 n)
  show ?case
  proof (cases "n < 10")
    case True
    then show ?thesis using value_of_snoc [of "[]" "dig n"]
      by (simp add: dec.simps [of n] is_digit_dig of_char_dig del: value_of_snoc)
  next
    case False
    then show ?thesis using 1 by (simp add: dec.simps [of n] is_digit_dig of_char_dig)
  qed
qed

lemma value_of_append: "value_of (xs @ ys) = value_of xs * 10 ^ length ys + value_of ys"
proof (induction ys rule: rev_induct)
  case (snoc c ys)
  then show ?case using value_of_snoc [of "xs @ ys" c] by (simp add: algebra_simps)
qed simp

lemma value_of_zeros [simp]: "value_of (replicate k (CHR ''0'')) = 0"
  by (induction k) (simp_all add: value_of_def)

lemma value_of_bound: "list_all is_digit xs \<Longrightarrow> value_of xs < 10 ^ length xs"
proof (induction xs rule: rev_induct)
  case (snoc c xs)
  have c: "(of_char c :: nat) - 48 \<le> 9" using snoc.prems by (auto simp: is_digit_def)
  have "value_of xs < 10 ^ length xs" using snoc by simp
  then have "10 * value_of xs + 10 \<le> 10 * 10 ^ length xs" by linarith
  then show ?case using c by (simp del: of_char_eq_iff)
qed simp

lemma value_of_take:
  assumes "list_all is_digit xs" "k \<le> length xs"
  shows "value_of (take k xs) = value_of xs div 10 ^ (length xs - k)"
proof -
  have "value_of xs = value_of (take k xs) * 10 ^ (length xs - k) + value_of (drop k xs)"
    using value_of_append [of "take k xs" "drop k xs"] assms(2) by simp
  moreover have "value_of (drop k xs) < 10 ^ (length xs - k)"
    using value_of_bound [of "drop k xs"] assms by (simp add: list_all_iff in_set_dropD)
  ultimately show ?thesis by simp
qed

lemma pad_ok: "list_all is_digit (pad w n) \<and> value_of (pad w n) = n \<and> pad w n \<noteq> []"
  using dec_ok [of n] by (auto simp: pad_def value_of_append list_all_iff is_digit_def)

lemma length_dec: "n < 10 ^ Suc k \<Longrightarrow> length (dec n) \<le> Suc k"
proof (induction k arbitrary: n)
  case 0
  then show ?case by (simp add: dec.simps)
next
  case (Suc k)
  then show ?case using Suc.IH [of "n div 10"] by (auto simp: dec.simps [of n] less_mult_imp_div_less mult.commute)
qed

lemma length_pad: "n < 10 ^ w \<Longrightarrow> 0 < w \<Longrightarrow> length (pad w n) = w"
  using length_dec [of n "w - 1"] by (simp add: pad_def)

lemma digit_not: "is_digit c \<Longrightarrow> c \<noteq> CHR ''-'' \<and> c \<noteq> CHR ''+'' \<and> c \<noteq> CHR '':'' \<and> c \<noteq> CHR ''U'' \<and> c \<noteq> CHR ''.'' \<and> \<not> is_space c"
  by (auto simp: is_digit_def is_space_def)

lemma scan_nat_digits:
  assumes "list_all is_digit ds" "ds \<noteq> []" "rest = [] \<or> \<not> is_digit (hd rest)"
  shows "scan_nat (ds @ rest) = Some (int (value_of ds), rest)"
proof -
  have "takeWhile is_digit (ds @ rest) = ds" "dropWhile is_digit (ds @ rest) = rest"
    using assms by (cases rest; simp add: list_all_iff takeWhile_append2 dropWhile_append2)+
  then show ?thesis using assms(2) by (simp add: scan_nat_def)
qed

lemma scan_int_digits:
  assumes "list_all is_digit ds" "ds \<noteq> []" "rest = [] \<or> \<not> is_digit (hd rest)"
  shows "scan_int (ds @ rest) = Some (int (value_of ds), rest)"
proof -
  obtain c r where ds: "ds = c # r" using assms(2) by (cases ds) auto
  then have c: "c \<noteq> CHR ''-''" "c \<noteq> CHR ''+''" "\<not> is_space c" using assms(1) digit_not by auto
  then show ?thesis using scan_nat_digits [OF assms] ds by (simp add: scan_int_def)
qed

lemma scan_int_fmt:
  assumes "0 \<le> x" "rest = [] \<or> \<not> is_digit (hd rest)"
  shows "scan_int (fmt_int w x @ rest) = Some (x, rest)"
  using scan_int_digits [of "pad w (nat x)" rest] pad_ok [of w "nat x"] assms by (simp add: fmt_int_def)

lemma scan_int_signed: "scan_int (fmt_signed x) = Some (x, [])"
  using scan_nat_digits [of "dec (nat x)" "[]"] scan_nat_digits [of "dec (nat (- x))" "[]"] dec_ok [of "nat x"]
    dec_ok [of "nat (- x)"] by (auto simp: fmt_signed_def scan_int_def is_space_def)

section \<open>Printed timestamps are read back\<close>

text \<open>The three groups of the fraction, without their dots.\<close>

lemma fraction_digits:
  assumes "sub < (1000000000 :: nat)"
  defines "D \<equiv> pad 3 (sub div 1000000) @ pad 3 (sub div 1000 mod 1000) @ pad 3 (sub mod 1000)"
  shows "length D = 9" "list_all is_digit D" "value_of D = sub"
proof -
  have "sub div 1000000 < 1000" using assms(1) by (simp add: less_mult_imp_div_less)
  then have l: "length (pad 3 (sub div 1000000)) = 3" "length (pad 3 (sub div 1000 mod 1000)) = 3" "length (pad 3 (sub mod 1000)) = 3"
    by (simp_all add: length_pad)
  show "length D = 9" "list_all is_digit D" using l pad_ok by (simp_all add: D_def)
  have "sub div 1000000 = sub div 1000 div 1000" by (simp add: div_mult2_eq [symmetric])
  moreover have "sub = sub div 1000 * 1000 + sub mod 1000"
    "sub div 1000 = sub div 1000 div 1000 * 1000 + sub div 1000 mod 1000" by simp_all
  ultimately have "sub = sub div 1000000 * 1000000 + (sub div 1000 mod 1000) * 1000 + sub mod 1000" by linarith
  then show "value_of D = sub" using pad_ok l by (simp add: D_def value_of_append)
qed

lemma fraction_cut:
  assumes "length x = 3" "length y = 3" "length z = 3" "1 \<le> k" "k \<le> (9 :: nat)"
  defines "body \<equiv> take (k + (k + 2) div 3 - 1) (x @ CHR ''.'' # y @ CHR ''.'' # z)"
  defines "a \<equiv> if length body > 7 then take 7 body @ drop 8 body else body"
  defines "b \<equiv> if length a > 3 then take 3 a @ drop 4 a else a"
  shows "vresize b 9 (CHR ''0'') = take k (x @ y @ z) @ replicate (9 - k) (CHR ''0'')"
proof -
  obtain x1 x2 x3 y1 y2 y3 z1 z2 z3 where x: "x = [x1, x2, x3]" "y = [y1, y2, y3]" "z = [z1, z2, z3]"
    using assms(1-3) by (auto simp: numeral_3_eq_3 length_Suc_conv)
  consider "k = 1" | "k = 2" | "k = 3" | "k = 4" | "k = 5" | "k = 6" | "k = 7" | "k = 8" | "k = 9"
    using assms(4,5) by linarith
  then show ?thesis
    by cases (simp_all add: b_def a_def body_def x vresize_def)
qed

lemma fraction_value:
  assumes "length D = 9" "list_all is_digit D" "k \<le> 9" 
  shows "atoi (take k D @ replicate (9 - k) (CHR ''0'')) = int (value_of D div 10 ^ (9 - k) * 10 ^ (9 - k))"
proof -
  have "list_all is_digit (take k D @ replicate (9 - k) (CHR ''0''))"
    using assms(2) by (auto simp: list_all_iff is_digit_def dest: in_set_takeD)
  moreover have "take k D @ replicate (9 - k) (CHR ''0'') \<noteq> []" using assms(1,3) by (cases k) auto
  ultimately have "scan_int ((take k D @ replicate (9 - k) (CHR ''0'')) @ []) =
      Some (int (value_of (take k D @ replicate (9 - k) (CHR ''0''))), [])"
    by (intro scan_int_digits) auto
  then show ?thesis using value_of_take [OF assms(2), of k] assms(1,3) by (simp add: atoi_def value_of_append)
qed

text \<open>The date and time at the front: 19 characters that \<open>sscanf\<close> reads back.\<close>

definition front :: "YMD \<Rightarrow> int \<Rightarrow> int \<Rightarrow> int \<Rightarrow> string" where
  "front d h m s = fmt_int 4 (yyear d) @ ''-'' @ fmt_int 2 (ymonth d) @ ''-'' @ fmt_int 2 (yday d) @ ''+'' @
     fmt_int 2 h @ '':'' @ fmt_int 2 m @ '':'' @ fmt_int 2 s"

lemma length_fmt: "0 \<le> x \<Longrightarrow> x < 10 ^ w \<Longrightarrow> 0 < w \<Longrightarrow> length (fmt_int w x) = w"
  using length_pad [of "nat x" w] by (simp add: fmt_int_def nat_less_iff)

lemma front_read:
  assumes "0 \<le> yyear d" "0 \<le> ymonth d" "0 \<le> yday d" "0 \<le> h" "0 \<le> m" "0 \<le> s"
  shows "scan_fmt [None, Some (CHR ''-''), None, Some (CHR ''-''), None, Some (CHR ''+''), None,
      Some (CHR '':''), None, Some (CHR '':''), None] (front d h m s @ CHR ''.'' # rest) =
    [yyear d, ymonth d, yday d, h, m, s]"
  using assms by (simp add: front_def scan_int_fmt is_digit_def)

lemma front_length:
  assumes "0 \<le> yyear d" "yyear d < 10000" "0 \<le> ymonth d" "ymonth d < 100" "0 \<le> yday d" "yday d < 100"
    "0 \<le> h" "h < 100" "0 \<le> m" "m < 100" "0 \<le> s" "s < 100"
  shows "length (front d h m s) = 19"
  using assms by (simp add: front_def length_fmt)

lemma seconds_split: "S div 86400 * 86400 + (S div 3600 mod 24 * 60 + S div 60 mod 60) * 60 + S mod 60 = (S :: int)"
proof -
  have d: "S div 3600 = S div 60 div 60" "S div 86400 = S div 60 div 60 div 24"
    using zdiv_zmult2_eq [of 60 S 60] zdiv_zmult2_eq [of 24 S 3600] by simp_all
  have "c * 86400 + (x * 60 + y) * 60 + z = S" if "S = a * 60 + z" "a = b * 60 + y" "b = c * 24 + x" for a b c x y z
    using that by simp
  from this [OF div_mult_mod_eq [symmetric] div_mult_mod_eq [symmetric] div_mult_mod_eq [symmetric]]
  show ?thesis unfolding d .
qed

lemma read_tail:
  assumes "length x = 3" "length y = 3" "length z = 3" "list_all is_digit (x @ y @ z)" "1 \<le> k" "k \<le> (9 :: nat)"
  shows "takeWhile (\<lambda>c. c \<noteq> CHR ''U'') (take (k + (k + 2) div 3 - 1) (x @ CHR ''.'' # y @ CHR ''.'' # z) @ CHR ''U'' # u) =
      take (k + (k + 2) div 3 - 1) (x @ CHR ''.'' # y @ CHR ''.'' # z)"
    "dropWhile (\<lambda>c. c \<noteq> CHR ''U'') (take (k + (k + 2) div 3 - 1) (x @ CHR ''.'' # y @ CHR ''.'' # z) @ CHR ''U'' # u) =
      CHR ''U'' # u"
proof -
  let ?b = "take (k + (k + 2) div 3 - 1) (x @ CHR ''.'' # y @ CHR ''.'' # z)"
  have "c \<noteq> CHR ''U''" if "c \<in> set ?b" for c
    using in_set_takeD [OF that] assms(4) digit_not by (auto simp: list_all_iff)
  then show "takeWhile (\<lambda>c. c \<noteq> CHR ''U'') (?b @ CHR ''U'' # u) = ?b"
    "dropWhile (\<lambda>c. c \<noteq> CHR ''U'') (?b @ CHR ''U'' # u) = CHR ''U'' # u"
    by (simp_all add: takeWhile_append2 dropWhile_append2)
qed

lemma date_seconds: "0 \<le> n \<Longrightarrow> n * ns_per_day sdiv 1000000000 = n * 86400"
proof -
  assume "0 \<le> n"
  then have "n * ns_per_day sdiv 1000000000 = (n * 86400 * 1000000000) div 1000000000"
    by (subst sdiv_pos) (simp_all add: ns_per_day_def)
  also have "\<dots> = n * 86400" by (rule nonzero_mult_div_cancel_right) simp
  finally show ?thesis .
qed

lemma StringToTimestamp_front:
  assumes "length (front d h m s) = 19" "0 \<le> yyear d" "valid_date d" "0 \<le> h" "0 \<le> m" "0 \<le> s" "0 \<le> day_number d"
    and xyz: "length x = 3" "length y = 3" "length z = 3" "list_all is_digit (x @ y @ z)"
    and k: "1 \<le> k" "k \<le> (9 :: nat)"
  shows "StringToTimestamp (front d h m s @ take (k + (k + 2) div 3) (CHR ''.'' # x @ CHR ''.'' # y @ CHR ''.'' # z) @
      CHR ''U'' # fmt_signed (- off)) =
    Some (ts ((day_number d * 86400 + (h * 60 + m) * 60 + s + off * 3600) * 1000000000 +
      int (value_of (x @ y @ z) div 10 ^ (9 - k) * 10 ^ (9 - k))))"
proof -
  let ?b = "take (k + (k + 2) div 3 - 1) (x @ CHR ''.'' # y @ CHR ''.'' # z)" let ?u = "fmt_signed (- off)"
  let ?str = "front d h m s @ CHR ''.'' # ?b @ CHR ''U'' # ?u"
  have str: "front d h m s @ take (k + (k + 2) div 3) (CHR ''.'' # x @ CHR ''.'' # y @ CHR ''.'' # z) @ CHR ''U'' # ?u = ?str"
    using k by (cases "k + (k + 2) div 3") simp_all
  have md: "0 \<le> ymonth d" "0 \<le> yday d" using assms(3) by (auto simp: valid_date_def)
  note vs = front_read [OF assms(2) md assms(4-6), of "?b @ CHR ''U'' # ?u"]
  have d: "drop 20 ?str = ?b @ CHR ''U'' # ?u" "cassert (20 \<le> length ?str) = Some ()" using assms(1) by simp_all
  have f: "field [yyear d, ymonth d, yday d, h, m, s] 0 = yyear d" "field [yyear d, ymonth d, yday d, h, m, s] 1 = ymonth d"
      "field [yyear d, ymonth d, yday d, h, m, s] 2 = yday d" "field [yyear d, ymonth d, yday d, h, m, s] 3 = h"
      "field [yyear d, ymonth d, yday d, h, m, s] 4 = m" "field [yyear d, ymonth d, yday d, h, m, s] 5 = s"
    by (simp_all add: field_def)
  have u: "field (scan_fmt [Some (CHR ''U''), None] (CHR ''U'' # ?u)) 0 = - off"
    by (simp add: scan_int_signed field_def)
  have D: "length (x @ y @ z) = 9" using xyz by simp
  have dd: "\<lparr>yyear = yyear d, ymonth = ymonth d, yday = yday d\<rparr> = d" by simp
  have nn: "ns (ts x) = x" for x by simp
  have U: "CHR ''U'' \<in> set (?b @ CHR ''U'' # ?u)" by simp
  show ?thesis
    unfolding str StringToTimestamp_def Let_def vs d f read_tail [OF xyz k] u if_P [OF U] prod.case
      fraction_cut [OF xyz(1-3) k] fraction_value [OF D xyz(4) k(2)] dd TimestampFromYMD_ok [OF assms(3)]
      Option.bind.simps nn date_seconds [OF assms(7)]
    by simp
qed

lemma year_bound:
  assumes "0 \<le> n" "n < 2 ^ 63" "day_number d = n div ns_per_day" "valid_date d" "1969 \<le> yyear d"
  shows "0 \<le> day_number d \<and> yyear d < 10000"
proof -
  have dn: "0 \<le> day_number d" "day_number d < 106752"
  proof -
    show "0 \<le> day_number d" using assms(1,3) by (simp add: ns_per_day_def pos_imp_zdiv_nonneg_iff)
    have "n div ns_per_day \<le> (2 ^ 63) div ns_per_day" using assms(2) by (intro zdiv_mono1) (simp_all add: ns_per_day_def)
    then show "day_number d < 106752" using assms(3) by (simp add: ns_per_day_def)
  qed
  have "year_start 1969 + 365 * int (nat (yyear d - 1969)) \<le> year_start (1969 + int (nat (yyear d - 1969)))"
    by (rule conjunct1 [OF year_start_mono]) simp
  moreover have "year_start 1969 = - 365" by (simp add: year_start_def LeapYearsBefore_def sdiv_pos)
  ultimately show ?thesis using dn day_in_year [OF assms(4)] assms(5) by simp
qed

lemma TimestampToString_front:
  assumes "0 \<le> n" "n = ns t - off * 3600000000000" "YMDFromTimestamp (ts n) = Some d" "1 \<le> k" "k \<le> (9 :: nat)"
  defines "S \<equiv> n div 1000000000" and "sub \<equiv> nat (n mod 1000000000)"
  shows "TimestampToString off t (int k) = Some (front d (S div 3600 mod 24) (S div 60 mod 60) (S mod 60) @
    take (k + (k + 2) div 3) (CHR ''.'' # pad 3 (sub div 1000000) @ CHR ''.'' # pad 3 (sub div 1000 mod 1000) @
      CHR ''.'' # pad 3 (sub mod 1000)) @ CHR ''U'' # fmt_signed (- off))"
proof -
  have n: "ns (ts n) = n" "ts (ns t - off * 3600 * 1000 * 1000 * 1000) = ts n"
    using assms(2) by simp_all
  have S: "n sdiv 1000000000 = S" "0 \<le> S" using assms(1) by (simp_all add: S_def sdiv_pos)
  have sub: "n - S * 1000000000 = int sub" by (simp add: S_def sub_def minus_div_mult_eq_mod)
  have hms: "S sdiv 3600 smod 24 = S div 3600 mod 24" "S sdiv 60 smod 60 = S div 60 mod 60" "S smod 60 = S mod 60"
    using S(2) by (simp_all add: sdiv_pos smod_pos pos_imp_zdiv_nonneg_iff)
  have fr: "fmt_int 3 (int sub sdiv 1000000) = pad 3 (sub div 1000000)"
    "fmt_int 3 (int sub sdiv 1000 smod 1000) = pad 3 (sub div 1000 mod 1000)" "fmt_int 3 (int sub smod 1000) = pad 3 (sub mod 1000)"
    by (simp_all add: fmt_int_def sdiv_pos smod_pos zdiv_int [symmetric] zmod_int [symmetric] nat_div_distrib nat_mod_distrib)
  have len: "nat (int k + (int k + 2) sdiv 3) = k + (k + 2) div 3"
    by (simp add: sdiv_pos nat_add_distrib nat_div_distrib)
  have k: "(if int k > 9 then 9 else if int k < 0 then 0 else int k) = int k" using assms(5) by simp
  show ?thesis
    unfolding TimestampToString_def Let_def n(2) n(1) assms(3) S sub hms fr k len Option.bind.simps front_def by simp
qed

lemma round_down:
  assumes "k \<le> 9" "n = m * 10 ^ 9 + int a"
  shows "m * 1000000000 + int (a div 10 ^ (9 - k) * 10 ^ (9 - k)) = n - n mod 10 ^ (9 - k)"
proof -
  let ?P = "10 ^ (9 - k)"
  have "(10 :: int) ^ 9 = 10 ^ k * ?P" using assms(1) by (simp add: power_add [symmetric])
  then have "n = m * 10 ^ k * ?P + int a" using assms(2) by simp
  then have "n mod ?P = int a mod ?P" by simp
  moreover have "int (a div ?P * ?P) = int a - int a mod ?P"
    by (simp add: zdiv_int minus_mod_eq_div_mult)
  ultimately show ?thesis using assms(2) by simp
qed

section \<open>Properties\<close>

text \<open>C25. The calendar. The date that \<open>YMDFromTimestamp\<close> computes for a time since 1970 is the one
  that is reached from 1970-01-01 by going to the next date once per whole day; in particular its
  loops end and the table of month lengths is not read out of bounds.\<close>
theorem date_of_timestamp:
  assumes "0 \<le> n"
  shows "YMDFromTimestamp (ts n) =
    Some ((next_date ^^ nat (n div ns_per_day)) \<lparr>yyear = 1970, ymonth = 1, yday = 1\<rparr>)"
proof -
  let ?d = "\<lambda>k. (next_date ^^ k) \<lparr>yyear = 1970, ymonth = 1, yday = 1\<rparr>"
  have "valid_date (?d k) \<and> day_number (?d k) = int k \<and> 1970 \<le> yyear (?d k)" for k
  proof (induction k)
    case 0
    show ?case by (simp add: valid_date_def daysPerMonth_def day_number_def year_start_def LeapYearsBefore_def sdiv_pos)
  next
    case (Suc k)
    then show ?case using next_date_ok [of "?d k"] by auto
  qed
  note r = this [of "nat (n div ns_per_day)"]
  have "0 \<le> n div ns_per_day" using assms by (simp add: ns_per_day_def pos_imp_zdiv_nonneg_iff)
  moreover obtain d where "YMDFromTimestamp (ts n) = Some d" "valid_date d" "1969 \<le> yyear d"
      "day_number d = n div ns_per_day"
    using YMDFromTimestamp_ok [of "ts n"] assms by auto
  ultimately show ?thesis using r day_number_inj [of d "?d (nat (n div ns_per_day))"] by simp
qed

theorem date_of_timestamp_witness:
  "YMDFromTimestamp (ts (60 * ns_per_day + 5)) = Some ((next_date ^^ 60) \<lparr>yyear = 1970, ymonth = 1, yday = 1\<rparr>)"
  using date_of_timestamp [of "60 * ns_per_day + 5"] by (simp add: ns_per_day_def)







end
