(* ===== verification/Commands.thy ===== *)
theory Commands
  imports Byte_Buffer
begin

text \<open>
  Commands and their queues: the tagged handles of \<open>src/include/icon7/Command.hpp\<close>, the buffers of
  many commands (\<open>src/src/CommandsBuffer.cpp\<close>, \<open>src/src/CommandsBufferHandler.cpp\<close>) and
  \<open>CommandExecutionQueue\<close> (\<open>src/src/CommandExecutionQueue.cpp\<close>).

  A command is an abstract value \<open>'c\<close>; what matters is that it is executed and destroyed, how often
  and in which order. A \<open>CommandsBuffer\<close> is a block of memory in which commands grow from the front
  and a table of their offsets grows from the back; the model keeps the block cell by cell, so
  that an entry overwritten by a command is lost. The concurrent queue is third-party code
  (moodycamel): the argument \<open>deq\<close> of \<open>Execute\<close> stands for \<open>try_dequeue_bulk\<close>, and the hypothesis
  \<open>bulk_ok\<close> states that it removes elements from the front, at most as many as asked for.
\<close>

section \<open>Command handles\<close>

definition COMMAND_BITS_MASK :: u64 where "COMMAND_BITS_MASK = 7"
definition REGULAR_COMMAND :: u64 where "REGULAR_COMMAND = 0"
definition COROUTINE_HANDLE :: u64 where "COROUTINE_HANDLE = 1"

text \<open>What a handle does to the object at an address.\<close>

datatype handle_event = Execute_Command u64 | Release_Command u64 | Resume_Coroutine u64 | Destroy_Coroutine u64

definition CH_Create_Command :: "u64 \<Rightarrow> u64" where
  "CH_Create_Command com = com"

definition CH_Create_Coroutine :: "u64 \<Rightarrow> u64" where
  "CH_Create_Coroutine coro = coro OR COROUTINE_HANDLE"

definition CH_IsValid :: "u64 \<Rightarrow> bool" where
  "CH_IsValid handle \<longleftrightarrow> handle \<noteq> 0"

text \<open>The events and the new value of the handle.\<close>

definition CH_Execute :: "u64 \<Rightarrow> handle_event list \<times> u64" where
  "CH_Execute handle =
     (let type = handle AND COMMAND_BITS_MASK; ptr = handle AND NOT COMMAND_BITS_MASK in
      (if ptr \<noteq> 0
       then if type = REGULAR_COMMAND then [Execute_Command ptr, Release_Command ptr]
            else if type = COROUTINE_HANDLE then [Resume_Coroutine ptr] else []
       else [], 0))"

definition CH_Destroy :: "u64 \<Rightarrow> handle_event list \<times> u64" where
  "CH_Destroy handle =
     (let type = handle AND COMMAND_BITS_MASK; ptr = handle AND NOT COMMAND_BITS_MASK in
      (if ptr \<noteq> 0
       then if type = REGULAR_COMMAND then [Release_Command ptr]
            else if type = COROUTINE_HANDLE then [Destroy_Coroutine ptr] else []
       else [], 0))"

text \<open>Move construction, and move assignment of \<open>o\<close> to \<open>handle\<close>: the new values of both.\<close>

definition CH_move :: "u64 \<Rightarrow> u64 \<times> u64" where
  "CH_move ob = (ob, 0)"

definition CH_assign :: "u64 \<Rightarrow> u64 \<Rightarrow> u64 \<times> u64" where
  "CH_assign handle ob = (if handle \<noteq> 0 then (handle, ob) else (ob, 0))"

section \<open>Commands buffers\<close>

text \<open>A cell of the block: the first or a further byte of a command, or a byte of an offset.\<close>

datatype 'c cell = Junk | Obj 'c | Obj_Byte | Meta nat nat

record 'c CommandsBuffer =
  commandsBufferData :: "'c cell list option"
  totalBytes :: nat
  countCommands :: nat
  commandsExecuted :: nat
  offsetOfFree :: nat

datatype 'c event = Exec 'c | Destr 'c

definition CB_empty :: "'c CommandsBuffer" where
  "CB_empty = \<lparr>commandsBufferData = None, totalBytes = 0, countCommands = 0, commandsExecuted = 0, offsetOfFree = 0\<rparr>"

definition CB_IsValid :: "'c CommandsBuffer \<Rightarrow> bool" where
  "CB_IsValid b \<longleftrightarrow> commandsBufferData b \<noteq> None"

definition put_cells :: "'c cell list \<Rightarrow> nat \<Rightarrow> 'c cell list \<Rightarrow> 'c cell list option" where
  "put_cells blk pos cs = (if pos + length cs \<le> length blk
     then Some (take pos blk @ cs @ drop (pos + length cs) blk) else None)"

definition meta_cells :: "nat \<Rightarrow> 'c cell list" where
  "meta_cells off = [Meta off 0, Meta off 1, Meta off 2, Meta off 3]"

definition obj_cells :: "'c \<Rightarrow> nat \<Rightarrow> 'c cell list" where
  "obj_cells c sz = Obj c # replicate (sz - 1) Obj_Byte"

text \<open>The \<open>uint32_t\<close> offset of the entry for command \<open>id\<close>, counted from the end of the block.\<close>

definition GetMetadataOffset :: "'c CommandsBuffer \<Rightarrow> nat \<Rightarrow> nat" where
  "GetMetadataOffset b i = nat ((int (totalBytes b) - 4 * (int i + 1)) mod 2 ^ 32)"

definition read_meta :: "'c cell list \<Rightarrow> nat \<Rightarrow> nat option" where
  "read_meta blk pos =
     do { c \<leftarrow> vget blk pos;
          (case c of Meta off k \<Rightarrow> if take 4 (drop pos blk) = meta_cells off then Some off else None | _ \<Rightarrow> None) }"

definition GetCommand :: "'c CommandsBuffer \<Rightarrow> nat \<Rightarrow> 'c option" where
  "GetCommand b i =
     do { blk \<leftarrow> commandsBufferData b;
          off \<leftarrow> read_meta blk (GetMetadataOffset b i);
          c \<leftarrow> vget blk off;
          (case c of Obj x \<Rightarrow> Some x | _ \<Rightarrow> None) }"

definition GetOffsetOfNextCommand :: "'c CommandsBuffer \<Rightarrow> nat \<Rightarrow> nat option" where
  "GetOffsetOfNextCommand b alignement =
     do { cassert (alignement \<le> 4096);
          cassert (offsetOfFree b < totalBytes b);
          let offset = (of_nat (offsetOfFree b) + of_nat alignement - 1 :: u32);
          Some (unat (offset AND NOT (of_nat alignement - 1))) }"

definition CanAllocate :: "'c CommandsBuffer \<Rightarrow> nat \<Rightarrow> nat \<Rightarrow> bool option" where
  "CanAllocate b sz alignement =
     (if CB_IsValid b = False then Some False
      else do { let metaOffset = GetMetadataOffset b (countCommands b);
                commandOffset \<leftarrow> GetOffsetOfNextCommand b alignement;
                Some (\<not> (commandOffset + sz) mod 2 ^ 32 > metaOffset) })"

definition CB_Allocate :: "'c CommandsBuffer \<Rightarrow> nat \<Rightarrow> nat \<Rightarrow> ('c CommandsBuffer \<times> nat option) option" where
  "CB_Allocate b sz alignement =
     do { can \<leftarrow> CanAllocate b sz alignement;
          (if can = False then Some (b, None)
           else do { commandOffset \<leftarrow> GetOffsetOfNextCommand b alignement;
                     blk \<leftarrow> commandsBufferData b;
                     blk \<leftarrow> put_cells blk (GetMetadataOffset b (countCommands b)) (meta_cells commandOffset);
                     Some (b\<lparr>countCommands := countCommands b + 1, commandsBufferData := Some blk,
                             offsetOfFree := (commandOffset + sz) mod 2 ^ 32\<rparr>, Some commandOffset) }) }"

text \<open>\<open>EnqueueCommand\<close> constructs the command in the allocated bytes.\<close>

definition CB_EnqueueCommand :: "'c CommandsBuffer \<Rightarrow> 'c \<Rightarrow> nat \<Rightarrow> nat \<Rightarrow> ('c CommandsBuffer \<times> bool) option" where
  "CB_EnqueueCommand b c sz alignement =
     do { (b, ptr) \<leftarrow> CB_Allocate b sz alignement;
          (case ptr of
             None \<Rightarrow> Some (b, False)
           | Some off \<Rightarrow> do { blk \<leftarrow> commandsBufferData b;
                            blk \<leftarrow> put_cells blk off (obj_cells c sz);
                            Some (b\<lparr>commandsBufferData := Some blk\<rparr>, True) }) }"

text \<open>The loops of \<open>ExecuteAll\<close> and \<open>CallDestructors\<close> over the commands not yet executed.\<close>

function execute_loop :: "('c \<Rightarrow> 'c event list) \<Rightarrow> 'c CommandsBuffer \<Rightarrow> ('c CommandsBuffer \<times> 'c event list) option" where
  "execute_loop act b =
     (if commandsExecuted b < countCommands b
      then do { com \<leftarrow> GetCommand b (commandsExecuted b);
                (b, evs) \<leftarrow> execute_loop act (b\<lparr>commandsExecuted := commandsExecuted b + 1\<rparr>);
                Some (b, act com @ evs) }
      else Some (b, []))"
  by auto
termination by (relation "measure (\<lambda>(act, b). countCommands b - commandsExecuted b)") auto

declare execute_loop.simps [simp del]

definition ExecuteAll :: "'c CommandsBuffer \<Rightarrow> ('c CommandsBuffer \<times> 'c event list) option" where
  "ExecuteAll = execute_loop (\<lambda>c. [Exec c, Destr c])"

definition CallDestructors :: "'c CommandsBuffer \<Rightarrow> ('c CommandsBuffer \<times> 'c event list) option" where
  "CallDestructors = execute_loop (\<lambda>c. [Destr c])"

definition CB_Reset :: "'c CommandsBuffer \<Rightarrow> ('c CommandsBuffer \<times> 'c event list) option" where
  "CB_Reset b =
     (if commandsBufferData b \<noteq> None
      then do { (b, evs) \<leftarrow> CallDestructors b;
                Some (b\<lparr>commandsBufferData := None, totalBytes := 0, countCommands := 0, commandsExecuted := 0\<rparr>, evs) }
      else Some (b, []))"

definition CB_Init :: "(nat \<Rightarrow> bytes) \<Rightarrow> 'c CommandsBuffer \<Rightarrow> nat \<Rightarrow> ('c CommandsBuffer \<times> 'c event list) option" where
  "CB_Init A b sz =
     do { (b, evs) \<leftarrow> CB_Reset b;
          Some (b\<lparr>commandsBufferData := Some (replicate (length (A sz)) Junk), totalBytes := length (A sz),
                  countCommands := 0, commandsExecuted := 0, offsetOfFree := 0\<rparr>, evs) }"

text \<open>Move construction (the new buffer and what is left) and move assignment of \<open>o\<close> to \<open>b\<close>.\<close>

definition CB_move :: "'c CommandsBuffer \<Rightarrow> 'c CommandsBuffer \<times> 'c CommandsBuffer" where
  "CB_move ob = (ob, CB_empty)"

definition CB_assign :: "'c CommandsBuffer \<Rightarrow> 'c CommandsBuffer \<Rightarrow>
    ('c CommandsBuffer \<times> 'c CommandsBuffer \<times> 'c event list) option" where
  "CB_assign b ob = do { (_, evs) \<leftarrow> CB_Reset b; let (b, ob) = CB_move ob; Some (b, ob, evs) }"

section \<open>The buffer handler\<close>

text \<open>\<open>hqueue\<close> collects the buffers passed to \<open>EnqueueCommandsBuffer\<close>; \<open>hfatals\<close> counts commands that
  could not be enqueued.\<close>

record 'c CommandsBufferHandler =
  hqueue :: "'c CommandsBuffer list"
  currentCommandsBuffer :: "'c CommandsBuffer"
  forceEnqueueTimepoint :: int
  hfatals :: nat

definition bufferSize :: nat where "bufferSize = 1024 * 16"

definition Handler_new :: "int \<Rightarrow> 'c CommandsBufferHandler" where
  "Handler_new now = \<lparr>hqueue = [], currentCommandsBuffer = CB_empty,
     forceEnqueueTimepoint = now + 200 * 1000000, hfatals = 0\<rparr>"

definition FlushBuffer :: "'c CommandsBufferHandler \<Rightarrow> 'c CommandsBufferHandler option" where
  "FlushBuffer h =
     (if CB_IsValid (currentCommandsBuffer h) \<and> countCommands (currentCommandsBuffer h) \<noteq> 0
      then do { let (b, left) = CB_move (currentCommandsBuffer h);
                (b, left, evs) \<leftarrow> CB_assign CB_empty b;
                (cur, evs) \<leftarrow> CB_Reset left;
                Some (h\<lparr>hqueue := hqueue h @ [b], currentCommandsBuffer := cur\<rparr>) }
      else Some h)"

definition AllocateBuffer :: "(nat \<Rightarrow> bytes) \<Rightarrow> 'c CommandsBufferHandler \<Rightarrow> 'c CommandsBufferHandler option" where
  "AllocateBuffer A h =
     do { h \<leftarrow> FlushBuffer h;
          cassert (countCommands (currentCommandsBuffer h) = 0);
          h \<leftarrow> (if \<not> CB_IsValid (currentCommandsBuffer h)
                then do { (cur, evs) \<leftarrow> CB_Reset (currentCommandsBuffer h);
                          (cur, evs) \<leftarrow> CB_Init A cur bufferSize;
                          Some (h\<lparr>currentCommandsBuffer := cur\<rparr>) }
                else Some h);
          cassert (countCommands (currentCommandsBuffer h) = 0);
          Some h }"

text \<open>\<open>now\<close> and \<open>now'\<close> are the two readings of the clock.\<close>

definition Handler_EnqueueCommand ::
  "(nat \<Rightarrow> bytes) \<Rightarrow> 'c CommandsBufferHandler \<Rightarrow> 'c \<Rightarrow> nat \<Rightarrow> nat \<Rightarrow> int \<Rightarrow> int \<Rightarrow> 'c CommandsBufferHandler option" where
  "Handler_EnqueueCommand A h c sz alignement now now' =
     do { full \<leftarrow> (if CB_IsValid (currentCommandsBuffer h) = False then Some True
                   else do { can \<leftarrow> CanAllocate (currentCommandsBuffer h) sz alignement; Some (can = False) });
          h \<leftarrow> (if full then AllocateBuffer A h else Some h);
          h \<leftarrow> (if forceEnqueueTimepoint h < now then AllocateBuffer A h else Some h);
          let h = (if countCommands (currentCommandsBuffer h) = 0
                   then h\<lparr>forceEnqueueTimepoint := now' + 200 * 1000000\<rparr> else h);
          (cur, ok) \<leftarrow> CB_EnqueueCommand (currentCommandsBuffer h) c sz alignement;
          Some (h\<lparr>currentCommandsBuffer := cur, hfatals := hfatals h + (if ok then 0 else 1)\<rparr>) }"

definition Handler_EnqueueCommandAndFlush ::
  "(nat \<Rightarrow> bytes) \<Rightarrow> 'c CommandsBufferHandler \<Rightarrow> 'c \<Rightarrow> nat \<Rightarrow> nat \<Rightarrow> int \<Rightarrow> int \<Rightarrow> 'c CommandsBufferHandler option" where
  "Handler_EnqueueCommandAndFlush A h c sz alignement now now' =
     do { h \<leftarrow> Handler_EnqueueCommand A h c sz alignement now now'; FlushBuffer h }"

section \<open>The layout of a buffer\<close>

lemma and_not_mask: "x AND NOT (2 ^ k - 1) = push_bit k (drop_bit k x)" for x :: "'a::len word"
proof -
  have "x AND NOT (mask k) = push_bit k (drop_bit k x)"
    by (rule bit_eqI) (auto simp: bit_simps)
  then show ?thesis by (simp add: mask_eq_exp_minus_1)
qed

lemma unat_and_not_mask: "unat (x AND NOT (2 ^ k - 1)) = unat x div 2 ^ k * 2 ^ k" for x :: "'a::len word"
proof -
  have "unat x div 2 ^ k * 2 ^ k \<le> unat x" by simp
  then have "unat x div 2 ^ k * 2 ^ k < 2 ^ LENGTH('a)"
    using unsigned_less [of x] by (rule le_less_trans)
  then show ?thesis
    unfolding and_not_mask
    by (simp add: unsigned_push_bit_eq unsigned_drop_bit_eq push_bit_eq_mult [of k "unat x div 2 ^ k"]
        drop_bit_eq_div [of k "unat x"] take_bit_nat_eq_self del: push_bit_eq_mult)
qed

text \<open>The smallest multiple of \<open>2 ^ k\<close> that is not less than \<open>n\<close>.\<close>

definition align_up :: "nat \<Rightarrow> nat \<Rightarrow> nat" where
  "align_up n k = (n + 2 ^ k - 1) div 2 ^ k * 2 ^ k"

lemma align_up_dvd: "2 ^ k dvd align_up n k"
  by (simp add: align_up_def)

lemma align_up_ge: "n \<le> align_up n k"
proof -
  have p: "0 < (2::nat) ^ k" by simp
  have "(n + 2 ^ k - 1) div 2 ^ k * 2 ^ k + (n + 2 ^ k - 1) mod 2 ^ k = n + 2 ^ k - 1" by (rule div_mult_mod_eq)
  moreover have "(n + 2 ^ k - 1) mod 2 ^ k < 2 ^ k" using p by simp
  ultimately show ?thesis unfolding align_up_def using p by linarith
qed

lemma align_up_le: "align_up n k \<le> n + 2 ^ k - 1"
  by (simp add: align_up_def)

lemma align_up_0 [simp]: "align_up 0 k = 0"
  by (simp add: align_up_def)

text \<open>An alignment as \<open>alignof\<close> gives it for the commands of the program.\<close>

definition align_ok :: "nat \<Rightarrow> bool" where
  "align_ok al \<longleftrightarrow> (\<exists>k\<le>12. al = 2 ^ k)"

lemma align_le: "k \<le> 12 \<Longrightarrow> (2::nat) ^ k \<le> 4096"
  using power_increasing [of k 12 "2::nat"] by simp

lemma GetOffset_align:
  assumes k: "k \<le> 12" and free: "offsetOfFree b < totalBytes b" and tot: "totalBytes b < 2 ^ 30"
  shows "GetOffsetOfNextCommand b (2 ^ k) = Some (align_up (offsetOfFree b) k)"
proof -
  have "of_nat (offsetOfFree b) + of_nat (2 ^ k) - 1 = (of_nat (offsetOfFree b + 2 ^ k - 1) :: u32)"
    by (subst of_nat_diff) (auto simp: Suc_le_eq)
  moreover have "unat (of_nat (offsetOfFree b + 2 ^ k - 1) :: u32) = offsetOfFree b + 2 ^ k - 1"
    using align_le [OF k] free tot by (simp add: unat_of_nat)
  ultimately show ?thesis
    using align_le [OF k] free by (simp add: GetOffsetOfNextCommand_def align_up_def unat_and_not_mask)
qed

lemma length_put_cells: "put_cells blk pos cs = Some blk' \<Longrightarrow> length blk' = length blk"
  by (auto simp: put_cells_def split: if_splits)

lemma nth_put_cells:
  "put_cells blk pos cs = Some blk' \<Longrightarrow> i < length blk \<Longrightarrow>
     blk' ! i = (if pos \<le> i \<and> i < pos + length cs then cs ! (i - pos) else blk ! i)"
  by (auto simp: put_cells_def nth_append min_def split: if_splits)

lemma put_cells_ok: "pos + length cs \<le> length blk \<Longrightarrow> \<exists>blk'. put_cells blk pos cs = Some blk'"
  by (simp add: put_cells_def)

lemma length_meta_cells [simp]: "length (meta_cells off) = 4"
  by (simp add: meta_cells_def)

lemma meta_cells_nth: "k < 4 \<Longrightarrow> meta_cells off ! k = Meta off k"
  by (auto simp: meta_cells_def less_Suc_eq numeral_eq_Suc)

lemma length_obj_cells [simp]: "0 < sz \<Longrightarrow> length (obj_cells c sz) = sz"
  by (simp add: obj_cells_def)

lemma read_meta_iff:
  "pos + 4 \<le> length blk \<Longrightarrow> read_meta blk pos = Some off \<longleftrightarrow> (\<forall>k<4. blk ! (pos + k) = Meta off k)"
proof -
  assume le: "pos + 4 \<le> length blk"
  have *: "take 4 (drop pos blk) = [blk ! pos, blk ! (pos + 1), blk ! (pos + 2), blk ! (pos + 3)]"
    using le by (intro nth_equalityI) (auto simp: less_Suc_eq numeral_eq_Suc nth_Cons')
  have **: "(\<forall>k<4. P k) \<longleftrightarrow> P 0 \<and> P 1 \<and> P 2 \<and> P (3::nat)" for P
    by (auto simp: less_Suc_eq numeral_eq_Suc)
  show ?thesis
    using le unfolding ** by (auto simp: read_meta_def * meta_cells_def split: cell.splits)
qed

text \<open>The metadata entry of command \<open>i\<close> is inside the block while the table has not met its front.\<close>

lemma meta_offset:
  "4 * Suc i \<le> totalBytes b \<Longrightarrow> totalBytes b < 2 ^ 30 \<Longrightarrow> GetMetadataOffset b i = totalBytes b - 4 * Suc i"
proof -
  assume le: "4 * Suc i \<le> totalBytes b" and tot: "totalBytes b < 2 ^ 30"
  have eq: "int (totalBytes b) - 4 * (int i + 1) = int (totalBytes b - 4 * Suc i)"
    using le by (simp add: of_nat_diff)
  show ?thesis
    unfolding GetMetadataOffset_def eq using tot by (simp add: zmod_int [symmetric] nat_mod_as_int del: of_nat_diff)
qed

text \<open>\<open>cb_holds b L\<close>: the buffer \<open>b\<close> holds the commands of \<open>L\<close>, each paired with its offset: the
  table entry of each gives its offset, the command is at that offset, and table and commands do
  not meet.\<close>

definition cb_block :: "'c CommandsBuffer \<Rightarrow> 'c cell list" where
  "cb_block b = the (commandsBufferData b)"

definition cb_holds :: "'c CommandsBuffer \<Rightarrow> (nat \<times> 'c) list \<Rightarrow> bool" where
  "cb_holds b L \<longleftrightarrow>
     commandsBufferData b \<noteq> None \<and> length (cb_block b) = totalBytes b \<and> 4 dvd totalBytes b \<and>
     0 < totalBytes b \<and> totalBytes b < 2 ^ 30 \<and> countCommands b = length L \<and> (L = [] \<longrightarrow> offsetOfFree b = 0) \<and>
     (L \<noteq> [] \<longrightarrow> 0 < offsetOfFree b) \<and>
     offsetOfFree b + 4 * length L \<le> totalBytes b \<and>
     (\<forall>i<length L. read_meta (cb_block b) (totalBytes b - 4 * Suc i) = Some (fst (L ! i)) \<and>
        fst (L ! i) < offsetOfFree b \<and> cb_block b ! fst (L ! i) = Obj (snd (L ! i)))"

lemma cb_holds_valid: "cb_holds b L \<Longrightarrow> commandsBufferData b \<noteq> None"
  by (simp add: cb_holds_def)

lemma cb_holds_free: "cb_holds b L \<Longrightarrow> offsetOfFree b < totalBytes b"
  by (cases L) (auto simp: cb_holds_def)

lemma cb_holds_room: "cb_holds b L \<Longrightarrow> 4 * Suc (length L) \<le> totalBytes b"
proof -
  assume h: "cb_holds b L"
  then obtain m where m: "totalBytes b = 4 * m" by (auto simp: cb_holds_def dvd_def)
  have "4 * length L < 4 * m"
    using h m by (cases L) (auto simp: cb_holds_def)
  then show ?thesis using m by simp
qed

lemma CanAllocate_holds:
  assumes h: "cb_holds b L" and k: "k \<le> 12" and s: "sz < 2 ^ 30"
  shows "CanAllocate b sz (2 ^ k) =
     Some (align_up (offsetOfFree b) k + sz + 4 * Suc (length L) \<le> totalBytes b)"
proof -
  have tot: "totalBytes b < 2 ^ 30" and v: "CB_IsValid b" and n: "countCommands b = length L"
    using h by (auto simp: cb_holds_def CB_IsValid_def)
  have "align_up (offsetOfFree b) k + sz < 2 ^ 32"
    using align_up_le [of "offsetOfFree b" k] align_le [OF k] cb_holds_free [OF h] tot s
      power_increasing [of 30 31 "2::nat"] by simp
  then show ?thesis
    using cb_holds_room [OF h] v n tot
    by (auto simp: CanAllocate_def GetOffset_align [OF k cb_holds_free [OF h] tot] meta_offset)
qed

lemma enqueue_full:
  assumes h: "cb_holds b L" and k: "k \<le> 12" and s: "sz < 2 ^ 30"
    and full: "\<not> align_up (offsetOfFree b) k + sz + 4 * Suc (length L) \<le> totalBytes b"
  shows "CB_EnqueueCommand b c sz (2 ^ k) = Some (b, False)"
  using full by (simp add: CB_EnqueueCommand_def CB_Allocate_def CanAllocate_holds [OF h k s])

text \<open>What \<open>EnqueueCommand\<close> writes: the command at the aligned offset, the entry at \<open>pos\<close>.\<close>

lemma enqueue_cells:
  assumes h: "cb_holds b L" and k: "k \<le> 12" and s: "0 < sz" "sz < 2 ^ 30"
    and fits: "off + sz + 4 * Suc (length L) \<le> totalBytes b" and off: "off = align_up (offsetOfFree b) k"
    and pos: "pos = totalBytes b - 4 * Suc (length L)"
  shows "\<exists>blk'. CB_EnqueueCommand b c sz (2 ^ k) = Some (b\<lparr>countCommands := Suc (length L),
        commandsBufferData := Some blk', offsetOfFree := off + sz\<rparr>, True) \<and> length blk' = totalBytes b \<and>
     (\<forall>i<totalBytes b. blk' ! i = (if off \<le> i \<and> i < off + sz then obj_cells c sz ! (i - off)
      else if pos \<le> i \<and> i < pos + 4 then meta_cells off ! (i - pos) else cb_block b ! i))"
proof -
  obtain blk where blk: "commandsBufferData b = Some blk" "cb_block b = blk"
    and len: "length blk = totalBytes b" and tot: "totalBytes b < 2 ^ 30" and n: "countCommands b = length L"
    using h by (auto simp: cb_holds_def cb_block_def)
  have mo: "GetMetadataOffset b (length L) = pos" and ps: "pos + 4 * Suc (length L) = totalBytes b"
    using cb_holds_room [OF h] tot by (auto simp: meta_offset pos)
  have w: "(off + sz) mod 2 ^ 32 = off + sz" "off + sz \<le> pos" using fits tot by (auto simp: pos)
  obtain blk1 where b1: "put_cells blk pos (meta_cells off) = Some blk1"
    using put_cells_ok [of pos "meta_cells off" blk] ps len by auto
  have l1: "length blk1 = totalBytes b" using length_put_cells [OF b1] len by simp
  obtain blk2 where b2: "put_cells blk1 off (obj_cells c sz) = Some blk2"
    using put_cells_ok [of off "obj_cells c sz" blk1] s w ps l1 by auto
  have l2: "length blk2 = totalBytes b" using length_put_cells [OF b2] l1 by simp
  have "CB_EnqueueCommand b c sz (2 ^ k) = Some (b\<lparr>countCommands := Suc (length L),
        commandsBufferData := Some blk2, offsetOfFree := off + sz\<rparr>, True)"
    using fits w b1 b2 cb_holds_free [OF h] tot
    by (simp add: CB_EnqueueCommand_def CB_Allocate_def CanAllocate_holds [OF h k s(2)] GetOffset_align [OF k] blk n mo
        flip: off)
  then show ?thesis
    using l2 s nth_put_cells [OF b1] nth_put_cells [OF b2] len l1 blk(2) by auto
qed

lemma enqueue_fits:
  assumes h: "cb_holds b L" and k: "k \<le> 12" and s: "0 < sz" "sz < 2 ^ 30"
    and fits: "align_up (offsetOfFree b) k + sz + 4 * Suc (length L) \<le> totalBytes b"
  shows "\<exists>b'. CB_EnqueueCommand b c sz (2 ^ k) = Some (b', True) \<and>
     cb_holds b' (L @ [(align_up (offsetOfFree b) k, c)]) \<and> totalBytes b' = totalBytes b \<and>
     commandsExecuted b' = commandsExecuted b \<and> offsetOfFree b' = align_up (offsetOfFree b) k + sz"
proof -
  define off pos where "off = align_up (offsetOfFree b) k" and "pos = totalBytes b - 4 * Suc (length L)"
  obtain blk' where run: "CB_EnqueueCommand b c sz (2 ^ k) = Some (b\<lparr>countCommands := Suc (length L),
        commandsBufferData := Some blk', offsetOfFree := off + sz\<rparr>, True)" and len: "length blk' = totalBytes b"
    and cell: "\<And>i. i < totalBytes b \<Longrightarrow> blk' ! i = (if off \<le> i \<and> i < off + sz then obj_cells c sz ! (i - off)
      else if pos \<le> i \<and> i < pos + 4 then meta_cells off ! (i - pos) else cb_block b ! i)"
    using enqueue_cells [OF h k s _ off_def pos_def, of c] fits by (auto simp: off_def)
  have ps: "pos + 4 * Suc (length L) = totalBytes b" using cb_holds_room [OF h] by (simp add: pos_def)
  have off: "offsetOfFree b \<le> off" "off + sz \<le> pos" using fits align_up_ge by (auto simp: off_def pos_def)
  have lb: "length (cb_block b) = totalBytes b" using h by (simp add: cb_holds_def)
  have old: "read_meta blk' (totalBytes b - 4 * Suc i) = Some (fst (L ! i)) \<and> fst (L ! i) < off + sz \<and>
      blk' ! fst (L ! i) = Obj (snd (L ! i))" if i: "i < length L" for i
  proof -
    define q where "q = totalBytes b - 4 * Suc i"
    have q: "q + 4 \<le> totalBytes b" "pos + 4 \<le> q" using i ps by (auto simp: q_def)
    have m: "read_meta (cb_block b) q = Some (fst (L ! i))" and o: "fst (L ! i) < offsetOfFree b"
      and ob: "cb_block b ! fst (L ! i) = Obj (snd (L ! i))"
      using h i unfolding cb_holds_def q_def by auto
    have "blk' ! (q + k) = cb_block b ! (q + k)" if "k < 4" for k
      using cell [of "q + k"] that q off by simp
    then have "read_meta blk' q = Some (fst (L ! i))"
      using m q by (simp add: read_meta_iff lb len)
    then show ?thesis
      using cell [of "fst (L ! i)"] o ob off ps unfolding q_def [symmetric] by simp
  qed
  have "read_meta blk' pos = Some off \<and> blk' ! off = Obj c"
    using ps off s cell [of off] by (auto simp: read_meta_iff len cell meta_cells_nth obj_cells_def)
  then have "cb_holds (b\<lparr>countCommands := Suc (length L), commandsBufferData := Some blk', offsetOfFree := off + sz\<rparr>)
      (L @ [(off, c)])"
    using h old len ps off s by (auto simp: cb_holds_def cb_block_def nth_append less_Suc_eq pos_def)
  then show ?thesis using run by (auto simp: off_def)
qed

lemma GetCommand_holds: "cb_holds b L \<Longrightarrow> i < length L \<Longrightarrow> GetCommand b i = Some (snd (L ! i))"
proof -
  assume h: "cb_holds b L" and i: "i < length L"
  have "GetMetadataOffset b i = totalBytes b - 4 * Suc i"
    using h i cb_holds_room [OF h] by (intro meta_offset) (auto simp: cb_holds_def)
  then show ?thesis
    using h i cb_holds_free [OF h] by (auto simp: GetCommand_def cb_holds_def cb_block_def)
qed

lemma cb_holds_executed [simp]: "cb_holds (b\<lparr>commandsExecuted := n\<rparr>) L \<longleftrightarrow> cb_holds b L"
  by (simp add: cb_holds_def cb_block_def)

lemma execute_loop_holds:
  "cb_holds b L \<Longrightarrow> commandsExecuted b \<le> length L \<Longrightarrow>
     execute_loop act b = Some (b\<lparr>commandsExecuted := length L\<rparr>,
       concat (map (\<lambda>e. act (snd e)) (drop (commandsExecuted b) L)))"
proof (induction act b rule: execute_loop.induct)
  case (1 act b)
  have n: "countCommands b = length L" using 1 by (simp add: cb_holds_def)
  show ?case
  proof (cases "commandsExecuted b < length L")
    case True
    then show ?thesis
      using 1 n by (subst execute_loop.simps) (simp add: GetCommand_holds Cons_nth_drop_Suc [symmetric])
  next
    case False
    then show ?thesis
      using 1 n by (subst execute_loop.simps) simp
  qed
qed

text \<open>A buffer that was executed is destroyed without effect: no command is destroyed twice.\<close>

lemma ExecuteAll_holds:
  "cb_holds b L \<Longrightarrow> commandsExecuted b = 0 \<Longrightarrow>
     ExecuteAll b = Some (b\<lparr>commandsExecuted := length L\<rparr>, concat (map (\<lambda>e. [Exec (snd e), Destr (snd e)]) L))"
  by (simp add: ExecuteAll_def execute_loop_holds)

lemma Reset_executed: "cb_holds b L \<Longrightarrow> commandsExecuted b = length L \<Longrightarrow> \<exists>b'. CB_Reset b = Some (b', [])"
  by (simp add: CB_Reset_def CallDestructors_def execute_loop_holds cb_holds_valid)

lemma Reset_pending:
  "cb_holds b L \<Longrightarrow> commandsExecuted b = 0 \<Longrightarrow> \<exists>b'. CB_Reset b = Some (b', map (\<lambda>e. Destr (snd e)) L)"
  by (simp add: CB_Reset_def CallDestructors_def execute_loop_holds cb_holds_valid concat_map_singleton)

section \<open>The queue of commands\<close>

text \<open>\<open>CommandExecuteCommandsBuffer\<close>: executing the command runs the buffer, then the command and with it
  the buffer are destroyed.\<close>

definition run_buffer :: "'c CommandsBuffer \<Rightarrow> 'c event list option" where
  "run_buffer b = do { (b, evs) \<leftarrow> ExecuteAll b; (b, evs') \<leftarrow> CB_Reset b; Some (evs @ evs') }"

fun run_buffers :: "'c CommandsBuffer list \<Rightarrow> 'c event list option" where
  "run_buffers [] = Some []"
| "run_buffers (b # bs) = do { evs \<leftarrow> run_buffer b; evs' \<leftarrow> run_buffers bs; Some (evs @ evs') }"

text \<open>A command with its size and alignment, and the clock readings of its enqueue.\<close>

record 'c request =
  req_command :: 'c
  req_size :: nat
  req_align :: nat
  req_now :: int
  req_now2 :: int

fun enqueue_all :: "(nat \<Rightarrow> bytes) \<Rightarrow> 'c CommandsBufferHandler \<Rightarrow> 'c request list \<Rightarrow> 'c CommandsBufferHandler option" where
  "enqueue_all A h [] = Some h"
| "enqueue_all A h (r # rs) =
     do { h \<leftarrow> Handler_EnqueueCommand A h (req_command r) (req_size r) (req_align r) (req_now r) (req_now2 r);
          enqueue_all A h rs }"

definition request_ok :: "'c request \<Rightarrow> bool" where
  "request_ok r \<longleftrightarrow> 0 < req_size r \<and> req_size r + 4 \<le> bufferSize \<and> align_ok (req_align r)"

text \<open>The events of executing a list of commands, each once.\<close>

definition run_events :: "'c list \<Rightarrow> 'c event list" where
  "run_events cs = concat (map (\<lambda>c. [Exec c, Destr c]) cs)"

text \<open>What the allocator promises for a buffer: the block is large enough and its usable size is a
  multiple of four bytes.\<close>

definition buffer_pool_ok :: "(nat \<Rightarrow> bytes) \<Rightarrow> bool" where
  "buffer_pool_ok A \<longleftrightarrow> bufferSize \<le> length (A bufferSize) \<and> length (A bufferSize) < 2 ^ 30 \<and> 4 dvd length (A bufferSize)"

text \<open>\<open>full_of b cs\<close>: an unexecuted buffer of exactly the commands \<open>cs\<close>; \<open>handler_ok h cs\<close>: the commands
  given to the handler so far are in the queued buffers and the current one, in order.\<close>

definition full_of :: "'c CommandsBuffer \<Rightarrow> 'c list \<Rightarrow> bool" where
  "full_of b cs \<longleftrightarrow> (\<exists>L. cb_holds b L \<and> commandsExecuted b = 0 \<and> map snd L = cs)"

definition handler_ok :: "'c CommandsBufferHandler \<Rightarrow> 'c list \<Rightarrow> bool" where
  "handler_ok h cs \<longleftrightarrow> (\<exists>css cur. list_all2 full_of (hqueue h) css \<and> cs = concat css @ cur \<and> hfatals h = 0 \<and>
     (if CB_IsValid (currentCommandsBuffer h)
      then full_of (currentCommandsBuffer h) cur \<and> bufferSize \<le> totalBytes (currentCommandsBuffer h)
      else cur = [] \<and> countCommands (currentCommandsBuffer h) = 0))"

lemma run_buffer_full: "full_of b cs \<Longrightarrow> run_buffer b = Some (run_events cs)"
proof -
  assume "full_of b cs"
  then obtain L where L: "cb_holds b L" "commandsExecuted b = 0" "map snd L = cs" by (auto simp: full_of_def)
  obtain b' where "CB_Reset (b\<lparr>commandsExecuted := length L\<rparr>) = Some (b', [])"
    using Reset_executed [of "b\<lparr>commandsExecuted := length L\<rparr>" L] L(1) by auto
  then show ?thesis
    using L(3) by (auto simp: run_buffer_def ExecuteAll_holds [OF L(1,2)] run_events_def comp_def)
qed

lemma run_events_append [simp]: "run_events (xs @ ys) = run_events xs @ run_events ys"
  by (simp add: run_events_def)

lemma run_events_Nil [simp]: "run_events [] = []"
  by (simp add: run_events_def)

lemma run_buffers_full: "list_all2 full_of bs css \<Longrightarrow> run_buffers bs = Some (run_events (concat css))"
  by (induction rule: list_all2_induct) (auto simp: run_buffer_full)

lemma full_of_count: "full_of b cs \<Longrightarrow> countCommands b = length cs \<and> CB_IsValid b"
  by (auto simp: full_of_def cb_holds_def CB_IsValid_def)

lemma full_of_Init:
  assumes "buffer_pool_ok A" and "\<not> CB_IsValid b"
  shows "\<exists>b'. CB_Init A b bufferSize = Some (b', []) \<and> full_of b' [] \<and> bufferSize \<le> totalBytes b' \<and> CB_IsValid b'"
  using assms
  by (auto simp: CB_Init_def CB_Reset_def CB_IsValid_def full_of_def cb_holds_def cb_block_def buffer_pool_ok_def
      bufferSize_def intro!: exI [of _ "[]"])

lemma Reset_invalid [simp]: "\<not> CB_IsValid b \<Longrightarrow> CB_Reset b = Some (b, [])"
  by (simp add: CB_Reset_def CB_IsValid_def)

lemma CB_empty_invalid [simp]: "\<not> CB_IsValid CB_empty" "countCommands CB_empty = 0"
  by (simp_all add: CB_empty_def CB_IsValid_def)

lemma FlushBuffer_eq:
  "FlushBuffer h = Some (if CB_IsValid (currentCommandsBuffer h) \<and> countCommands (currentCommandsBuffer h) \<noteq> 0
     then h\<lparr>hqueue := hqueue h @ [currentCommandsBuffer h], currentCommandsBuffer := CB_empty\<rparr> else h)"
  by (simp add: FlushBuffer_def CB_move_def CB_assign_def)

lemma FlushBuffer_ok: "handler_ok h cs \<Longrightarrow> \<exists>h'. FlushBuffer h = Some h' \<and> handler_ok h' cs \<and>
    countCommands (currentCommandsBuffer h') = 0"
proof -
  assume ok: "handler_ok h cs"
  then obtain css cur where *: "list_all2 full_of (hqueue h) css" "cs = concat css @ cur" "hfatals h = 0"
    "CB_IsValid (currentCommandsBuffer h) \<Longrightarrow> full_of (currentCommandsBuffer h) cur"
    "\<not> CB_IsValid (currentCommandsBuffer h) \<Longrightarrow> countCommands (currentCommandsBuffer h) = 0"
    by (auto simp: handler_ok_def split: if_splits)
  then have "handler_ok (h\<lparr>hqueue := hqueue h @ [currentCommandsBuffer h], currentCommandsBuffer := CB_empty\<rparr>) cs"
    if "CB_IsValid (currentCommandsBuffer h)"
    using that by (auto simp: handler_ok_def list_all2_appendI intro!: exI [of _ "css @ [cur]"])
  then show ?thesis using ok *(5) by (auto simp: FlushBuffer_eq)
qed

lemma AllocateBuffer_ok:
  assumes "handler_ok h cs" "buffer_pool_ok A"
  shows "\<exists>h'. AllocateBuffer A h = Some h' \<and> handler_ok h' cs \<and> countCommands (currentCommandsBuffer h') = 0 \<and>
    CB_IsValid (currentCommandsBuffer h')"
proof -
  obtain h1 where h1: "FlushBuffer h = Some h1" "handler_ok h1 cs" "countCommands (currentCommandsBuffer h1) = 0"
    using FlushBuffer_ok [OF assms(1)] by auto
  show ?thesis
  proof (cases "CB_IsValid (currentCommandsBuffer h1)")
    case True
    then show ?thesis using h1 by (simp add: AllocateBuffer_def)
  next
    case False
    obtain b where b: "CB_Init A (currentCommandsBuffer h1) bufferSize = Some (b, [])" "full_of b []"
      "bufferSize \<le> totalBytes b" "CB_IsValid b"
      using full_of_Init [OF assms(2) False] by auto
    then have "handler_ok (h1\<lparr>currentCommandsBuffer := b\<rparr>) cs"
      using h1(2) False by (auto simp: handler_ok_def)
    then show ?thesis
      using h1 b False full_of_count [OF b(2)] by (simp add: AllocateBuffer_def)
  qed
qed

definition has_room :: "'c CommandsBufferHandler \<Rightarrow> 'c request \<Rightarrow> bool" where
  "has_room h r \<longleftrightarrow> CB_IsValid (currentCommandsBuffer h) \<and> (countCommands (currentCommandsBuffer h) = 0 \<or>
      CanAllocate (currentCommandsBuffer h) (req_size r) (req_align r) = Some True)"

lemma maybe_AllocateBuffer:
  assumes "handler_ok h cs" "buffer_pool_ok A" "\<not> f \<Longrightarrow> has_room h r"
  shows "\<exists>h'. (if f then AllocateBuffer A h else Some h) = Some h' \<and> handler_ok h' cs \<and> has_room h' r"
  using assms(1,3) AllocateBuffer_ok [OF assms(1,2)] by (cases f) (auto simp: has_room_def)

lemma enqueue_current:
  assumes h: "handler_ok h cs" and room: "has_room h r" and r: "request_ok r"
  shows "\<exists>b. CB_EnqueueCommand (currentCommandsBuffer h) (req_command r) (req_size r) (req_align r) = Some (b, True) \<and>
     handler_ok (h\<lparr>forceEnqueueTimepoint := t, currentCommandsBuffer := b\<rparr>) (cs @ [req_command r])"
proof -
  let ?b = "currentCommandsBuffer h"
  have v: "CB_IsValid ?b" using room by (simp add: has_room_def)
  obtain css L where *: "list_all2 full_of (hqueue h) css" "cs = concat css @ map snd L" "hfatals h = 0"
    "cb_holds ?b L" "commandsExecuted ?b = 0" "bufferSize \<le> totalBytes ?b"
    using h v by (auto simp: handler_ok_def full_of_def)
  obtain k where k: "k \<le> 12" "req_align r = 2 ^ k" using r by (auto simp: request_ok_def align_ok_def)
  have s: "0 < req_size r" "req_size r < 2 ^ 30" "req_size r + 4 \<le> bufferSize"
    using r by (auto simp: request_ok_def bufferSize_def)
  have "align_up (offsetOfFree ?b) k + req_size r + 4 * Suc (length L) \<le> totalBytes ?b"
  proof (cases "countCommands ?b = 0")
    case True
    then have "L = []" "offsetOfFree ?b = 0" using *(4) by (auto simp: cb_holds_def)
    then show ?thesis using s *(6) by simp
  next
    case False
    then show ?thesis using room k CanAllocate_holds [OF *(4) k(1) s(2)] by (simp add: has_room_def)
  qed
  from enqueue_fits [OF *(4) k(1) s(1,2) this, of "req_command r"] k(2)
  obtain b where "CB_EnqueueCommand ?b (req_command r) (req_size r) (req_align r) = Some (b, True)"
    "full_of b (map snd L @ [req_command r])" "totalBytes b = totalBytes ?b"
    using *(5) by (fastforce simp: full_of_def)
  then show ?thesis using * full_of_count [of b] by (auto simp: handler_ok_def)
qed

lemma CanAllocate_total:
  assumes "handler_ok h cs" "CB_IsValid (currentCommandsBuffer h)" "request_ok r"
  shows "CanAllocate (currentCommandsBuffer h) (req_size r) (req_align r) \<noteq> None"
proof -
  obtain L k where "cb_holds (currentCommandsBuffer h) L" "k \<le> 12" "req_align r = 2 ^ k"
    using assms by (auto simp: handler_ok_def full_of_def request_ok_def align_ok_def)
  moreover have "req_size r < 2 ^ 30" using assms(3) by (auto simp: request_ok_def bufferSize_def)
  ultimately show ?thesis by (simp add: CanAllocate_holds)
qed

lemma Handler_EnqueueCommand_ok:
  assumes h: "handler_ok h cs" and A: "buffer_pool_ok A" and r: "request_ok r"
  shows "\<exists>h'. Handler_EnqueueCommand A h (req_command r) (req_size r) (req_align r) now now' = Some h' \<and>
    handler_ok h' (cs @ [req_command r])"
proof -
  define full where "full = (if CB_IsValid (currentCommandsBuffer h) = False then Some True
      else do { can \<leftarrow> CanAllocate (currentCommandsBuffer h) (req_size r) (req_align r); Some (can = False) })"
  have "\<exists>f. full = Some f \<and> (\<not> f \<longrightarrow> has_room h r)"
    using CanAllocate_total [OF h _ r] by (cases "CB_IsValid (currentCommandsBuffer h)") (auto simp: full_def has_room_def)
  then obtain f where f: "full = Some f" "\<not> f \<Longrightarrow> has_room h r" by blast
  obtain h1 where h1: "(if f then AllocateBuffer A h else Some h) = Some h1" "handler_ok h1 cs" "has_room h1 r"
    using maybe_AllocateBuffer [OF h A f(2)] by blast
  obtain h2 where h2: "(if forceEnqueueTimepoint h1 < now then AllocateBuffer A h1 else Some h1) = Some h2"
    "handler_ok h2 cs" "has_room h2 r"
    using maybe_AllocateBuffer [OF h1(2) A h1(3)] by blast
  define t where "t = (if countCommands (currentCommandsBuffer h2) = 0 then now' + 200 * 1000000
      else forceEnqueueTimepoint h2)"
  have t: "(if countCommands (currentCommandsBuffer h2) = 0 then h2\<lparr>forceEnqueueTimepoint := now' + 200 * 1000000\<rparr>
      else h2) = h2\<lparr>forceEnqueueTimepoint := t\<rparr>"
    by (simp add: t_def)
  obtain b where "CB_EnqueueCommand (currentCommandsBuffer h2) (req_command r) (req_size r) (req_align r) = Some (b, True)"
    "handler_ok (h2\<lparr>forceEnqueueTimepoint := t, currentCommandsBuffer := b\<rparr>) (cs @ [req_command r])"
    using enqueue_current [OF h2(2,3) r] by blast
  then show ?thesis
    unfolding Handler_EnqueueCommand_def full_def [symmetric]
    using f(1) h1(1) h2(1) by (simp only: Option.bind.simps t Let_def prod.case) simp
qed

lemma enqueue_all_ok:
  "buffer_pool_ok A \<Longrightarrow> handler_ok h cs \<Longrightarrow> list_all request_ok rs \<Longrightarrow>
     \<exists>h'. enqueue_all A h rs = Some h' \<and> handler_ok h' (cs @ map req_command rs)"
proof (induction rs arbitrary: h cs)
  case (Cons r rs)
  then obtain h1 where "Handler_EnqueueCommand A h (req_command r) (req_size r) (req_align r) (req_now r) (req_now2 r) = Some h1"
    "handler_ok h1 (cs @ [req_command r])"
    using Handler_EnqueueCommand_ok [of h cs A r "req_now r" "req_now2 r"] by auto
  with Cons show ?case by fastforce
qed simp

lemma handler_ok_new: "handler_ok (Handler_new now) []"
  by (simp add: handler_ok_def Handler_new_def)

lemma flushed_events:
  "handler_ok h cs \<Longrightarrow> \<exists>h'. FlushBuffer h = Some h' \<and> run_buffers (hqueue h') = Some (run_events cs) \<and> hfatals h' = 0"
proof -
  assume "handler_ok h cs"
  then obtain h' where h': "FlushBuffer h = Some h'" "handler_ok h' cs" "countCommands (currentCommandsBuffer h') = 0"
    using FlushBuffer_ok by blast
  then obtain css cur where "list_all2 full_of (hqueue h') css" "cs = concat css @ cur" "cur = []" "hfatals h' = 0"
    by (auto simp: handler_ok_def full_of_count split: if_splits dest: full_of_count)
  then show ?thesis using h'(1) run_buffers_full by auto
qed


definition sample_requests :: "nat request list" where
  "sample_requests =
     [\<lparr>req_command = 7, req_size = 40, req_align = 8, req_now = 5, req_now2 = 6\<rparr>,
      \<lparr>req_command = 8, req_size = 16380, req_align = 4096, req_now = 7, req_now2 = 8\<rparr>,
      \<lparr>req_command = 9, req_size = 3, req_align = 1, req_now = 300000000, req_now2 = 300000001\<rparr>]"


section \<open>Handles run and release their object once\<close>

lemma aligned_tag:
  fixes p :: u64
  assumes "p AND 7 = 0"
  shows "(p OR 1) AND NOT 7 = p" "(p OR 1) AND 7 = 1" "p AND NOT 7 = p"
proof -
  have "p = p AND (7 OR NOT 7)" by (simp only: bit.disj_cancel_right bit.conj_one_right)
  then show *: "p AND NOT 7 = p" using assms by (simp only: bit.conj_disj_distrib) simp
  have "(1 :: u64) AND NOT 7 = 0" by simp
  then show "(p OR 1) AND NOT 7 = p" using * by (simp only: bit.conj_disj_distrib2 or.right_neutral)
  have "(1 :: u64) AND 7 = 1" by simp
  then show "(p OR 1) AND 7 = 1" using assms by (simp add: bit.conj_disj_distrib2)
qed

text \<open>C38. The low bits of a command handle say what it points to: for an object at a non-null address
  that is a multiple of eight, \<open>Execute\<close> of the handle created for it runs a command and releases it,
  and resumes a coroutine, at exactly that address; \<open>Destroy\<close> releases the one and destroys the other
  without running it; after either of the two the handle is empty and executing or destroying it
  again does nothing; moving the handle into an empty one leaves the source empty.\<close>

theorem command_handle_kinds:
  assumes "p \<noteq> 0" and "p AND COMMAND_BITS_MASK = 0"
  shows "CH_Execute (CH_Create_Command p) = ([Execute_Command p, Release_Command p], 0) \<and>
     CH_Execute (CH_Create_Coroutine p) = ([Resume_Coroutine p], 0) \<and>
     CH_Destroy (CH_Create_Command p) = ([Release_Command p], 0) \<and>
     CH_Destroy (CH_Create_Coroutine p) = ([Destroy_Coroutine p], 0) \<and>
     CH_IsValid (CH_Create_Command p) \<and> CH_IsValid (CH_Create_Coroutine p) \<and>
     CH_Execute 0 = ([], 0) \<and> CH_Destroy 0 = ([], 0) \<and> CH_assign 0 (CH_Create_Coroutine p) = CH_move (CH_Create_Coroutine p)"
proof -
  have "(p OR 1) \<noteq> 0" using aligned_tag [of p] assms by (auto simp: COMMAND_BITS_MASK_def)
  then show ?thesis
    using assms aligned_tag [of p]
    by (simp add: CH_Execute_def CH_Destroy_def CH_Create_Command_def CH_Create_Coroutine_def CH_IsValid_def
        CH_assign_def CH_move_def COMMAND_BITS_MASK_def REGULAR_COMMAND_def COROUTINE_HANDLE_def)
qed

theorem command_handle_kinds_witness:
  "(0x7f00 :: u64) \<noteq> 0 \<and> 0x7f00 AND COMMAND_BITS_MASK = 0 \<and>
   CH_Create_Coroutine 0x7f00 = 0x7f01 \<and> CH_Execute (CH_Create_Coroutine 0x7f00) = ([Resume_Coroutine 0x7f00], 0)"
  using command_handle_kinds [of "0x7f00"] by (simp add: COMMAND_BITS_MASK_def CH_Create_Coroutine_def COROUTINE_HANDLE_def)

section \<open>Executing the queue\<close>

text \<open>The loop of \<open>Execute\<close>: \<open>deq q n\<close> is \<open>try_dequeue_bulk\<close> on the state \<open>q\<close> of the queue.\<close>

definition next_notFull :: "nat \<Rightarrow> nat \<Rightarrow> int \<Rightarrow> int" where
  "next_notFull toDequeue dequeued notFull =
     (if dequeued \<noteq> toDequeue
      then let notFull = (if dequeued \<le> toDequeue div 8 then notFull - 1 else notFull)
           in (if dequeued < 13 then notFull - 57 else if dequeued = 0 then notFull - 223 else notFull)
      else notFull)"

lemma next_notFull_le: "nat (next_notFull n d nf) \<le> nat nf"
  by (auto simp: next_notFull_def Let_def)

lemma next_notFull_less: "0 < n \<Longrightarrow> 0 < nf \<Longrightarrow> nat (next_notFull n 0 nf) < nat nf"
  by (simp add: next_notFull_def Let_def)

lemma queue_decreases:
  assumes "m \<noteq> 0" and "n = min m 1024" and "\<not> (d \<noteq> n \<and> nf \<le> 0)"
  shows "m - d + nat (next_notFull n d nf) < m + nat nf"
proof (cases "d = 0")
  case True
  then show ?thesis using assms next_notFull_less [of n nf] by simp
next
  case False
  then have "m - d < m" using assms(1) by simp
  then show ?thesis using next_notFull_le [of n d nf] by linarith
qed

function execute_queue :: "('q \<Rightarrow> nat \<Rightarrow> u64 list \<times> 'q) \<Rightarrow> nat \<Rightarrow> int \<Rightarrow> nat \<Rightarrow> 'q \<Rightarrow>
    (nat \<times> handle_event list \<times> 'q) option" where
  "execute_queue deq maxToDequeue notFull tot q =
     (if maxToDequeue = 0 then Some (tot, [], q)
      else let toDequeue = min maxToDequeue 1024;
               commands = fst (deq q toDequeue);
               dequeued = length commands;
               evs = concat (map (\<lambda>h. fst (CH_Execute h)) commands)
           in do { cassert (dequeued \<le> toDequeue);
                   (if dequeued \<noteq> toDequeue \<and> notFull \<le> 0 then Some (tot + dequeued, evs, snd (deq q toDequeue))
                    else do { (tot, evs', q) \<leftarrow> execute_queue deq (maxToDequeue - dequeued)
                                (next_notFull toDequeue dequeued notFull) (tot + dequeued)
                                (snd (deq q toDequeue));
                              Some (tot, evs @ evs', q) }) })"
  by auto
termination by (relation "measure (\<lambda>(deq, m, nf, tot, q). m + nat nf)") 
    (simp, simp only: measure_def inv_image_def mem_Collect_eq prod.case less_than_iff, rule queue_decreases, simp_all)

declare execute_queue.simps [simp del]

definition Execute :: "('q \<Rightarrow> nat \<Rightarrow> u64 list \<times> 'q) \<Rightarrow> nat \<Rightarrow> 'q \<Rightarrow> (nat \<times> handle_event list \<times> 'q) option" where
  "Execute deq maxToDequeue q = execute_queue deq maxToDequeue 512 0 q"

definition EnqueueCommand :: "('q \<Rightarrow> u64 \<Rightarrow> 'q) \<Rightarrow> 'q \<Rightarrow> u64 \<Rightarrow> 'q" where
  "EnqueueCommand enq q command = (if CH_IsValid command = False then q else enq q command)"

definition await_suspend :: "('q \<Rightarrow> u64 \<Rightarrow> 'q) \<Rightarrow> 'q \<Rightarrow> u64 \<Rightarrow> 'q" where
  "await_suspend enq q coro = EnqueueCommand enq q (CH_Create_Coroutine coro)"

text \<open>What the consumer relies on: \<open>try_dequeue_bulk\<close> returns the next elements in the order of the
  queue, at most as many as asked for; \<open>greedy\<close>: all that were asked for, if there are as many.\<close>

definition bulk_ok :: "('q \<Rightarrow> nat \<Rightarrow> u64 list \<times> 'q) \<Rightarrow> ('q \<Rightarrow> u64 list) \<Rightarrow> bool" where
  "bulk_ok deq items \<longleftrightarrow> (\<forall>q n. items q = fst (deq q n) @ items (snd (deq q n)) \<and> length (fst (deq q n)) \<le> n)"

definition greedy :: "('q \<Rightarrow> nat \<Rightarrow> u64 list \<times> 'q) \<Rightarrow> ('q \<Rightarrow> u64 list) \<Rightarrow> bool" where
  "greedy deq items \<longleftrightarrow> (\<forall>q n. length (fst (deq q n)) = min n (length (items q)))"

definition handle_events :: "u64 list \<Rightarrow> handle_event list" where
  "handle_events hs = concat (map (\<lambda>h. fst (CH_Execute h)) hs)"

lemma handle_events_Nil [simp]: "handle_events [] = []"
  by (simp add: handle_events_def)

lemma handle_events_append [simp]: "handle_events (xs @ ys) = handle_events xs @ handle_events ys"
  by (simp add: handle_events_def)

lemma execute_queue_prefix:
  "bulk_ok deq items \<Longrightarrow>
   \<exists>k q'. execute_queue deq m nf t q = Some (t + k, handle_events (take k (items q)), q') \<and> k \<le> m \<and>
     k \<le> length (items q) \<and> items q' = drop k (items q) \<and> (greedy deq items \<longrightarrow> k = min m (length (items q)))"
proof (induction deq m nf t q rule: execute_queue.induct)
  case (1 deq m nf t q)
  define n cs q1 where "n = min m 1024" and "cs = fst (deq q n)" and "q1 = snd (deq q n)"
  define d where "d = length cs"
  have items: "items q = cs @ items q1" and dn: "d \<le> n"
    using 1(2) by (auto simp: bulk_ok_def cs_def q1_def d_def)
  have short: "greedy deq items \<Longrightarrow> d = min n (length (items q))"
    by (auto simp: greedy_def d_def cs_def)
  show ?case
  proof (cases "m = 0")
    case True
    then show ?thesis by (subst execute_queue.simps) (auto simp: handle_events_def)
  next
    case m: False
    have eq: "execute_queue deq m nf t q = (if d \<noteq> n \<and> nf \<le> 0 then Some (t + d, handle_events cs, q1)
       else do { (t, evs', q) \<leftarrow> execute_queue deq (m - d) (next_notFull n d nf) (t + d) q1;
                 Some (t, handle_events cs @ evs', q) })"
      using m dn by (subst execute_queue.simps)
        (simp add: Let_def handle_events_def flip: n_def cs_def q1_def d_def)
    show ?thesis
    proof (cases "d \<noteq> n \<and> nf \<le> 0")
      case True
      then have "greedy deq items \<Longrightarrow> items q1 = []"
        using short items by (auto simp: d_def min_def split: if_splits)
      then show ?thesis
        using True dn items short by (auto simp: eq n_def d_def intro!: exI [of _ "length cs"])
    next
      case False
      obtain k q' where k: "execute_queue deq (m - d) (next_notFull n d nf) (t + d) q1 =
          Some (t + d + k, handle_events (take k (items q1)), q')" "k \<le> m - d" "k \<le> length (items q1)"
        "items q' = drop k (items q1)" "greedy deq items \<Longrightarrow> k = min (m - d) (length (items q1))"
        using 1(1) [OF m n_def cs_def d_def refl, of "()"] 1(2) False dn
        unfolding q1_def by auto
      then have "execute_queue deq m nf t q = Some (t + (d + k), handle_events (take (d + k) (items q)), q')"
        using False unfolding eq by (auto simp: items d_def add.assoc)
      moreover have "items q' = drop (d + k) (items q)" using k items by (simp add: d_def)
      moreover have "greedy deq items \<Longrightarrow> d + k = min m (length (items q))"
        using k(5) dn items by (auto simp: n_def d_def)
      ultimately show ?thesis
        using k dn items by (intro exI [of _ "d + k"] exI [of _ q']) (auto simp: n_def d_def)
    qed
  qed
qed

text \<open>C21. \<open>CommandExecutionQueue::Execute(n)\<close> returns for every queue, executes a prefix of the queued
  commands, each exactly once and in queue order, never more than \<open>n\<close>, returns their number and leaves
  the rest in the queue; and when the queue hands out as many commands as it holds, it executes all of
  them up to \<open>n\<close>: the counter of incomplete dequeues never ends the loop while commands are left.\<close>

theorem Execute_runs_queue_prefix:
  assumes "bulk_ok deq items"
  shows "\<exists>k q'. Execute deq maxToDequeue q = Some (k, handle_events (take k (items q)), q') \<and>
     k \<le> maxToDequeue \<and> k \<le> length (items q) \<and> items q' = drop k (items q) \<and>
     (greedy deq items \<longrightarrow> k = min maxToDequeue (length (items q)))"
  using execute_queue_prefix [OF assms, of maxToDequeue 512 0 q] by (simp add: Execute_def)

text \<open>A queue that hands out one element at a time, and one that is a list.\<close>

definition one_deq :: "u64 list \<Rightarrow> nat \<Rightarrow> u64 list \<times> u64 list" where
  "one_deq q n = (take (min n 1) q, drop (min n 1) q)"

definition list_deq :: "u64 list \<Rightarrow> nat \<Rightarrow> u64 list \<times> u64 list" where
  "list_deq q n = (take n q, drop n q)"

theorem Execute_runs_queue_prefix_witness:
  "bulk_ok list_deq id \<and> greedy list_deq id \<and> bulk_ok one_deq id \<and>
   (\<exists>q'. Execute list_deq 2 [8, 17, 24] = Some (2, [Execute_Command 8, Release_Command 8, Resume_Coroutine 16], q') \<and> q' = [24])"
proof -
  have "bulk_ok list_deq id" "greedy list_deq id" "bulk_ok one_deq id"
    by (auto simp: bulk_ok_def greedy_def list_deq_def one_deq_def)
  moreover have "handle_events [8, 17] = [Execute_Command 8, Release_Command 8, Resume_Coroutine 16]"
    by (simp add: handle_events_def CH_Execute_def COMMAND_BITS_MASK_def REGULAR_COMMAND_def COROUTINE_HANDLE_def)
  ultimately show ?thesis
    using Execute_runs_queue_prefix [of list_deq id 2 "[8, 17, 24]"] by (auto simp: numeral_2_eq_2)
qed

section \<open>Starting and stopping the execution thread\<close>

text \<open>\<open>asyncExecutionFlags\<close> is an atomic variable; every load and store of it is one step, and the
  threads interleave between steps. \<open>async_exec s i\<close> is where executor thread \<open>i\<close> is in \<open>ExecuteLoop\<close>,
  \<open>async_stop s j\<close> where thread \<open>j\<close> is in \<open>WaitStopAsyncExecution\<close>.\<close>

definition STOPPED :: u32 where "STOPPED = 0"
definition IS_RUNNING :: u32 where "IS_RUNNING = 2"
definition QUEUE_STOP :: u32 where "QUEUE_STOP = 4"

datatype exec_pc = E_Spawn | E_Check | E_Check_Stop | E_Queue_Stop | E_Wait | E_Recheck | E_Store | E_Loop
  | E_Execute | E_Store_Stopped | E_Returned

datatype stop_pc = S_Call | S_Queue_Stop | S_Wait | S_Returned

record async =
  asyncExecutionFlags :: u32
  async_exec :: "nat \<Rightarrow> exec_pc"
  async_stop :: "nat \<Rightarrow> stop_pc"

definition QueueStopAsyncExecution :: "async \<Rightarrow> async" where
  "QueueStopAsyncExecution s = s\<lparr>asyncExecutionFlags := asyncExecutionFlags s OR QUEUE_STOP\<rparr>"

definition IsRunningAsync :: "async \<Rightarrow> bool" where
  "IsRunningAsync s \<longleftrightarrow> asyncExecutionFlags s AND IS_RUNNING \<noteq> 0"

definition exec_goto :: "nat \<Rightarrow> exec_pc \<Rightarrow> async \<Rightarrow> async" where
  "exec_goto i pc s = s\<lparr>async_exec := (async_exec s)(i := pc)\<rparr>"

definition stop_goto :: "nat \<Rightarrow> stop_pc \<Rightarrow> async \<Rightarrow> async" where
  "stop_goto j pc s = s\<lparr>async_stop := (async_stop s)(j := pc)\<rparr>"

definition ExecuteLoop_step :: "nat \<Rightarrow> async \<Rightarrow> async" where
  "ExecuteLoop_step i s = (case async_exec s i of
       E_Spawn \<Rightarrow> exec_goto i E_Check s
     | E_Check \<Rightarrow> exec_goto i (if IsRunningAsync s then E_Check_Stop else E_Store) s
     | E_Check_Stop \<Rightarrow> exec_goto i (if asyncExecutionFlags s AND QUEUE_STOP = 0 then E_Returned else E_Queue_Stop) s
     | E_Queue_Stop \<Rightarrow> exec_goto i E_Wait (QueueStopAsyncExecution s)
     | E_Wait \<Rightarrow> if IsRunningAsync s then s else exec_goto i E_Recheck s
     | E_Recheck \<Rightarrow> exec_goto i (if IsRunningAsync s then E_Returned else E_Store) s
     | E_Store \<Rightarrow> exec_goto i E_Loop (s\<lparr>asyncExecutionFlags := IS_RUNNING\<rparr>)
     | E_Loop \<Rightarrow> exec_goto i (if asyncExecutionFlags s = IS_RUNNING then E_Execute else E_Store_Stopped) s
     | E_Execute \<Rightarrow> exec_goto i E_Loop s
     | E_Store_Stopped \<Rightarrow> exec_goto i E_Returned (s\<lparr>asyncExecutionFlags := STOPPED\<rparr>)
     | E_Returned \<Rightarrow> s)"

definition WaitStop_step :: "nat \<Rightarrow> async \<Rightarrow> async" where
  "WaitStop_step j s = (case async_stop s j of
       S_Call \<Rightarrow> stop_goto j S_Queue_Stop s
     | S_Queue_Stop \<Rightarrow> stop_goto j S_Wait (QueueStopAsyncExecution s)
     | S_Wait \<Rightarrow> if IsRunningAsync s then s else stop_goto j S_Returned s
     | S_Returned \<Rightarrow> s)"

text \<open>Runs in which the executor threads are those of \<open>E\<close> and any thread may ask for a stop.\<close>

inductive async_reach :: "nat set \<Rightarrow> async \<Rightarrow> async \<Rightarrow> bool" for E s0 where
  start: "async_reach E s0 s0"
| executor: "async_reach E s0 s \<Longrightarrow> i \<in> E \<Longrightarrow> async_reach E s0 (ExecuteLoop_step i s)"
| stopper: "async_reach E s0 s \<Longrightarrow> async_reach E s0 (WaitStop_step j s)"

text \<open>The queue as constructed, and with executor \<open>e\<close> inside its loop.\<close>

definition async_new :: async where
  "async_new = \<lparr>asyncExecutionFlags = STOPPED, async_exec = (\<lambda>_. E_Spawn), async_stop = (\<lambda>_. S_Call)\<rparr>"

definition async_running :: "nat \<Rightarrow> async" where
  "async_running e = async_new\<lparr>asyncExecutionFlags := IS_RUNNING, async_exec := (\<lambda>_. E_Spawn)(e := E_Loop)\<rparr>"

lemmas flag_defs = STOPPED_def IS_RUNNING_def QUEUE_STOP_def IsRunningAsync_def QueueStopAsyncExecution_def
lemmas step_defs = ExecuteLoop_step_def WaitStop_step_def exec_goto_def stop_goto_def

definition stop_inv :: "nat \<Rightarrow> async \<Rightarrow> bool" where
  "stop_inv e s \<longleftrightarrow>
     (case async_exec s e of
        E_Loop \<Rightarrow> asyncExecutionFlags s \<in> {2, 6} | E_Execute \<Rightarrow> asyncExecutionFlags s \<in> {2, 6}
      | E_Store_Stopped \<Rightarrow> asyncExecutionFlags s = 6 | E_Returned \<Rightarrow> asyncExecutionFlags s \<in> {0, 4} | _ \<Rightarrow> False) \<and>
     (\<forall>j. async_stop s j \<in> {S_Wait, S_Returned} \<longrightarrow> async_exec s e = E_Returned \<or> asyncExecutionFlags s = 6) \<and>
     (\<forall>j. async_stop s j = S_Returned \<longrightarrow> async_exec s e = E_Returned)"

lemma stop_inv_executor: "stop_inv e s \<Longrightarrow> stop_inv e (ExecuteLoop_step e s)"
  by (cases "async_exec s e") (auto simp: stop_inv_def step_defs flag_defs)

lemma stop_inv_stopper: "stop_inv e s \<Longrightarrow> stop_inv e (WaitStop_step j s)"
  by (cases "async_stop s j"; cases "async_exec s e") (auto simp: stop_inv_def step_defs flag_defs split: if_splits)

lemma stop_inv_reach: "async_reach {e} (async_running e) s \<Longrightarrow> stop_inv e s"
proof (induction rule: async_reach.induct)
  case start
  then show ?case by (simp add: stop_inv_def async_running_def async_new_def flag_defs)
qed (auto intro: stop_inv_executor stop_inv_stopper)

text \<open>C20. Once the execution thread is in its loop, \<open>WaitStopAsyncExecution\<close> does what it promises in every
  interleaving of the executor with any number of stopping threads: when a call has returned, the
  executor has left the loop and executes nothing any more; and while a call waits, three steps of the
  executor (finishing the current \<open>Execute\<close>, seeing the flag, storing \<open>STOPPED\<close>) and one of the caller
  suffice for the call to return.\<close>

theorem WaitStop_after_executor:
  assumes "async_reach {e} (async_running e) s"
  shows "(async_stop s j = S_Returned \<longrightarrow> async_exec s e = E_Returned) \<and>
    (async_stop s j = S_Wait \<longrightarrow>
       async_stop (WaitStop_step j (ExecuteLoop_step e (ExecuteLoop_step e (ExecuteLoop_step e s)))) j = S_Returned)"
proof -
  have inv: "stop_inv e s" using assms by (rule stop_inv_reach)
  have "async_stop (WaitStop_step j (ExecuteLoop_step e (ExecuteLoop_step e (ExecuteLoop_step e s)))) j = S_Returned"
    if "async_stop s j = S_Wait"
    using inv that by (cases "async_exec s e") (auto simp: stop_inv_def step_defs flag_defs)
  moreover have "async_exec s e = E_Returned" if "async_stop s j = S_Returned"
    using inv that unfolding stop_inv_def by blast
  ultimately show ?thesis by simp
qed

theorem WaitStop_after_executor_witness:
  "async_reach {0} (async_running 0) (WaitStop_step 5 (WaitStop_step 5 (async_running 0))) \<and>
   async_stop (WaitStop_step 5 (ExecuteLoop_step 0 (ExecuteLoop_step 0 (ExecuteLoop_step 0
     (WaitStop_step 5 (WaitStop_step 5 (async_running 0))))))) 5 = S_Returned"
proof -
  have r: "async_reach {0} (async_running 0) (WaitStop_step 5 (WaitStop_step 5 (async_running 0)))"
    by (intro async_reach.intros)
  have "async_stop (WaitStop_step 5 (WaitStop_step 5 (async_running 0))) 5 = S_Wait"
    by (simp add: step_defs flag_defs async_running_def async_new_def)
  then show ?thesis using r WaitStop_after_executor [OF r, of 5] by simp
qed

text \<open>C33. A stop requested before the execution thread has stored \<open>IS_RUNNING\<close> is lost: after
  \<open>RunAsyncExecution\<close> spawned the thread, \<open>WaitStopAsyncExecution\<close> (also called by the destructor, which
  then deletes the queue) can return while the thread goes on to overwrite the request with
  \<open>IS_RUNNING\<close> and executes commands.\<close>

theorem stop_request_lost:
  "\<exists>s. async_reach {0} async_new s \<and> async_stop s 0 = S_Returned \<and> async_exec s 0 = E_Execute \<and>
     asyncExecutionFlags s = IS_RUNNING"
proof -
  let ?s = "ExecuteLoop_step 0 (ExecuteLoop_step 0 (ExecuteLoop_step 0
     (WaitStop_step 0 (WaitStop_step 0 (WaitStop_step 0 (ExecuteLoop_step 0 async_new))))))"
  have "async_reach {0} async_new ?s" by (intro async_reach.intros) auto
  moreover have "async_stop ?s 0 = S_Returned \<and> async_exec ?s 0 = E_Execute \<and> asyncExecutionFlags ?s = IS_RUNNING"
    by (simp add: step_defs flag_defs async_new_def)
  ultimately show ?thesis by blast
qed

end
