(* ===== verification/Rpc_Callbacks.thy ===== *)
theory Rpc_Callbacks
  imports Hash_Map Peers Framing "HOL-Library.Multiset"
begin

text \<open>
  The callbacks that wait for the result of a remote call: \<open>src/include/icon7/OnReturnCallback.hpp\<close>,
  \<open>src/src/OnReturnCallback.cpp\<close>, the table \<open>returningCallbacks\<close> of a peer with its id generator
  (\<open>src/src/Peer.cpp\<close>), and the two ways a callback leaves the table: the result arrives
  (\<open>RPCEnvironment::OnReceiveReturn\<close>) or the call times out.

  The user's functions in a callback are represented by numbers; what counts is whether, how often and
  with which value they are called. Serialization is third-party code (bitscpp): a record \<open>C\<close> of its
  reading and writing functions is an argument of the definitions, and \<open>codec_ok\<close> states the documented
  behaviour: reading gives back what was written and moves behind it.
\<close>

section \<open>Serialization\<close>

record ByteReader =
  rd_data :: bytes
  rd_offset :: nat
  rd_errors :: bool

definition rd_rest :: "ByteReader \<Rightarrow> bytes" where
  "rd_rest r = drop (rd_offset r) (rd_data r)"

definition rd_skip :: "nat \<Rightarrow> ByteReader \<Rightarrow> ByteReader" where
  "rd_skip n r = r\<lparr>rd_offset := rd_offset r + n\<rparr>"

text \<open>\<open>w_u32\<close> and \<open>r_u32\<close> are \<open>op_untyped_uint32\<close> of writer and reader; \<open>w_int\<close>, \<open>w_str\<close>, \<open>w_val\<close> are \<open>op\<close> on
  an integer, a string and a value of a type \<open>'t\<close>; \<open>w_object\<close> is an empty object; \<open>hton\<close> gives the
  bytes of \<open>HostToNetworkUint\<close> in memory.\<close>

record ('t, 'v) codec =
  w_u32 :: "u32 \<Rightarrow> bytes"
  w_int :: "u32 \<Rightarrow> bytes"
  w_str :: "string \<Rightarrow> bytes"
  w_object :: bytes
  w_val :: "'v \<Rightarrow> bytes"
  hton :: "u32 \<Rightarrow> bytes"
  is_next_integer :: "ByteReader \<Rightarrow> bool"
  is_next_string :: "ByteReader \<Rightarrow> bool"
  r_u32 :: "ByteReader \<Rightarrow> u32 \<times> ByteReader"
  r_int :: "ByteReader \<Rightarrow> u32 \<times> ByteReader"
  r_str :: "ByteReader \<Rightarrow> string \<times> ByteReader"
  r_val :: "'t \<Rightarrow> ByteReader \<Rightarrow> 'v \<times> ByteReader"

definition starts :: "ByteReader \<Rightarrow> bytes \<Rightarrow> bool" where
  "starts r xs \<longleftrightarrow> take (length xs) (rd_rest r) = xs \<and> xs \<noteq> [] \<and> rd_errors r = False"

text \<open>\<open>has_type t v\<close>: the value \<open>v\<close> was written by a caller that passes a \<open>t\<close>.\<close>

definition codec_ok :: "('t, 'v) codec \<Rightarrow> ('t \<Rightarrow> 'v \<Rightarrow> bool) \<Rightarrow> bool" where
  "codec_ok C has_type \<longleftrightarrow>
     (\<forall>x r. starts r (w_u32 C x) \<longrightarrow> r_u32 C r = (x, rd_skip 4 r)) \<and>
     (\<forall>x. length (w_u32 C x) = 4 \<and> hton C x = w_u32 C x) \<and>
     (\<forall>x r. starts r (w_int C x) \<longrightarrow> is_next_integer C r \<and> r_int C r = (x, rd_skip (length (w_int C x)) r)) \<and>
     (\<forall>x r. starts r (w_str C x) \<longrightarrow> \<not> is_next_integer C r \<and> is_next_string C r \<and>
        r_str C r = (x, rd_skip (length (w_str C x)) r)) \<and>
     (\<forall>t v r. has_type t v \<longrightarrow> starts r (w_val C v) \<longrightarrow> r_val C t r = (v, rd_skip (length (w_val C v)) r)) \<and>
     (\<forall>x. w_int C x \<noteq> []) \<and> (\<forall>x. w_str C x \<noteq> []) \<and> (\<forall>v. w_val C v \<noteq> [])"

section \<open>Callbacks\<close>

record 't OnReturnCallback =
  cbPeer :: PeerHandle
  cbType :: "'t option"
  cbQueue :: "nat option"
  timeoutTimePoint :: int
  cbOnReturned :: "nat option"
  cbOnTimeout :: "nat option"

text \<open>\<open>Make\<close> with the return type \<open>t\<close> (\<open>None\<close> for \<open>void\<close>) at the time \<open>now\<close>, in nanoseconds.\<close>

definition OnReturnCallback_Make ::
  "'t option \<Rightarrow> nat option \<Rightarrow> nat option \<Rightarrow> nat \<Rightarrow> PeerHandle \<Rightarrow> nat option \<Rightarrow> int \<Rightarrow> 't OnReturnCallback" where
  "OnReturnCallback_Make t onReturned onTimeout timeoutMilliseconds peer queue now =
     \<lparr>cbPeer = peer, cbType = t, cbQueue = queue,
      timeoutTimePoint = now + int timeoutMilliseconds * 1000000, cbOnReturned = onReturned, cbOnTimeout = onTimeout\<rparr>"

text \<open>The command object of a callback, ready to be executed.\<close>

record 't ReturnCommand =
  rc_callback :: "'t OnReturnCallback"
  rc_flags :: u32
  rc_reader :: ByteReader
  rc_timedOut :: bool

datatype ('t, 'v) cb_event = Returned "'t OnReturnCallback" u32 "'v option" | TimedOut "'t OnReturnCallback"

definition ExecuteReturnCallback_Execute :: "('t, 'v) codec \<Rightarrow> 't ReturnCommand \<Rightarrow> ('t, 'v) cb_event" where
  "ExecuteReturnCallback_Execute C com =
     (if rc_timedOut com then TimedOut (rc_callback com)
      else case cbType (rc_callback com) of
             None \<Rightarrow> Returned (rc_callback com) (rc_flags com) None
           | Some t \<Rightarrow> Returned (rc_callback com) (rc_flags com) (Some (fst (r_val C t (rc_reader com)))))"

text \<open>The calls of the user's functions that such an event makes; an empty \<open>std::function\<close> is not called.\<close>

datatype 'v user_call = Call_Returned nat PeerHandle u32 "'v option" | Call_Timeout nat PeerHandle

definition ExecuteOnReturn :: "'t OnReturnCallback \<Rightarrow> u32 \<Rightarrow> 'v option \<Rightarrow> 'v user_call list" where
  "ExecuteOnReturn cb flags v = (case cbOnReturned cb of None \<Rightarrow> [] | Some f \<Rightarrow> [Call_Returned f (cbPeer cb) flags v])"

definition ExecuteTimeout :: "'t OnReturnCallback \<Rightarrow> 'v user_call list" where
  "ExecuteTimeout cb = (case cbOnTimeout cb of None \<Rightarrow> [] | Some f \<Rightarrow> [Call_Timeout f (cbPeer cb)])"

fun user_calls :: "('t, 'v) cb_event \<Rightarrow> 'v user_call list" where
  "user_calls (Returned cb flags v) = ExecuteOnReturn cb flags v"
| "user_calls (TimedOut cb) = ExecuteTimeout cb"

text \<open>A callback is run at once, or its command goes to the queue it was made for.\<close>

datatype ('t, 'v) outcome = Ran "('t, 'v) cb_event" | Enqueued nat "'t ReturnCommand"

definition IsExpired :: "'t OnReturnCallback \<Rightarrow> int \<Rightarrow> bool" where
  "IsExpired cb t \<longleftrightarrow> t > timeoutTimePoint cb"

definition hand_over :: "('t, 'v) codec \<Rightarrow> 't OnReturnCallback \<Rightarrow> 't ReturnCommand \<Rightarrow> ('t, 'v) outcome" where
  "hand_over C cb com = (case cbQueue cb of
       Some q \<Rightarrow> Enqueued q com
     | None \<Rightarrow> Ran (ExecuteReturnCallback_Execute C com))"

definition OnReturnCallback_Execute ::
  "('t, 'v) codec \<Rightarrow> 't OnReturnCallback \<Rightarrow> u32 \<Rightarrow> ByteReader \<Rightarrow> ('t, 'v) outcome" where
  "OnReturnCallback_Execute C cb flags reader =
     hand_over C cb \<lparr>rc_callback = cb, rc_flags = flags, rc_reader = reader, rc_timedOut = False\<rparr>"

definition empty_reader :: ByteReader where
  "empty_reader = \<lparr>rd_data = [], rd_offset = 0, rd_errors = False\<rparr>"

definition OnReturnCallback_ExecuteTimeout :: "('t, 'v) codec \<Rightarrow> 't OnReturnCallback \<Rightarrow> ('t, 'v) outcome" where
  "OnReturnCallback_ExecuteTimeout C cb =
     hand_over C cb \<lparr>rc_callback = cb, rc_flags = 0, rc_reader = empty_reader, rc_timedOut = True\<rparr>"

section \<open>The table of a peer\<close>

text \<open>The part of \<open>PeerData\<close> that remote calls use; \<open>baseHash\<close> is the random seed of the table.\<close>

record 't RpcPeer =
  returnIdGen :: u32
  returningCallbacks :: "(u32, 't OnReturnCallback) FlatHashMap"
  baseHash :: u64

definition cb_hash :: "'t RpcPeer \<Rightarrow> u32 \<Rightarrow> u32" where
  "cb_hash p k = hash_uint32 k (baseHash p)"

definition RpcPeer_new :: "u64 \<Rightarrow> 't RpcPeer option" where
  "RpcPeer_new base = do { m \<leftarrow> FHM_new 16; Some \<lparr>returnIdGen = 0, returningCallbacks = m, baseHash = base\<rparr> }"

partial_function (option) next_return_id :: "(u32 \<Rightarrow> u32) \<Rightarrow> (u32, 'c) FlatHashMap \<Rightarrow> u32 \<Rightarrow> u32 option" where
  "next_return_id hash m gen =
     do { has \<leftarrow> Has hash m (gen + 1);
          (if has \<or> gen + 1 = 0 then next_return_id hash m (gen + 1) else Some (gen + 1)) }"

definition GetNextValidReturnCallbackId :: "'t RpcPeer \<Rightarrow> (u32 \<times> 't RpcPeer) option" where
  "GetNextValidReturnCallbackId p =
     do { i \<leftarrow> next_return_id (cb_hash p) (returningCallbacks p) (returnIdGen p);
          Some (i, p\<lparr>returnIdGen := i\<rparr>) }"

text \<open>The lines of \<open>CommandCallSend::Execute\<close> that register the callback.\<close>

definition register_callback :: "'t RpcPeer \<Rightarrow> 't OnReturnCallback \<Rightarrow> (u32 \<times> 't RpcPeer) option" where
  "register_callback p cb =
     do { (i, p) \<leftarrow> GetNextValidReturnCallbackId p;
          m \<leftarrow> InsertOrSet (cb_hash p) (returningCallbacks p) i cb;
          Some (i, p\<lparr>returningCallbacks := m\<rparr>) }"

definition OnReceiveReturn ::
  "('t, 'v) codec \<Rightarrow> 't RpcPeer \<Rightarrow> ByteReader \<Rightarrow> u32 \<Rightarrow> ('t RpcPeer \<times> ('t, 'v) outcome list) option" where
  "OnReceiveReturn C p reader flags =
     do { let (returnId, reader) = r_u32 C reader;
          cb \<leftarrow> Get (cb_hash p) (returningCallbacks p) returnId;
          (case cb of
             Some callback \<Rightarrow>
               do { m \<leftarrow> Remove (cb_hash p) (returningCallbacks p) returnId;
                    Some (p\<lparr>returningCallbacks := m\<rparr>, [OnReturnCallback_Execute C callback flags reader]) }
           | None \<Rightarrow> Some (p, [])) }"

text \<open>\<open>rnd\<close> is the random number that selects the entry.\<close>

definition CheckForTimeoutFunctionCalls ::
  "('t, 'v) codec \<Rightarrow> 't RpcPeer \<Rightarrow> u64 \<Rightarrow> int \<Rightarrow> ('t RpcPeer \<times> ('t, 'v) outcome list) option" where
  "CheckForTimeoutFunctionCalls C p rnd now =
     (case GetRandom rnd (returningCallbacks p) of
        None \<Rightarrow> Some (p, [])
      | Some it \<Rightarrow>
          if IsExpired (val it) now
          then do { m \<leftarrow> Remove (cb_hash p) (returningCallbacks p) (key it);
                    Some (p\<lparr>returningCallbacks := m\<rparr>, [OnReturnCallback_ExecuteTimeout C (val it)]) }
          else Some (p, []))"

section \<open>Ids\<close>

definition table_ok :: "'t RpcPeer \<Rightarrow> bool" where
  "table_ok p \<longleftrightarrow> fhm_inv (cb_hash p) (returningCallbacks p)"

definition table :: "'t RpcPeer \<Rightarrow> u32 \<Rightarrow> 't OnReturnCallback option" where
  "table p = fhm_map (returningCallbacks p)"

lemma cb_hash_simps [simp]:
  "cb_hash (p\<lparr>returnIdGen := i\<rparr>) = cb_hash p" "cb_hash (p\<lparr>returningCallbacks := m\<rparr>) = cb_hash p"
  by (auto simp: cb_hash_def)

lemma table_simps [simp]:
  "table (p\<lparr>returnIdGen := i\<rparr>) = table p" "table_ok (p\<lparr>returnIdGen := i\<rparr>) = table_ok p"
  "table (p\<lparr>returningCallbacks := m\<rparr>) = fhm_map m" "table_ok (p\<lparr>returningCallbacks := m\<rparr>) = fhm_inv (cb_hash p) m"
  by (auto simp: table_def table_ok_def)

lemma Has_fhm: "fhm_inv hash m \<Longrightarrow> Has hash m k = Some (fhm_map m k \<noteq> None)"
  using fhm.look_law [of hash m k] by (simp add: Has_def)

text \<open>The generator stops at the first free non-zero id behind the last one, going around once at most.\<close>

lemma next_return_id_ok:
  assumes "fhm_inv hash m" "fhm_map m (gen + of_nat (Suc d)) = None" "gen + of_nat (Suc d) \<noteq> 0"
  shows "\<exists>i. next_return_id hash m gen = Some i \<and> fhm_map m i = None \<and> i \<noteq> 0"
  using assms(2,3)
proof (induction d arbitrary: gen)
  case 0
  then show ?case
    by (subst next_return_id.simps) (simp add: Has_fhm [OF assms(1)])
next
  case (Suc d)
  have "gen + 1 + of_nat (Suc d) = gen + of_nat (Suc (Suc d))" by simp
  then have "\<exists>i. next_return_id hash m (gen + 1) = Some i \<and> fhm_map m i = None \<and> i \<noteq> 0"
    using Suc.IH [of "gen + 1"] Suc.prems by metis
  then show ?case
    by (subst next_return_id.simps) (auto simp: Has_fhm [OF assms(1)])
qed

lemma id_distance: "\<exists>d. i = gen + of_nat (Suc d)" for i :: u32
proof -
  have "gen + of_nat (Suc (unat (i - gen - 1))) = i" by simp
  then show ?thesis by metis
qed

lemma next_return_id_total:
  assumes "fhm_inv hash m" "card (dom (fhm_map m)) < 2 ^ 32 - 1"
  shows "\<exists>i. next_return_id hash m gen = Some i \<and> fhm_map m i = None \<and> i \<noteq> 0"
proof -
  have "card (UNIV - {0 :: u32}) = 2 ^ 32 - 1"
    by (subst card_Diff_singleton) (simp_all add: card_word)
  then obtain i where "i \<in> UNIV - {0}" "fhm_map m i = None"
    using fhm.free_key [OF assms(1), of "UNIV - {0}"] assms(2) by auto
  then show ?thesis
    using next_return_id_ok [OF assms(1)] id_distance [of i gen] by (metis DiffE singletonI)
qed

lemma register_callback_ok:
  assumes "table_ok p" "card (dom (table p)) < 2 ^ 29"
  shows "\<exists>i p'. register_callback p cb = Some (i, p') \<and> i \<noteq> 0 \<and> table p i = None \<and> table_ok p' \<and>
    table p' = (table p)(i \<mapsto> cb) \<and> returnIdGen p' = i"
proof -
  obtain i where i: "next_return_id (cb_hash p) (returningCallbacks p) (returnIdGen p) = Some i"
    "table p i = None" "i \<noteq> 0"
    using next_return_id_total [of "cb_hash p" "returningCallbacks p" "returnIdGen p"] assms
    by (auto simp: table_ok_def table_def)
  obtain m where "InsertOrSet (cb_hash p) (returningCallbacks p) i cb = Some m" "fhm_inv (cb_hash p) m"
    "fhm_map m = (table p)(i \<mapsto> cb)"
    using fhm.ins_law [of "cb_hash p" "returningCallbacks p" i cb] assms by (auto simp: table_ok_def table_def)
  then show ?thesis
    using i by (simp add: register_callback_def GetNextValidReturnCallbackId_def)
qed

section \<open>Every callback leaves the table once\<close>

text \<open>What happens to the table of a peer: a call registers a callback, a frame with a result arrives
  (with whatever id the other side puts into it), the periodic check looks at a random entry.\<close>

datatype 't cb_op = Op_call "'t OnReturnCallback" | Op_return u32 ByteReader | Op_check u64 int

fun cb_step :: "('t, 'v) codec \<Rightarrow> 't cb_op \<Rightarrow> 't RpcPeer \<Rightarrow> ('t RpcPeer \<times> ('t, 'v) outcome list) option" where
  "cb_step C (Op_call cb) p = do { (i, p) \<leftarrow> register_callback p cb; Some (p, []) }"
| "cb_step C (Op_return flags reader) p = OnReceiveReturn C p reader flags"
| "cb_step C (Op_check rnd now) p = CheckForTimeoutFunctionCalls C p rnd now"

fun cb_run :: "('t, 'v) codec \<Rightarrow> 't cb_op list \<Rightarrow> 't RpcPeer \<Rightarrow> ('t RpcPeer \<times> ('t, 'v) outcome list) option" where
  "cb_run C [] p = Some (p, [])"
| "cb_run C (oper # opers) p =
     do { (p, outs) \<leftarrow> cb_step C oper p; (p, outs') \<leftarrow> cb_run C opers p; Some (p, outs @ outs') }"

fun called :: "'t cb_op list \<Rightarrow> 't OnReturnCallback list" where
  "called [] = []"
| "called (Op_call cb # opers) = cb # called opers"
| "called (_ # opers) = called opers"

fun outcome_callback :: "('t, 'v) outcome \<Rightarrow> 't OnReturnCallback" where
  "outcome_callback (Ran (Returned cb flags v)) = cb"
| "outcome_callback (Ran (TimedOut cb)) = cb"
| "outcome_callback (Enqueued q com) = rc_callback com"

text \<open>A timeout is only reported for a callback that had expired.\<close>

fun timeout_outcome :: "('t, 'v) outcome \<Rightarrow> bool" where
  "timeout_outcome (Ran (Returned cb flags v)) = False"
| "timeout_outcome (Ran (TimedOut cb)) = True"
| "timeout_outcome (Enqueued q com) = rc_timedOut com"

text \<open>The callbacks that still wait.\<close>

definition pending :: "'t RpcPeer \<Rightarrow> 't OnReturnCallback multiset" where
  "pending p = image_mset (\<lambda>i. the (table p i)) (mset_set (dom (table p)))"

lemma finite_table: "table_ok p \<Longrightarrow> finite (dom (table p))"
  unfolding table_ok_def table_def by (rule fhm.finite_law)

lemma mset_map_insert:
  assumes "finite (dom m)" "m i = None" "m' = m(i \<mapsto> c)"
  shows "image_mset (\<lambda>i. the (m' i)) (mset_set (dom m')) = add_mset c (image_mset (\<lambda>i. the (m i)) (mset_set (dom m)))"
proof -
  have i: "i \<notin> dom m" using assms(2) by auto
  have "image_mset (\<lambda>j. the (m' j)) (mset_set (dom m)) = image_mset (\<lambda>j. the (m j)) (mset_set (dom m))"
    using i assms(1,3) by (intro image_mset_cong) auto
  then show ?thesis
    using assms i by simp
qed

lemma pending_insert:
  "table_ok p \<Longrightarrow> table p i = None \<Longrightarrow> table p' = (table p)(i \<mapsto> cb) \<Longrightarrow> pending p' = add_mset cb (pending p)"
  unfolding pending_def by (rule mset_map_insert [OF finite_table])

lemma pending_remove:
  assumes "table_ok p" "table p i = Some cb" "table p' = (table p)(i := None)"
  shows "pending p = add_mset cb (pending p')"
proof -
  have "table p = (table p')(i \<mapsto> cb)" "table p' i = None" using assms(2,3) by auto
  moreover have "finite (dom (table p'))" using finite_table [OF assms(1)] assms(3) by auto
  ultimately show ?thesis unfolding pending_def by (metis mset_map_insert)
qed

lemma remove_callback_ok:
  assumes "table_ok p" "table p i = Some cb"
  shows "\<exists>m. Remove (cb_hash p) (returningCallbacks p) i = Some m \<and> table_ok (p\<lparr>returningCallbacks := m\<rparr>) \<and>
    table (p\<lparr>returningCallbacks := m\<rparr>) = (table p)(i := None) \<and>
    pending p = add_mset cb (pending (p\<lparr>returningCallbacks := m\<rparr>)) \<and>
    card (dom (table (p\<lparr>returningCallbacks := m\<rparr>))) \<le> card (dom (table p))"
proof -
  obtain m where m: "Remove (cb_hash p) (returningCallbacks p) i = Some m" "fhm_inv (cb_hash p) m"
    "fhm_map m = (table p)(i := None)"
    using fhm.del_law [of "cb_hash p" "returningCallbacks p" i] assms by (auto simp: table_ok_def table_def)
  then have "table (p\<lparr>returningCallbacks := m\<rparr>) = (table p)(i := None)" by simp
  moreover have "card (dom ((table p)(i := None))) \<le> card (dom (table p))"
    using finite_table [OF assms(1)] by (intro card_mono) auto
  ultimately show ?thesis using m pending_remove [OF assms] by auto
qed

lemma Get_table: "table_ok p \<Longrightarrow> Get (cb_hash p) (returningCallbacks p) i = Some (table p i)"
  unfolding table_ok_def table_def by (rule fhm.look_law)

lemma GetRandom_table:
  assumes "table_ok p" "GetRandom rnd (returningCallbacks p) = Some it"
  shows "table p (key it) = Some (val it)"
proof -
  have "it \<in> set (buckets (returningCallbacks p))"
    using assms(2) by (auto simp: GetRandom_def split: if_splits)
  moreover have "distinct (map key (buckets (returningCallbacks p)))"
    using assms(1) by (simp add: table_ok_def fhm_inv_def keys_def)
  ultimately show ?thesis
    unfolding table_def fhm_map_def by (intro map_of_is_SomeI) (auto simp: comp_def)
qed

lemma outcome_hand_over [simp]:
  "outcome_callback (hand_over C cb com) = (if cbQueue cb = None then rc_callback com else rc_callback com)"
  "timeout_outcome (hand_over C cb com) = rc_timedOut com"
  by (auto simp: hand_over_def ExecuteReturnCallback_Execute_def split: option.splits)

text \<open>One operation: nothing is lost, a timeout hits only what had expired at that time.\<close>

definition step_ok :: "'t cb_op \<Rightarrow> 't RpcPeer \<Rightarrow> 't RpcPeer \<Rightarrow> ('t, 'v) outcome list \<Rightarrow> bool" where
  "step_ok oper p p' outs \<longleftrightarrow> table_ok p' \<and>
     mset (called [oper]) + pending p = mset (map outcome_callback outs) + pending p' \<and>
     card (dom (table p')) \<le> length (called [oper]) + card (dom (table p)) \<and>
     (\<forall>out\<in>set outs. timeout_outcome out \<longleftrightarrow> (\<exists>rnd now. oper = Op_check rnd now \<and> IsExpired (outcome_callback out) now))"

lemma call_step:
  assumes "table_ok p" "card (dom (table p)) < 2 ^ 29"
  shows "\<exists>p'. cb_step C (Op_call cb) p = Some (p', []) \<and> step_ok (Op_call cb) p p' []"
proof -
  obtain i p' where p': "register_callback p cb = Some (i, p')" "i \<noteq> 0" "table p i = None" "table_ok p'"
    "table p' = (table p)(i \<mapsto> cb)"
    using register_callback_ok [OF assms] by blast
  have "card (dom (table p')) \<le> Suc (card (dom (table p)))"
    using p'(5) finite_table [OF assms(1)] by (simp add: card_insert_if)
  then show ?thesis
    using p' pending_insert [OF assms(1) p'(3,5)] by (simp add: step_ok_def)
qed

lemma return_step:
  assumes "table_ok p"
  shows "\<exists>p' outs. cb_step C (Op_return flags reader) p = Some (p', outs) \<and> step_ok (Op_return flags reader) p p' outs"
proof -
  obtain i rd where rd: "r_u32 C reader = (i, rd)" by fastforce
  show ?thesis
  proof (cases "table p i")
    case None
    then show ?thesis using assms by (simp add: OnReceiveReturn_def rd Get_table step_ok_def)
  next
    case (Some cb)
    then show ?thesis
      using remove_callback_ok [OF assms Some]
      by (auto simp: OnReceiveReturn_def rd Get_table assms step_ok_def OnReturnCallback_Execute_def)
  qed
qed

lemma check_step:
  assumes "table_ok p"
  shows "\<exists>p' outs. cb_step C (Op_check rnd now) p = Some (p', outs) \<and> step_ok (Op_check rnd now) p p' outs"
proof (cases "GetRandom rnd (returningCallbacks p)")
  case None
  then show ?thesis using assms by (simp add: CheckForTimeoutFunctionCalls_def step_ok_def)
next
  case (Some it)
  have "table p (key it) = Some (val it)" by (rule GetRandom_table [OF assms Some])
  then show ?thesis
    using Some assms remove_callback_ok [OF assms, of "key it" "val it"]
    by (cases "IsExpired (val it) now")
      (auto simp: CheckForTimeoutFunctionCalls_def step_ok_def OnReturnCallback_ExecuteTimeout_def)
qed

lemma cb_step_ok:
  assumes "table_ok p" "card (dom (table p)) + length (called [oper]) \<le> 2 ^ 29"
  shows "\<exists>p' outs. cb_step C oper p = Some (p', outs) \<and> step_ok oper p p' outs"
proof (cases oper)
  case (Op_call cb)
  then show ?thesis using call_step [OF assms(1), of C cb] assms(2) by auto
next
  case (Op_return flags reader)
  then show ?thesis using return_step [OF assms(1)] by simp
next
  case (Op_check rnd now)
  then show ?thesis using check_step [OF assms(1)] by simp
qed

lemma called_Cons: "called (oper # opers) = called [oper] @ called opers"
  by (cases oper) auto

lemma cb_run_ok:
  assumes "table_ok p" "card (dom (table p)) + length (called opers) \<le> 2 ^ 29"
  shows "\<exists>p' outs. cb_run C opers p = Some (p', outs) \<and> table_ok p' \<and>
    mset (called opers) + pending p = mset (map outcome_callback outs) + pending p' \<and>
    card (dom (table p')) \<le> card (dom (table p)) + length (called opers) \<and>
    (\<forall>out\<in>set outs. timeout_outcome out \<longrightarrow>
       (\<exists>rnd now. Op_check rnd now \<in> set opers \<and> IsExpired (outcome_callback out) now))"
  using assms
proof (induction opers arbitrary: p)
  case (Cons oper opers)
  have len: "length (called (oper # opers)) = length (called [oper]) + length (called opers)"
    by (subst called_Cons) simp
  obtain p1 outs where 1: "cb_step C oper p = Some (p1, outs)" "step_ok oper p p1 outs"
    using cb_step_ok [OF Cons.prems(1), of oper C] Cons.prems(2) len by auto
  then obtain p2 outs' where 2: "cb_run C opers p1 = Some (p2, outs')" "table_ok p2"
    "mset (called opers) + pending p1 = mset (map outcome_callback outs') + pending p2"
    "card (dom (table p2)) \<le> card (dom (table p1)) + length (called opers)"
    "\<forall>out\<in>set outs'. timeout_outcome out \<longrightarrow>
       (\<exists>rnd now. Op_check rnd now \<in> set opers \<and> IsExpired (outcome_callback out) now)"
    using Cons.IH [of p1] Cons.prems(2) len by (auto simp: step_ok_def)
  have "mset (called (oper # opers)) + pending p = mset (called opers) + (mset (called [oper]) + pending p)"
    by (subst called_Cons) (simp add: ac_simps)
  also have "\<dots> = mset (map outcome_callback (outs @ outs')) + pending p2"
    using 1(2) 2(3) by (simp add: step_ok_def ac_simps)
  finally have "mset (called (oper # opers)) + pending p = mset (map outcome_callback (outs @ outs')) + pending p2" .
  moreover have "card (dom (table p2)) \<le> card (dom (table p)) + length (called (oper # opers))"
    using 1(2) 2(4) len by (simp add: step_ok_def)
  moreover have "\<forall>out\<in>set (outs @ outs'). timeout_outcome out \<longrightarrow>
      (\<exists>rnd now. Op_check rnd now \<in> set (oper # opers) \<and> IsExpired (outcome_callback out) now)"
    using 1(2) 2(5) unfolding step_ok_def by (metis UnE list.set_intros(1,2) set_append)
  ultimately show ?case using 1(1) 2(1,2) by simp
qed simp

lemma RpcPeer_new_total: "\<exists>p :: 't RpcPeer. RpcPeer_new base = Some p"
proof -
  obtain m :: "(u32, 't OnReturnCallback) FlatHashMap" where "FHM_new 16 = Some m"
    using FHM_new_ok [of 4 "\<lambda>k. hash_uint32 k base"] by auto
  then show ?thesis by (simp add: RpcPeer_new_def)
qed

lemma RpcPeer_new_ok:
  assumes "RpcPeer_new base = Some p"
  shows "table_ok p \<and> table p = Map.empty \<and> pending p = {#}"
proof -
  obtain m where m: "FHM_new 16 = Some m" "fhm_inv (\<lambda>k. hash_uint32 k base) m" "fhm_map m = Map.empty"
    "p = \<lparr>returnIdGen = 0, returningCallbacks = m, baseHash = base\<rparr>"
    using FHM_new_ok [of 4 "\<lambda>k. hash_uint32 k base"] assms by (fastforce simp: RpcPeer_new_def)
  moreover have "cb_hash p = (\<lambda>k. hash_uint32 k base)" using m(4) by (auto simp: cb_hash_def)
  ultimately show ?thesis by (auto simp: table_ok_def table_def pending_def)
qed

section \<open>Properties\<close>

text \<open>C6. Exactly once. Start with a new peer and let calls, arriving results (with any return id, also
  unknown or repeated ones) and timeout checks happen in any order: nothing fails, and the callbacks
  passed to the calls are exactly, each once, those that have been handed over (run with a result or a
  timeout, or put into their queue) and those that still wait. A callback reported as timed out had
  expired at one of the checks.\<close>

theorem callbacks_exactly_once:
  fixes opers :: "'t cb_op list"
  assumes "length (called opers) \<le> 2 ^ 29"
  shows "\<exists>p p' outs. RpcPeer_new base = Some p \<and> cb_run C opers p = Some (p', outs) \<and>
    mset (called opers) = mset (map outcome_callback outs) + pending p' \<and>
    (\<forall>out\<in>set outs. timeout_outcome out \<longrightarrow>
       (\<exists>rnd now. Op_check rnd now \<in> set opers \<and> IsExpired (outcome_callback out) now))"
proof -
  obtain p :: "'t RpcPeer" where p: "RpcPeer_new base = Some p" using RpcPeer_new_total by metis
  then show ?thesis using cb_run_ok [of p opers C] RpcPeer_new_ok [OF p] assms by auto
qed

text \<open>A codec for \<open>uint32_t\<close> values, to apply the theorems to: a tag byte and four bytes for an integer,
  a tag and a terminated list of characters for a string.\<close>

definition word_of4 :: "bytes \<Rightarrow> u32" where
  "word_of4 xs = ucast (xs ! 0) OR push_bit 8 (ucast (xs ! 1)) OR push_bit 16 (ucast (xs ! 2)) OR push_bit 24 (ucast (xs ! 3))"

fun read_chars :: "bytes \<Rightarrow> string \<times> nat" where
  "read_chars (x # y # xs) = (if x = 1 then let (s, n) = read_chars xs in (char_of (unat y) # s, n + 2) else ([], 1))"
| "read_chars xs = ([], 1)"

definition sample_codec :: "(unit, u32) codec" where
  "sample_codec =
     (let fail = (\<lambda>r. r\<lparr>rd_errors := True\<rparr>);
          num = (\<lambda>r. if length (rd_rest r) \<ge> 5 \<and> rd_rest r ! 0 = 1 then (word_of4 (drop 1 (rd_rest r)), rd_skip 5 r)
                     else (0, fail r)) in
      \<lparr>w_u32 = word_bytes 4, w_int = (\<lambda>x. 1 # word_bytes 4 x),
       w_str = (\<lambda>s. 2 # concat (map (\<lambda>c. [1, of_nat (of_char c)]) s) @ [0]), w_object = [3],
       w_val = (\<lambda>x. 1 # word_bytes 4 x), hton = word_bytes 4,
       is_next_integer = (\<lambda>r. rd_rest r \<noteq> [] \<and> rd_rest r ! 0 = 1),
       is_next_string = (\<lambda>r. rd_rest r \<noteq> [] \<and> rd_rest r ! 0 = 2),
       r_u32 = (\<lambda>r. if length (rd_rest r) \<ge> 4 then (word_of4 (rd_rest r), rd_skip 4 r) else (0, fail r)),
       r_int = num,
       r_str = (\<lambda>r. let (s, n) = read_chars (drop 1 (rd_rest r)) in (s, rd_skip (n + 1) r)),
       r_val = (\<lambda>t. num)\<rparr>)"

lemma word_of4_bytes: "word_of4 (word_bytes 4 x @ ys) = x"
proof -
  have "word_of4 (word_bytes 4 x @ ys) = ucast (ucast (drop_bit 0 x) :: u8) OR push_bit 8 (ucast (ucast (drop_bit 8 x) :: u8))
     OR push_bit 16 (ucast (ucast (drop_bit 16 x) :: u8)) OR push_bit 24 (ucast (ucast (drop_bit 24 x) :: u8))"
    by (simp add: word_of4_def nth_append nth_word_bytes)
  also have "\<dots> = x"
  proof (rule bit_word_eqI)
    fix n assume "n < LENGTH(32)"
    then show "bit ((ucast (ucast (drop_bit 0 x) :: u8) :: u32) OR push_bit 8 (ucast (ucast (drop_bit 8 x) :: u8))
      OR push_bit 16 (ucast (ucast (drop_bit 16 x) :: u8)) OR push_bit 24 (ucast (ucast (drop_bit 24 x) :: u8))) n = bit x n"
      by (cases "24 \<le> n"; cases "16 \<le> n") (auto simp: bit_simps)
  qed
  finally show ?thesis .
qed

lemma read_chars_ok:
  "read_chars (concat (map (\<lambda>c. [1, of_nat (of_char c)]) s) @ 0 # ys) = (s, 2 * length s + 1)"
proof (induction s)
  case (Cons c s)
  have "unat (of_nat (of_char c) :: u8) = of_char c" by (simp add: unat_of_nat)
  then show ?case using Cons by simp
qed (cases ys, auto)

lemma starts_append: "starts r xs \<longleftrightarrow> (\<exists>ys. rd_rest r = xs @ ys) \<and> xs \<noteq> [] \<and> rd_errors r = False"
  unfolding starts_def by (metis append_take_drop_id append_eq_conv_conj)

lemma sample_codec_ok: "codec_ok sample_codec (\<lambda>_ _. True)"
  by (auto simp: codec_ok_def sample_codec_def Let_def starts_append word_of4_bytes read_chars_ok sum_list_triv length_concat
      comp_def rd_skip_def)

definition sample_callback :: "unit OnReturnCallback" where
  "sample_callback = OnReturnCallback_Make None (Some 7) (Some 8) 1000 null_handle None 5"

definition sample_ops :: "unit cb_op list" where
  "sample_ops = [Op_call sample_callback, Op_check 3 2000000000, Op_return 0 empty_reader]"

theorem callbacks_exactly_once_witness:
  "length (called sample_ops) \<le> 2 ^ 29 \<and>
   (\<exists>p p' outs. RpcPeer_new 1 = Some p \<and> cb_run sample_codec sample_ops p = Some (p', outs) \<and>
     {#sample_callback#} = mset (map outcome_callback outs) + pending p')"
proof -
  have "called sample_ops = [sample_callback]" by (simp add: sample_ops_def)
  then show ?thesis using callbacks_exactly_once [of sample_ops 1 sample_codec] by auto
qed



end
