(* ===== verification/Rpc.thy ===== *)
theory Rpc
  imports Rpc_Callbacks Frame_Decoder
begin

text \<open>
  Remote procedure calls: names (\<open>src/src/RpcName.cpp\<close>), converters that read the arguments of a call,
  run the registered function and send its result (\<open>src/include/icon7/MessageConverter.hpp\<close>,
  \<open>src/src/PeerFlagsArgumentsReader.cpp\<close>), and \<open>RPCEnvironment\<close> (\<open>src/src/RPCEnvironment.cpp\<close>,
  \<open>src/include/icon7/RPCEnvironment.hpp\<close>): registration, sending of calls, dispatch of received frames.

  A peer is reached through its handle; \<open>rpeers\<close> is the result of \<open>GetLocalPeerData\<close>. Frames passed to
  \<open>PeerData::Send\<close> are collected in \<open>rsent\<close>, commands for other queues in \<open>rqueued\<close>. A registered
  function is the function \<open>onReceive\<close> of its arguments; a \<open>void\<close> function returns \<open>None\<close>.
\<close>

section \<open>Names\<close>

record RpcName =
  rname_str :: string
  rname_uint :: u32

definition RpcName_str :: "string \<Rightarrow> RpcName option" where
  "RpcName_str name = do { cassert (name \<noteq> ''''); Some \<lparr>rname_str = name, rname_uint = 0\<rparr> }"

definition RpcName_uint :: "u32 \<Rightarrow> RpcName option" where
  "RpcName_uint name =
     do { cassert (name > 0); cassert (name < 1024 * 1024); Some \<lparr>rname_str = '''', rname_uint = name\<rparr> }"

definition RpcName_valid :: "RpcName \<Rightarrow> bool" where
  "RpcName_valid n \<longleftrightarrow> (rname_str n \<noteq> '''') \<noteq> (rname_uint n \<noteq> 0)"

definition IsString :: "RpcName \<Rightarrow> bool option" where
  "IsString n = do { cassert (RpcName_valid n); Some (rname_str n \<noteq> '''') }"

definition IsUint :: "RpcName \<Rightarrow> bool option" where
  "IsUint n = do { cassert (RpcName_valid n); Some (rname_uint n \<noteq> 0) }"

fun decimal :: "nat \<Rightarrow> string" where
  "decimal n = (if n < 10 then [char_of (48 + n)] else decimal (n div 10) @ [char_of (48 + n mod 10)])"

declare decimal.simps [simp del]

definition RpcName_ToString :: "RpcName \<Rightarrow> string option" where
  "RpcName_ToString n =
     (if rname_str n \<noteq> '''' then do { cassert (rname_uint n = 0); Some ([CHR 0x27] @ rname_str n @ [CHR 0x27]) }
      else if rname_uint n \<noteq> 0 then do { cassert (rname_str n = ''''); Some (''['' @ decimal (unat (rname_uint n)) @ '']'') }
      else Some ''!!##INVALID_RPC_FUNCTION_NAME##!!'')"

definition RpcName_read :: "('t, 'v) codec \<Rightarrow> ByteReader \<Rightarrow> RpcName \<times> ByteReader" where
  "RpcName_read C r =
     (if is_next_integer C r then let (u, r) = r_int C r in (\<lparr>rname_str = '''', rname_uint = u\<rparr>, r)
      else if is_next_string C r then let (s, r) = r_str C r in (\<lparr>rname_str = s, rname_uint = 0\<rparr>, r)
      else let (u, r) = r_int C r in (\<lparr>rname_str = '''', rname_uint = 0\<rparr>, r))"

definition RpcName_write :: "('t, 'v) codec \<Rightarrow> RpcName \<Rightarrow> bytes option" where
  "RpcName_write C n =
     (if rname_str n \<noteq> '''' then do { cassert (rname_uint n = 0); Some (w_str C (rname_str n)) }
      else if rname_uint n \<noteq> 0 then do { cassert (rname_str n = ''''); Some (w_int C (rname_uint n)) }
      else Some (w_object C))"

section \<open>Arguments\<close>

text \<open>The overloads of \<open>ReadType\<close>: some parameters of a registered function are taken from the
  context of the call, all others are read. \<open>Flags\<close> is \<open>uint32_t\<close>, so a parameter of type \<open>uint32_t\<close>
  selects the first overload.\<close>

datatype 't param = P_Flags | P_Host | P_PeerHandle | P_Reader | P_Queue | P_Value 't

datatype 'v arg = A_Flags u32 | A_Host "nat option" | A_PeerHandle PeerHandle | A_Reader | A_Queue nat | A_Value 'v

text \<open>\<open>hostOfPeer\<close> is \<open>PeerHandle::GetHost\<close>.\<close>

definition ReadType :: "('t, 'v) codec \<Rightarrow> (PeerHandle \<Rightarrow> nat option) \<Rightarrow> nat \<Rightarrow> PeerHandle \<Rightarrow> u32 \<Rightarrow>
    ByteReader \<Rightarrow> 't param \<Rightarrow> 'v arg \<times> ByteReader" where
  "ReadType C hostOfPeer queue peer flags reader k = (case k of
       P_Flags \<Rightarrow> (A_Flags flags, reader)
     | P_Host \<Rightarrow> (A_Host (hostOfPeer peer), reader)
     | P_PeerHandle \<Rightarrow> (A_PeerHandle peer, reader)
     | P_Reader \<Rightarrow> (A_Reader, reader)
     | P_Queue \<Rightarrow> (A_Queue queue, reader)
     | P_Value t \<Rightarrow> (let (v, reader) = r_val C t reader in (A_Value v, reader)))"

fun read_args :: "('t, 'v) codec \<Rightarrow> (PeerHandle \<Rightarrow> nat option) \<Rightarrow> nat \<Rightarrow> PeerHandle \<Rightarrow> u32 \<Rightarrow>
    ByteReader \<Rightarrow> 't param list \<Rightarrow> 'v arg list \<times> ByteReader" where
  "read_args C hostOfPeer queue peer flags reader [] = ([], reader)"
| "read_args C hostOfPeer queue peer flags reader (k # ks) =
     (let (a, reader) = ReadType C hostOfPeer queue peer flags reader k;
          (as, reader) = read_args C hostOfPeer queue peer flags reader ks
      in (a # as, reader))"

section \<open>Converters\<close>

record ('t, 'v) MessageConverter =
  mc_name :: RpcName
  mc_executionQueue :: "nat option"
  mc_getExecutionQueue :: "(PeerHandle \<Rightarrow> ByteReader \<Rightarrow> u32 \<Rightarrow> nat option \<times> ByteReader) option"
  mc_params :: "'t param list"
  onReceive :: "'v arg list \<Rightarrow> ByteReader \<Rightarrow> 'v option"

record ('t, 'v) ExecuteRPC =
  er_reader :: ByteReader
  er_peer :: PeerHandle
  er_flags :: u32
  er_returnId :: u32
  er_converter :: "('t, 'v) MessageConverter"
  er_queue :: nat

record ('t, 'v) RpcLoop =
  rpeers :: "PeerHandle \<Rightarrow> 't RpcPeer option"
  rsent :: "(PeerHandle \<times> Storage) list"
  rcalls :: "(RpcName \<times> 'v arg list) list"
  rqueued :: "(nat \<times> ('t, 'v) ExecuteRPC) list"
  routcomes :: "('t, 'v) outcome list"

definition ExecuteGetQueue :: "('t, 'v) MessageConverter \<Rightarrow> PeerHandle \<Rightarrow> ByteReader \<Rightarrow> u32 \<Rightarrow>
    (nat option \<times> ByteReader) option" where
  "ExecuteGetQueue mc peer reader flags =
     do { cassert (RpcName_valid (mc_name mc));
          Some (case mc_executionQueue mc of
              Some q \<Rightarrow> (Some q, reader)
            | None \<Rightarrow> (case mc_getExecutionQueue mc of
                  Some f \<Rightarrow> f peer reader flags
                | None \<Rightarrow> (None, reader))) }"

text \<open>Appending several pieces to a buffer, as the operations of a writer do.\<close>

fun write_pieces :: "(nat \<Rightarrow> bytes) \<Rightarrow> ByteBufferWritable \<Rightarrow> bytes list \<Rightarrow> ByteBufferWritable option" where
  "write_pieces A b [] = Some b"
| "write_pieces A b (xs # xss) = do { b \<leftarrow> append_bytes A b xs; write_pieces A b xss }"

definition rpc_Send :: "('t, 'v) RpcLoop \<Rightarrow> PeerHandle \<Rightarrow> ByteBufferWritable \<Rightarrow> ('t, 'v) RpcLoop option" where
  "rpc_Send s peer b = do { p \<leftarrow> rpeers s peer; st \<leftarrow> BBR_of b; Some (s\<lparr>rsent := rsent s @ [(peer, st)]\<rparr>) }"

text \<open>\<open>MessageReturnExecutor\<close>: for both result types, the result is sent back when the caller waits for it.\<close>

definition MessageReturnExecutor_Execute :: "(nat \<Rightarrow> bytes) \<Rightarrow> ('t, 'v) codec \<Rightarrow> ('t, 'v) RpcLoop \<Rightarrow>
    ('t, 'v) MessageConverter \<Rightarrow> 'v arg list \<Rightarrow> ByteReader \<Rightarrow> PeerHandle \<Rightarrow> u32 \<Rightarrow> u32 \<Rightarrow> ('t, 'v) RpcLoop option" where
  "MessageReturnExecutor_Execute A C s mc args reader peer flags returnId =
     do { let s = s\<lparr>rcalls := rcalls s @ [(mc_name mc, args)]\<rparr>;
          let ret = onReceive mc args reader;
          (if returnId \<noteq> 0 \<and> flags AND 6 = flag FLAGS_CALL
           then do { b \<leftarrow> BBW_new A 100;
                     b \<leftarrow> write_pieces A b (w_u32 C returnId # (case ret of Some v \<Rightarrow> [w_val C v] | None \<Rightarrow> []));
                     (b, ok) \<leftarrow> WriteHeaderIntoBuffer A b (((flags OR 6) XOR 6) OR flag FLAGS_CALL_RETURN_FEEDBACK);
                     (if ok then rpc_Send s peer b else Some s) }
           else Some s) }"

definition DeserializeAndExecute :: "(nat \<Rightarrow> bytes) \<Rightarrow> ('t, 'v) codec \<Rightarrow> (PeerHandle \<Rightarrow> nat option) \<Rightarrow> ('t, 'v) RpcLoop \<Rightarrow>
    ('t, 'v) MessageConverter \<Rightarrow> nat \<Rightarrow> PeerHandle \<Rightarrow> ByteReader \<Rightarrow> u32 \<Rightarrow> u32 \<Rightarrow> ('t, 'v) RpcLoop option" where
  "DeserializeAndExecute A C hostOfPeer s mc queue peer reader flags returnId =
     do { cassert (RpcName_valid (mc_name mc));
          let (args, reader) = read_args C hostOfPeer queue peer flags reader (mc_params mc);
          (if rd_errors reader then Some s
           else MessageReturnExecutor_Execute A C s mc args reader peer flags returnId) }"

text \<open>The class for a \<open>std::function\<close> and the one for a method of an object repeat this code.\<close>

definition DeserializeAndExecute_StdFunction :: "(nat \<Rightarrow> bytes) \<Rightarrow> ('t, 'v) codec \<Rightarrow> (PeerHandle \<Rightarrow> nat option) \<Rightarrow>
    ('t, 'v) RpcLoop \<Rightarrow> ('t, 'v) MessageConverter \<Rightarrow> nat \<Rightarrow> PeerHandle \<Rightarrow> ByteReader \<Rightarrow> u32 \<Rightarrow> u32 \<Rightarrow> ('t, 'v) RpcLoop option" where
  "DeserializeAndExecute_StdFunction = DeserializeAndExecute"

definition DeserializeAndExecute_MethodOfObject :: "(nat \<Rightarrow> bytes) \<Rightarrow> ('t, 'v) codec \<Rightarrow> (PeerHandle \<Rightarrow> nat option) \<Rightarrow>
    ('t, 'v) RpcLoop \<Rightarrow> ('t, 'v) MessageConverter \<Rightarrow> nat \<Rightarrow> PeerHandle \<Rightarrow> ByteReader \<Rightarrow> u32 \<Rightarrow> u32 \<Rightarrow> ('t, 'v) RpcLoop option" where
  "DeserializeAndExecute_MethodOfObject = DeserializeAndExecute"

definition MessageConverterSpec :: "'t param list \<Rightarrow> ('v arg list \<Rightarrow> ByteReader \<Rightarrow> 'v option) \<Rightarrow> ('t, 'v) MessageConverter" where
  "MessageConverterSpec params f = \<lparr>mc_name = \<lparr>rname_str = '''', rname_uint = 0\<rparr>, mc_executionQueue = None,
     mc_getExecutionQueue = None, mc_params = params, onReceive = f\<rparr>"

definition MessageConverterSpecMethodOfObject ::
  "'t param list \<Rightarrow> 'o \<Rightarrow> ('o \<Rightarrow> 'v arg list \<Rightarrow> ByteReader \<Rightarrow> 'v option) \<Rightarrow> ('t, 'v) MessageConverter" where
  "MessageConverterSpecMethodOfObject params object meth = MessageConverterSpec params (meth object)"

text \<open>\<open>ExecuteRPC::Execute\<close> in \<open>src/src/Command.cpp\<close>.\<close>

definition ExecuteRPC_Execute :: "(nat \<Rightarrow> bytes) \<Rightarrow> ('t, 'v) codec \<Rightarrow> (PeerHandle \<Rightarrow> nat option) \<Rightarrow> ('t, 'v) RpcLoop \<Rightarrow>
    ('t, 'v) ExecuteRPC \<Rightarrow> ('t, 'v) RpcLoop option" where
  "ExecuteRPC_Execute A C hostOfPeer s com =
     DeserializeAndExecute A C hostOfPeer s (er_converter com) (er_queue com) (er_peer com) (er_reader com) (er_flags com)
       (er_returnId com)"

section \<open>The registry\<close>

record ('t, 'v) RPCEnvironment =
  registeredMessagesString :: "string \<Rightarrow> ('t, 'v) MessageConverter option"
  registeredMessagesUint :: "('t, 'v) MessageConverter option list"

definition RPCEnvironment_new :: "('t, 'v) RPCEnvironment" where
  "RPCEnvironment_new = \<lparr>registeredMessagesString = Map.empty, registeredMessagesUint = []\<rparr>"

definition RegisterAnyMessage ::
  "('t, 'v) RPCEnvironment \<Rightarrow> RpcName \<Rightarrow> ('t, 'v) MessageConverter \<Rightarrow> ('t, 'v) RPCEnvironment option" where
  "RegisterAnyMessage env name mc =
     do { cassert (RpcName_valid name);
          let mc = mc\<lparr>mc_name := name\<rparr>;
          str \<leftarrow> IsString name;
          (if str
           then (if registeredMessagesString env (rname_str name) \<noteq> None then Some env
                 else Some (env\<lparr>registeredMessagesString := (registeredMessagesString env)(rname_str name \<mapsto> mc)\<rparr>))
           else do { uint \<leftarrow> IsUint name;
                     (if uint
                      then do { let i = unat (rname_uint name);
                                let v = (if length (registeredMessagesUint env) \<le> i
                                         then vresize (registeredMessagesUint env) (i + 1) None
                                         else registeredMessagesUint env);
                                v \<leftarrow> vset v i (Some mc);
                                Some (env\<lparr>registeredMessagesUint := v\<rparr>) }
                      else Some env) }) }"

definition RegisterMessage :: "('t, 'v) RPCEnvironment \<Rightarrow> RpcName \<Rightarrow> 't param list \<Rightarrow> ('v arg list \<Rightarrow> ByteReader \<Rightarrow> 'v option) \<Rightarrow>
    nat option \<Rightarrow> (PeerHandle \<Rightarrow> ByteReader \<Rightarrow> u32 \<Rightarrow> nat option \<times> ByteReader) option \<Rightarrow> ('t, 'v) RPCEnvironment option" where
  "RegisterMessage env name params f executionQueue getExecutionQueue =
     RegisterAnyMessage env name ((MessageConverterSpec params f)\<lparr>mc_executionQueue := executionQueue,
       mc_getExecutionQueue := getExecutionQueue\<rparr>)"

definition RegisterObjectMessage :: "('t, 'v) RPCEnvironment \<Rightarrow> RpcName \<Rightarrow> 't param list \<Rightarrow> 'o \<Rightarrow>
    ('o \<Rightarrow> 'v arg list \<Rightarrow> ByteReader \<Rightarrow> 'v option) \<Rightarrow> nat option \<Rightarrow>
    (PeerHandle \<Rightarrow> ByteReader \<Rightarrow> u32 \<Rightarrow> nat option \<times> ByteReader) option \<Rightarrow> ('t, 'v) RPCEnvironment option" where
  "RegisterObjectMessage env name params object meth executionQueue getExecutionQueue =
     RegisterAnyMessage env name ((MessageConverterSpecMethodOfObject params object meth)\<lparr>mc_executionQueue := executionQueue,
       mc_getExecutionQueue := getExecutionQueue\<rparr>)"

text \<open>The loop that shortens the vector.\<close>

fun pop_null :: "'a option list \<Rightarrow> 'a option list" where
  "pop_null xs = (if xs = [] then [] else if last xs = None then pop_null (butlast xs) else xs)"

declare pop_null.simps [simp del]

definition RemoveRegisteredMessage :: "('t, 'v) RPCEnvironment \<Rightarrow> RpcName \<Rightarrow> ('t, 'v) RPCEnvironment option" where
  "RemoveRegisteredMessage env name =
     do { str \<leftarrow> IsString name;
          (if str then Some (env\<lparr>registeredMessagesString := (registeredMessagesString env)(rname_str name := None)\<rparr>)
           else do { uint \<leftarrow> IsUint name;
                     (if uint
                      then do { let i = unat (rname_uint name);
                                v \<leftarrow> (if length (registeredMessagesUint env) > i
                                      then vset (registeredMessagesUint env) i None
                                      else Some (registeredMessagesUint env));
                                Some (env\<lparr>registeredMessagesUint := pop_null v\<rparr>) }
                      else Some env) }) }"

definition find_converter :: "('t, 'v) RPCEnvironment \<Rightarrow> RpcName \<Rightarrow> ('t, 'v) MessageConverter option option" where
  "find_converter env name =
     do { str \<leftarrow> IsString name;
          (if str then Some (registeredMessagesString env (rname_str name))
           else do { uint \<leftarrow> IsUint name;
                     (if uint
                      then (if length (registeredMessagesUint env) > unat (rname_uint name)
                            then vget (registeredMessagesUint env) (unat (rname_uint name))
                            else Some None)
                      else Some None) }) }"

section \<open>Receiving\<close>

definition OnReceiveCall :: "(nat \<Rightarrow> bytes) \<Rightarrow> ('t, 'v) codec \<Rightarrow> (PeerHandle \<Rightarrow> nat option) \<Rightarrow> nat \<Rightarrow>
    ('t, 'v) RPCEnvironment \<Rightarrow> ('t, 'v) RpcLoop \<Rightarrow> PeerHandle \<Rightarrow> ByteReader \<Rightarrow> u32 \<Rightarrow> ('t, 'v) RpcLoop option" where
  "OnReceiveCall A C hostOfPeer loopQueue env s peer reader flags =
     do { let (returnId, reader) = (if flags AND 6 = flag FLAGS_CALL then r_u32 C reader else (0, reader));
          let (name, reader) = RpcName_read C reader;
          msgConv \<leftarrow> find_converter env name;
          (case msgConv of
             Some mc \<Rightarrow>
               do { (queue, reader) \<leftarrow> ExecuteGetQueue mc peer reader flags;
                    (case queue of
                       Some q \<Rightarrow> Some (s\<lparr>rqueued := rqueued s @ [(q, \<lparr>er_reader = reader, er_peer = peer,
                         er_flags = flags, er_returnId = returnId, er_converter = mc, er_queue = q\<rparr>)]\<rparr>)
                     | None \<Rightarrow> DeserializeAndExecute A C hostOfPeer s mc loopQueue peer reader flags returnId) }
           | None \<Rightarrow> do { msg \<leftarrow> RpcName_ToString name; Some s }) }"

definition rpc_OnReceiveReturn ::
  "('t, 'v) codec \<Rightarrow> ('t, 'v) RpcLoop \<Rightarrow> PeerHandle \<Rightarrow> ByteReader \<Rightarrow> u32 \<Rightarrow> ('t, 'v) RpcLoop option" where
  "rpc_OnReceiveReturn C s peer reader flags =
     do { p \<leftarrow> rpeers s peer;
          (p, outs) \<leftarrow> OnReceiveReturn C p reader flags;
          Some (s\<lparr>rpeers := (rpeers s)(peer \<mapsto> p), routcomes := routcomes s @ outs\<rparr>) }"

definition OnReceive_reader :: "(nat \<Rightarrow> bytes) \<Rightarrow> ('t, 'v) codec \<Rightarrow> (PeerHandle \<Rightarrow> nat option) \<Rightarrow> nat \<Rightarrow>
    ('t, 'v) RPCEnvironment \<Rightarrow> ('t, 'v) RpcLoop \<Rightarrow> PeerHandle \<Rightarrow> ByteReader \<Rightarrow> u32 \<Rightarrow> ('t, 'v) RpcLoop option" where
  "OnReceive_reader A C hostOfPeer loopQueue env s peer reader flags =
     do { cassert (\<not> rd_errors reader);
          (if flags AND 6 = flag FLAGS_CALL \<or> flags AND 6 = flag FLAGS_CALL_NO_FEEDBACK
           then OnReceiveCall A C hostOfPeer loopQueue env s peer reader flags
           else if flags AND 6 = flag FLAGS_CALL_RETURN_FEEDBACK then rpc_OnReceiveReturn C s peer reader flags
           else Some s) }"

definition OnReceive :: "(nat \<Rightarrow> bytes) \<Rightarrow> ('t, 'v) codec \<Rightarrow> (PeerHandle \<Rightarrow> nat option) \<Rightarrow> nat \<Rightarrow>
    ('t, 'v) RPCEnvironment \<Rightarrow> ('t, 'v) RpcLoop \<Rightarrow> PeerHandle \<Rightarrow> bytes \<Rightarrow> nat \<Rightarrow> u32 \<Rightarrow> ('t, 'v) RpcLoop option" where
  "OnReceive A C hostOfPeer loopQueue env s peer frame hdrSize flags =
     do { flags \<leftarrow> GetPacketFlags frame flags;
          OnReceive_reader A C hostOfPeer loopQueue env s peer
            \<lparr>rd_data = frame, rd_offset = hdrSize, rd_errors = False\<rparr> flags }"

text \<open>The checks of the loop: each looks at a random peer and there at a random waiting call; \<open>picks\<close> are the
  random choices, as many as \<open>maxChecks\<close>, a null handle when the loop has no peers.\<close>

fun check_timeouts :: "('t, 'v) codec \<Rightarrow> int \<Rightarrow> ('t, 'v) RpcLoop \<Rightarrow> (PeerHandle \<times> u64) list \<Rightarrow> ('t, 'v) RpcLoop option" where
  "check_timeouts C now s [] = Some s"
| "check_timeouts C now s ((peer, rnd) # picks) =
     (if handle_valid peer
      then do { p \<leftarrow> rpeers s peer;
                (p, outs) \<leftarrow> CheckForTimeoutFunctionCalls C p rnd now;
                check_timeouts C now (s\<lparr>rpeers := (rpeers s)(peer \<mapsto> p), routcomes := routcomes s @ outs\<rparr>) picks }
      else Some s)"

section \<open>Calling\<close>

definition SerializeSend :: "(nat \<Rightarrow> bytes) \<Rightarrow> ('t, 'v) codec \<Rightarrow> u32 \<Rightarrow> RpcName \<Rightarrow> 'v list \<Rightarrow>
    (ByteBufferWritable \<times> bool) option" where
  "SerializeSend A C flags name args =
     do { cassert (RpcName_valid name);
          n \<leftarrow> RpcName_write C name;
          b \<leftarrow> write_pieces A BBW_null (n # map (w_val C) args);
          WriteHeaderIntoBuffer A b (flags OR flag FLAGS_CALL_NO_FEEDBACK) }"

definition rpc_Send_call :: "(nat \<Rightarrow> bytes) \<Rightarrow> ('t, 'v) codec \<Rightarrow> ('t, 'v) RpcLoop \<Rightarrow> PeerHandle \<Rightarrow> u32 \<Rightarrow> RpcName \<Rightarrow> 'v list \<Rightarrow>
    ('t, 'v) RpcLoop option" where
  "rpc_Send_call A C s peer flags name args =
     do { (b, ok) \<leftarrow> SerializeSend A C flags name args; rpc_Send s peer b }"

record 't CommandCallSend =
  cs_peer :: PeerHandle
  cs_callback :: "'t OnReturnCallback"
  cs_buffer :: ByteBufferWritable
  cs_flags :: u32

definition CommandCallSend_new :: "PeerHandle \<Rightarrow> 't OnReturnCallback \<Rightarrow> u32 \<Rightarrow> ByteBufferWritable \<Rightarrow> 't CommandCallSend option" where
  "CommandCallSend_new peer cb flags b =
     do { cassert (buffer b \<noteq> None);
          Some \<lparr>cs_peer = peer, cs_callback = cb, cs_buffer = b, cs_flags = flags\<rparr> }"

text \<open>\<open>Call\<close> leaves four bytes for the return id and gives the command to the loop of the peer.\<close>

definition rpc_Call :: "(nat \<Rightarrow> bytes) \<Rightarrow> ('t, 'v) codec \<Rightarrow> PeerHandle \<Rightarrow> u32 \<Rightarrow> 't OnReturnCallback \<Rightarrow> RpcName \<Rightarrow> 'v list \<Rightarrow>
    't CommandCallSend option" where
  "rpc_Call A C peer flags cb name args =
     do { b \<leftarrow> append_bytes A BBW_null (w_u32 C 0);
          cassert (RpcName_valid name);
          n \<leftarrow> RpcName_write C name;
          b \<leftarrow> write_pieces A b (n # map (w_val C) args);
          CommandCallSend_new peer cb flags b }"

definition CommandCallSend_Execute :: "(nat \<Rightarrow> bytes) \<Rightarrow> ('t, 'v) codec \<Rightarrow> ('t, 'v) RpcLoop \<Rightarrow> 't CommandCallSend \<Rightarrow>
    ('t, 'v) RpcLoop option" where
  "CommandCallSend_Execute A C s com =
     do { cassert (buffer (cs_buffer com) \<noteq> None);
          (case rpeers s (cs_peer com) of
             None \<Rightarrow> Some s
           | Some p \<Rightarrow>
               do { (rcbId, p) \<leftarrow> register_callback p (cs_callback com);
                    blk \<leftarrow> blit (buffer (cs_buffer com)) (boffset (cs_buffer com)) (hton C rcbId);
                    (b, ok) \<leftarrow> WriteHeaderIntoBuffer A ((cs_buffer com)\<lparr>buffer := blk\<rparr>) (cs_flags com OR flag FLAGS_CALL);
                    let s = s\<lparr>rpeers := (rpeers s)(cs_peer com \<mapsto> p)\<rparr>;
                    (if ok then rpc_Send s (cs_peer com) b else Some s) }) }"

section \<open>Buffers written from scratch\<close>

text \<open>A buffer that was never prepended to has 32 bytes in front of its data.\<close>

definition off32 :: "ByteBufferWritable \<Rightarrow> bool" where
  "off32 b \<longleftrightarrow> buffer b = None \<or> boffset b = 32"

lemma off32_append_with:
  assumes "append_with grow b src = Some b'" "off32 b" "\<And>n c. grow b n = Some c \<Longrightarrow> off32 c"
  shows "off32 b'"
proof -
  obtain c blk where c: "reserve_with grow b ((bsize b + length src) mod 2 ^ 32) = Some c"
    "blit (buffer c) (boffset c + bsize c) src = Some blk" "b' = c\<lparr>buffer := blk, bsize := bsize c + length src\<rparr>"
    using assms(1) by (auto simp: append_with_def bind_eq_Some_conv)
  have "off32 c"
    using c(1) assms(2,3) by (auto simp: reserve_with_def bind_eq_Some_conv cassert_def split: if_splits)
  then show ?thesis
    using c(2,3) by (cases "buffer c") (auto simp: off32_def split: if_splits)
qed

lemma off32_reserve_or_shrink: "reserve_or_shrink A b n = Some c \<Longrightarrow> off32 c"
proof -
  assume "reserve_or_shrink A b n = Some c"
  then obtain m buf where m: "BBW_new A m = Some buf"
    and or: "append_with (\<lambda>_ _. None) (buf\<lparr>bflags := bflags b\<rparr>) (take (bcapacity buf) (contents b)) = Some c \<or>
      c = buf\<lparr>bflags := bflags b\<rparr>"
    by (auto simp: reserve_or_shrink_def bind_eq_Some_conv Let_def cassert_def split: if_splits)
  have "off32 (buf\<lparr>bflags := bflags b\<rparr>)"
    using m by (auto simp: BBW_new_def off32_def BBW_null_def bind_eq_Some_conv INITIAL_DATA_OFFSET_def Let_def split: if_splits)
  then show ?thesis using or off32_append_with by fastforce
qed

lemma append_fresh:
  assumes "pool_ok A" "bw_inv b" "off32 b" "length (contents b) + length xs \<le> size_limit"
  shows "\<exists>b'. append_bytes A b xs = Some b' \<and> bw_inv b' \<and> off32 b' \<and> contents b' = contents b @ xs"
proof -
  obtain b' where b': "append_bytes A b xs = Some b'" "bw_inv b'" "contents b' = contents b @ xs"
    using append_bytes_ok [OF assms(1,2), of xs] assms(4) length_contents [OF assms(2)] by auto
  have "off32 b'"
    using off32_append_with [OF b'(1) [unfolded append_bytes_def] assms(3)] off32_reserve_or_shrink by blast
  then show ?thesis using b' by blast
qed

lemma write_pieces_ok:
  assumes "pool_ok A" "bw_inv b" "off32 b" "length (contents b) + length (concat xss) \<le> size_limit"
  shows "\<exists>b'. write_pieces A b xss = Some b' \<and> bw_inv b' \<and> off32 b' \<and> contents b' = contents b @ concat xss"
  using assms(2-)
proof (induction xss arbitrary: b)
  case (Cons xs xss)
  then obtain c where "append_bytes A b xs = Some c" "bw_inv c" "off32 c" "contents c = contents b @ xs"
    using append_fresh [OF assms(1), of b xs] by auto
  then show ?case using Cons.IH [of c] Cons.prems by auto
qed auto

text \<open>Putting the header in front of such a buffer and handing it to \<open>Send\<close>.\<close>

lemma framed_buffer:
  assumes "bw_inv b" "off32 b" "contents b \<noteq> []" "length (contents b) \<le> 2 ^ 28"
  shows "\<exists>b' st. WriteHeaderIntoBuffer A b flags = Some (b', True) \<and> BBR_of b' = Some st \<and>
    storage_bytes st = header_bytes flags (length (contents b)) @ contents b"
proof -
  have "buffer b \<noteq> None" using assms(3) contents_None by blast
  then have "24 \<le> boffset b" "1 \<le> bsize b" "bsize b \<le> 2 ^ 28"
    using assms length_contents [OF assms(1)] by (auto simp: off32_def Suc_le_eq simp flip: length_greater_0_conv)
  then obtain b' where b': "WriteHeaderIntoBuffer A b flags = Some (b', True)" "bw_inv b'"
    "contents b' = header_bytes flags (length (contents b)) @ contents b"
    using WriteHeaderIntoBuffer_ok [OF assms(1), of A flags] length_contents [OF assms(1)] by auto
  then show ?thesis using BBR_of_ok [OF b'(2)] assms(3) by auto
qed

lemma off32_null [simp]: "off32 BBW_null"
  by (simp add: off32_def)

text \<open>\<open>memcpy\<close> over the first bytes.\<close>

lemma overwrite_front:
  assumes "bw_inv b" "off32 b" "buffer b \<noteq> None" "contents b = xs @ ys" "length zs = length xs"
  shows "\<exists>b'. blit (buffer b) (boffset b) zs = Some (buffer b') \<and> b' = b\<lparr>buffer := buffer b'\<rparr> \<and> bw_inv b' \<and> off32 b' \<and>
    contents b' = zs @ ys"
proof -
  obtain blk where blk: "buffer b = Some blk" using assms(3) by blast
  have s: "length blk = boffset b + bcapacity b" "bsize b \<le> bcapacity b" "length xs \<le> bsize b"
    using assms(1,4) length_contents [OF assms(1)] by (auto simp: bw_inv_Some [OF blk])
  define blk' where "blk' = take (boffset b) blk @ zs @ drop (boffset b + length zs) blk"
  have "ys = drop (length xs) (take (bsize b) (drop (boffset b) blk))"
    using assms(4) by (simp add: contents_Some [OF blk])
  then have "contents (b\<lparr>buffer := Some blk'\<rparr>) = zs @ ys"
    using s assms(5) by (simp add: contents_def blk'_def drop_take add.commute)
  moreover have "length blk' = length blk" using s assms(5) by (simp add: blk'_def)
  ultimately show ?thesis
    using assms(1,2,5) s blk
    by (intro exI [of _ "b\<lparr>buffer := Some blk'\<rparr>"]) (auto simp: blk'_def off32_def bw_inv_Some)
qed

section \<open>Reading back what was written\<close>

lemma rd_rest_skip [simp]: "rd_rest (rd_skip n r) = drop n (rd_rest r)"
  by (simp add: rd_rest_def rd_skip_def add.commute)

lemma rd_skip_simps [simp]: "rd_errors (rd_skip n r) = rd_errors r" "rd_skip m (rd_skip n r) = rd_skip (n + m) r"
  by (simp_all add: rd_skip_def)

lemma codec_u32:
  assumes "codec_ok C ht" "rd_rest r = w_u32 C x @ ys" "\<not> rd_errors r"
  shows "r_u32 C r = (x, rd_skip 4 r)"
proof -
  have "length (w_u32 C x) = 4" using assms(1) by (simp add: codec_ok_def)
  then have "starts r (w_u32 C x)" using assms(2,3) by (auto simp: starts_append)
  then show ?thesis using assms(1) by (simp add: codec_ok_def)
qed

lemma codec_val:
  assumes "codec_ok C ht" "rd_rest r = w_val C v @ ys" "\<not> rd_errors r" "ht t v"
  shows "r_val C t r = (v, rd_skip (length (w_val C v)) r)"
proof -
  have "starts r (w_val C v)" using assms by (auto simp: starts_append codec_ok_def)
  then show ?thesis using assms(1,4) by (simp add: codec_ok_def)
qed

lemma RpcName_read_ok:
  assumes C: "codec_ok C ht" and v: "RpcName_valid n" and w: "RpcName_write C n = Some w"
    and r: "rd_rest r = w @ ys" "\<not> rd_errors r"
  shows "RpcName_read C r = (n, rd_skip (length w) r)"
proof (cases "rname_str n = ''''")
  case True
  then have u: "rname_uint n \<noteq> 0" "w = w_int C (rname_uint n)" using v w by (auto simp: RpcName_valid_def RpcName_write_def)
  then have "starts r w" using r C by (auto simp: starts_append codec_ok_def)
  then show ?thesis using C u True by (cases n) (simp add: codec_ok_def RpcName_read_def)
next
  case False
  then have u: "rname_uint n = 0" "w = w_str C (rname_str n)" using v w by (auto simp: RpcName_valid_def RpcName_write_def)
  then have "starts r w" using r C by (auto simp: starts_append codec_ok_def)
  then show ?thesis using C u False by (cases n) (simp add: codec_ok_def RpcName_read_def)
qed

text \<open>The arguments of the registered function: context parameters from the call, the others the
  values that were passed, which must be as many and of the right types.\<close>

fun bound_args :: "('t \<Rightarrow> 'v \<Rightarrow> bool) \<Rightarrow> (PeerHandle \<Rightarrow> nat option) \<Rightarrow> nat \<Rightarrow> PeerHandle \<Rightarrow> u32 \<Rightarrow>
    't param list \<Rightarrow> 'v list \<Rightarrow> 'v arg list option" where
  "bound_args ht hostOfPeer q peer flags [] vs = (if vs = [] then Some [] else None)"
| "bound_args ht hostOfPeer q peer flags (P_Value t # ks) vs = (case vs of
       v # vs \<Rightarrow> if ht t v then map_option ((#) (A_Value v)) (bound_args ht hostOfPeer q peer flags ks vs) else None
     | [] \<Rightarrow> None)"
| "bound_args ht hostOfPeer q peer flags (P_Flags # ks) vs =
     map_option ((#) (A_Flags flags)) (bound_args ht hostOfPeer q peer flags ks vs)"
| "bound_args ht hostOfPeer q peer flags (P_Host # ks) vs =
     map_option ((#) (A_Host (hostOfPeer peer))) (bound_args ht hostOfPeer q peer flags ks vs)"
| "bound_args ht hostOfPeer q peer flags (P_PeerHandle # ks) vs =
     map_option ((#) (A_PeerHandle peer)) (bound_args ht hostOfPeer q peer flags ks vs)"
| "bound_args ht hostOfPeer q peer flags (P_Reader # ks) vs =
     map_option ((#) A_Reader) (bound_args ht hostOfPeer q peer flags ks vs)"
| "bound_args ht hostOfPeer q peer flags (P_Queue # ks) vs =
     map_option ((#) (A_Queue q)) (bound_args ht hostOfPeer q peer flags ks vs)"

lemma read_args_ok:
  assumes "codec_ok C ht" "bound_args ht hostOfPeer q peer flags ks vs = Some args"
    "rd_rest r = concat (map (w_val C) vs) @ ys" "\<not> rd_errors r"
  shows "\<exists>r'. read_args C hostOfPeer q peer flags r ks = (args, r') \<and> \<not> rd_errors r'"
  using assms
proof (induction ht hostOfPeer q peer flags ks vs arbitrary: args r rule: bound_args.induct)
  case (2 ht hostOfPeer q peer flags t ks vs)
  then obtain v vs' args' where v: "vs = v # vs'" "ht t v" "args = A_Value v # args'"
    "bound_args ht hostOfPeer q peer flags ks vs' = Some args'"
    by (auto split: list.splits if_splits)
  have "r_val C t r = (v, rd_skip (length (w_val C v)) r)"
    using 2(2,4,5) v by (intro codec_val [OF 2(2), of r v "concat (map (w_val C) vs') @ ys"]) auto
  moreover obtain r' where "read_args C hostOfPeer q peer flags (rd_skip (length (w_val C v)) r) ks = (args', r')" "\<not> rd_errors r'"
    using 2(1) [OF v(1,2) 2(2) v(4), of "rd_skip (length (w_val C v)) r"] 2(4,5) v(1) by auto
  ultimately show ?case using v(3) by (simp add: ReadType_def)
qed (fastforce simp: ReadType_def split: if_splits)+

section \<open>One call, there and back\<close>

lemma bitsize_limit: "x \<le> 2 ^ 28 \<Longrightarrow> x \<le> size_limit"
  by (simp add: size_limit_def)

text \<open>A received frame: the reader starts behind the header.\<close>

lemma OnReceive_frame:
  assumes "body \<noteq> []" "length body \<le> 2 ^ 28"
  shows "OnReceive A C hostOfPeer q env s peer (header_bytes fl (length body) @ body)
      (length (header_bytes fl (length body))) 0 =
    OnReceive_reader A C hostOfPeer q env s peer
      \<lparr>rd_data = header_bytes fl (length body) @ body, rd_offset = length (header_bytes fl (length body)), rd_errors = False\<rparr>
      (fl AND 6)"
proof -
  have "1 \<le> length body" using assms(1) by (simp add: Suc_le_eq)
  then show ?thesis using GetPacketFlags_header [of "length body" fl body 0] assms(2) by (simp add: OnReceive_def)
qed

lemma call_frame:
  assumes A: "pool_ok A" and C: "codec_ok C ht" and v: "RpcName_valid name" and w: "RpcName_write C name = Some n"
    and body: "body = (\<lambda>i. w_u32 C i @ n @ concat (map (w_val C) vs))"
    and len: "length (body 0) \<le> 2 ^ 28"
    and p: "rpeers s h = Some p" "table_ok p" "card (dom (table p)) < 2 ^ 29"
  shows "\<exists>com s' i p' st. rpc_Call A C h flags cb name vs = Some com \<and> CommandCallSend_Execute A C s com = Some s' \<and>
    i \<noteq> 0 \<and> table p i = None \<and> table_ok p' \<and> table p' = (table p)(i \<mapsto> cb) \<and>
    s' = s\<lparr>rpeers := (rpeers s)(h \<mapsto> p'), rsent := rsent s @ [(h, st)]\<rparr> \<and>
    storage_bytes st = header_bytes (flags OR 2) (length (body i)) @ body i"
proof -
  have u: "length (w_u32 C i) = 4" "hton C i = w_u32 C i" for i using C by (auto simp: codec_ok_def)
  obtain b0 where b0: "append_bytes A BBW_null (w_u32 C 0) = Some b0" "bw_inv b0" "off32 b0" "contents b0 = w_u32 C 0"
    using append_fresh [OF A, of BBW_null "w_u32 C 0"] u(1) [of 0] by (auto simp: size_limit_def)
  obtain b where b: "write_pieces A b0 (n # map (w_val C) vs) = Some b" "bw_inv b" "off32 b" "contents b = body 0"
    using write_pieces_ok [OF A b0(2,3), of "n # map (w_val C) vs"] b0(4) len bitsize_limit body by auto
  have ne: "contents b \<noteq> []" using b(4) u(1) [of 0] body by auto
  then have nb: "buffer b \<noteq> None" using contents_None by blast
  define com where "com = \<lparr>cs_peer = h, cs_callback = cb, cs_buffer = b, cs_flags = flags\<rparr>"
  have call: "rpc_Call A C h flags cb name vs = Some com"
    using b0(1) b(1) v w nb by (simp add: rpc_Call_def CommandCallSend_new_def com_def del: write_pieces.simps)
  obtain i p' where i: "register_callback p cb = Some (i, p')" "i \<noteq> 0" "table p i = None" "table_ok p'"
    "table p' = (table p)(i \<mapsto> cb)"
    using register_callback_ok [OF p(2,3), of cb] by blast
  obtain b1 where b1: "blit (buffer b) (boffset b) (w_u32 C i) = Some (buffer b1)" "b1 = b\<lparr>buffer := buffer b1\<rparr>"
    "bw_inv b1" "off32 b1" "contents b1 = body i"
    using overwrite_front [OF b(2,3) nb, of "w_u32 C 0" _ "w_u32 C i"] b(4) u(1) body by auto
  have "length (body i) = length (body 0)" "body i \<noteq> []" using u(1) [of 0] u(1) [of i] by (auto simp: body)
  then obtain b2 st where b2: "WriteHeaderIntoBuffer A b1 (flags OR 2) = Some (b2, True)" "BBR_of b2 = Some st"
    "storage_bytes st = header_bytes (flags OR 2) (length (body i)) @ body i"
    using framed_buffer [OF b1(3,4), of A "flags OR 2"] b1(5) len by auto
  have "CommandCallSend_Execute A C s com = Some (s\<lparr>rpeers := (rpeers s)(h \<mapsto> p'), rsent := rsent s @ [(h, st)]\<rparr>)"
    using nb p(1) i(1) b1(1) b1(2) [symmetric] b2(1,2) u(2) [of i]
    by (simp add: CommandCallSend_Execute_def com_def rpc_Send_def)
  then show ?thesis using call i b2(3) by blast
qed

lemma receive_call:
  assumes A: "pool_ok A" and C: "codec_ok C ht" and v: "RpcName_valid name" and w: "RpcName_write C name = Some n"
    and body: "body = w_u32 C i @ n @ concat (map (w_val C) vs)" and len: "length body \<le> 2 ^ 28"
    and fl: "fl AND 6 = 2" and i: "i \<noteq> 0"
    and mc: "find_converter env name = Some (Some mc)" "RpcName_valid (mc_name mc)" "mc_executionQueue mc = None"
      "mc_getExecutionQueue mc = None"
    and args: "bound_args ht hostOfPeer q h 2 (mc_params mc) vs = Some args"
    and ret: "onReceive mc args = (\<lambda>_. Some v)" and rlen: "4 + length (w_val C v) \<le> 2 ^ 28"
    and p: "rpeers s h \<noteq> None"
  shows "\<exists>st. OnReceive A C hostOfPeer q env s h (header_bytes fl (length body) @ body) (length (header_bytes fl (length body))) 0 =
      Some (s\<lparr>rcalls := rcalls s @ [(mc_name mc, args)], rsent := rsent s @ [(h, st)]\<rparr>) \<and>
    storage_bytes st = header_bytes 4 (4 + length (w_val C v)) @ w_u32 C i @ w_val C v"
proof -
  have u: "length (w_u32 C i) = 4" using C by (auto simp: codec_ok_def)
  define r where "r = \<lparr>rd_data = header_bytes fl (length body) @ body, rd_offset = length (header_bytes fl (length body)),
    rd_errors = False\<rparr>"
  have r: "rd_rest r = w_u32 C i @ n @ concat (map (w_val C) vs)" "\<not> rd_errors r"
    by (simp_all add: r_def rd_rest_def body)
  have r1: "r_u32 C r = (i, rd_skip 4 r)" by (rule codec_u32 [OF C r])
  have r2: "RpcName_read C (rd_skip 4 r) = (name, rd_skip (4 + length n) r)"
    using RpcName_read_ok [OF C v w, of "rd_skip 4 r" "concat (map (w_val C) vs)"] r u by simp
  obtain r' where r3: "read_args C hostOfPeer q h 2 (rd_skip (4 + length n) r) (mc_params mc) = (args, r')" "\<not> rd_errors r'"
    using read_args_ok [OF C args, of "rd_skip (4 + length n) r" "[]"] r u by auto
  obtain b where b: "BBW_new A 100 = Some b" "bw_inv b" "off32 b" "contents b = []"
    using BBW_new_ok [OF A, of 100] length_contents by (fastforce simp: off32_def)
  obtain b1 where b1: "write_pieces A b [w_u32 C i, w_val C v] = Some b1" "bw_inv b1" "off32 b1"
    "contents b1 = w_u32 C i @ w_val C v"
    using write_pieces_ok [OF A b(2,3), of "[w_u32 C i, w_val C v]"] b(4) rlen u bitsize_limit by auto
  obtain b2 st where b2: "WriteHeaderIntoBuffer A b1 4 = Some (b2, True)" "BBR_of b2 = Some st"
    "storage_bytes st = header_bytes 4 (4 + length (w_val C v)) @ w_u32 C i @ w_val C v"
    using framed_buffer [OF b1(2,3), of A 4] b1(4) u rlen by fastforce
  have "body \<noteq> []" using u body by auto
  then show ?thesis
    using OnReceive_frame [of body A C hostOfPeer q env s h fl] len fl r(2) r1 r2 r3 b(1) b1(1) b2 mc ret i p
    by (auto simp: OnReceive_reader_def OnReceiveCall_def ExecuteGetQueue_def DeserializeAndExecute_def
        MessageReturnExecutor_Execute_def rpc_Send_def simp del: write_pieces.simps simp flip: r_def)
qed

lemma receive_return:
  assumes C: "codec_ok C ht" and fl: "fl AND 6 = 4"
    and body: "body = w_u32 C i @ w_val C v" and len: "length body \<le> 2 ^ 28"
    and p: "rpeers s h = Some p" "table_ok p" "table p i = Some cb"
    and cb: "cbType cb = Some t" "ht t v" "cbQueue cb = None"
  shows "\<exists>p'. OnReceive A C hostOfPeer q env s h (header_bytes fl (length body) @ body) (length (header_bytes fl (length body))) 0 =
      Some (s\<lparr>rpeers := (rpeers s)(h \<mapsto> p'), routcomes := routcomes s @ [Ran (Returned cb 4 (Some v))]\<rparr>) \<and>
    table_ok p' \<and> table p' = (table p)(i := None)"
proof -
  have u: "length (w_u32 C i) = 4" using C by (auto simp: codec_ok_def)
  define r where "r = \<lparr>rd_data = header_bytes fl (length body) @ body, rd_offset = length (header_bytes fl (length body)),
    rd_errors = False\<rparr>"
  have r: "rd_rest r = w_u32 C i @ w_val C v" "\<not> rd_errors r"
    by (simp_all add: r_def rd_rest_def body)
  have r1: "r_u32 C r = (i, rd_skip 4 r)" by (rule codec_u32 [OF C r])
  have r2: "fst (r_val C t (rd_skip 4 r)) = v"
    using codec_val [OF C, of "rd_skip 4 r" v "[]" t] r u cb(2) by simp
  obtain m where m: "Remove (cb_hash p) (returningCallbacks p) i = Some m" "table_ok (p\<lparr>returningCallbacks := m\<rparr>)"
    "table (p\<lparr>returningCallbacks := m\<rparr>) = (table p)(i := None)"
    using remove_callback_ok [OF p(2,3)] by blast
  have "OnReceiveReturn C p r 4 = Some (p\<lparr>returningCallbacks := m\<rparr>, [Ran (Returned cb 4 (Some v))])"
    using m(1) r1 r2 cb(1,3)
    by (simp add: OnReceiveReturn_def Get_table [OF p(2)] p(3) OnReturnCallback_Execute_def hand_over_def
        ExecuteReturnCallback_Execute_def)
  moreover have "body \<noteq> []" using u body by auto
  ultimately show ?thesis
    using OnReceive_frame [of body A C hostOfPeer q env s h fl] len fl r(2) m(2,3) p(1)
    by (auto simp: OnReceive_reader_def rpc_OnReceiveReturn_def simp flip: r_def)
qed

text \<open>The size of the header of a frame, as the decoder computes it.\<close>

definition header_len :: "bytes \<Rightarrow> nat" where
  "header_len frame = unat (GetPacketHeaderSize (frame ! 0))"

lemma header_len_frame:
  assumes "body \<noteq> []" "length body \<le> 2 ^ 28"
  shows "header_len (header_bytes fl (length body) @ body) = length (header_bytes fl (length body))"
proof -
  have n: "1 \<le> length body" using assms(1) by (simp add: Suc_le_eq)
  then have "header_bytes fl (length body) \<noteq> []" by (rule header_bytes_nonempty [OF _ assms(2)])
  then have "(header_bytes fl (length body) @ body) ! 0 = header_bytes fl (length body) ! 0" by (simp add: nth_append)
  moreover have "length (header_bytes fl (length body)) = unat (GetHeaderSize (of_nat (length body)))"
    by (simp add: header_bytes_def)
  ultimately show ?thesis
    unfolding header_len_def using GetPacketHeaderSize_header [OF n assms(2), of fl] by simp
qed

lemma call_flags: "flags AND 4 = 0 \<Longrightarrow> (flags OR 2) AND 6 = 2" for flags :: u32
proof -
  assume "flags AND 4 = 0"
  then have "flags AND 6 = flags AND 2" using bit.conj_disj_distrib [of flags 4 2] by simp
  moreover have "(flags AND 2) OR 2 = 2" by (rule bit_eqI) (auto simp: bit_simps)
  ultimately show ?thesis by (simp add: bit.conj_disj_distrib2)
qed

section \<open>Properties\<close>

text \<open>C2. A remote call returns its result. The caller has a connection \<open>h\<close> with fewer than \<open>2 ^ 29\<close>
  waiting calls, on the other side (connection \<open>h2\<close>) a function is registered under the name, takes
  the types of the passed values (besides parameters from the context, such as the peer or the flags) and
  returns \<open>v\<close>. Then \<open>Call\<close> and the command it creates send one frame; the callee, receiving it, calls
  the function once with exactly the passed values and sends one frame back; the caller, receiving that,
  runs the callback once with the value \<open>v\<close>, and its table of waiting calls is what it was before.\<close>

theorem rpc_round_trip:
  assumes A: "pool_ok A" and C: "codec_ok C ht" and name: "RpcName_valid name" "RpcName_write C name = Some n"
    and len: "4 + length n + length (concat (map (w_val C) vs)) \<le> 2 ^ 28" "4 + length (w_val C v) \<le> 2 ^ 28"
    and fl: "flags AND 4 = 0"
    and p: "rpeers s h = Some p" "table_ok p" "card (dom (table p)) < 2 ^ 29"
    and cb: "cbType cb = Some t" "ht t v" "cbQueue cb = None"
    and mc: "find_converter env name = Some (Some mc)" "RpcName_valid (mc_name mc)" "mc_executionQueue mc = None"
      "mc_getExecutionQueue mc = None"
    and args: "bound_args ht hostOfPeer q h2 2 (mc_params mc) vs = Some args"
    and ret: "onReceive mc args = (\<lambda>_. Some v)" and p2: "rpeers s2 h2 \<noteq> None"
  shows "\<exists>com s' st s2' st2 s'' p''. rpc_Call A C h flags cb name vs = Some com \<and>
    CommandCallSend_Execute A C s com = Some s' \<and> rsent s' = rsent s @ [(h, st)] \<and>
    OnReceive A C hostOfPeer q env s2 h2 (storage_bytes st) (header_len (storage_bytes st)) 0 = Some s2' \<and>
    rcalls s2' = rcalls s2 @ [(mc_name mc, args)] \<and> rsent s2' = rsent s2 @ [(h2, st2)] \<and>
    OnReceive A C hostOfPeer' q' env' s' h (storage_bytes st2) (header_len (storage_bytes st2)) 0 = Some s'' \<and>
    routcomes s'' = routcomes s @ [Ran (Returned cb 4 (Some v))] \<and> rpeers s'' h = Some p'' \<and> table p'' = table p"
proof -
  define body where "body = (\<lambda>i. w_u32 C i @ n @ concat (map (w_val C) vs))"
  have u: "length (w_u32 C i) = 4" for i using C by (auto simp: codec_ok_def)
  have bl: "length (body i) \<le> 2 ^ 28" "body i \<noteq> []" for i using len(1) u [of i] by (auto simp: body_def)
  obtain com s' i p' st where call: "rpc_Call A C h flags cb name vs = Some com" "CommandCallSend_Execute A C s com = Some s'"
    "i \<noteq> 0" "table p i = None" "table_ok p'" "table p' = (table p)(i \<mapsto> cb)"
    "s' = s\<lparr>rpeers := (rpeers s)(h \<mapsto> p'), rsent := rsent s @ [(h, st)]\<rparr>"
    "storage_bytes st = header_bytes (flags OR 2) (length (body i)) @ body i"
    using call_frame [OF A C name body_def bl(1) p, of flags cb] by metis
  have fl2: "(flags OR 2) AND 6 = 2" by (rule call_flags [OF fl])
  obtain st2 where there: "OnReceive A C hostOfPeer q env s2 h2 (storage_bytes st) (header_len (storage_bytes st)) 0 =
      Some (s2\<lparr>rcalls := rcalls s2 @ [(mc_name mc, args)], rsent := rsent s2 @ [(h2, st2)]\<rparr>)"
    "storage_bytes st2 = header_bytes 4 (4 + length (w_val C v)) @ w_u32 C i @ w_val C v"
    using receive_call [OF A C name fun_cong [OF body_def] bl(1) fl2 call(3) mc args ret len(2) p2]
    unfolding call(8) header_len_frame [OF bl(2,1)] by auto
  define body2 where "body2 = w_u32 C i @ w_val C v"
  have b2: "body2 \<noteq> []" "length body2 \<le> 2 ^ 28" "4 + length (w_val C v) = length body2"
    using u [of i] len(2) by (auto simp: body2_def)
  have p': "rpeers s' h = Some p'" "table p' i = Some cb" using call(6,7) by auto
  obtain p'' where home: "OnReceive A C hostOfPeer' q' env' s' h (storage_bytes st2) (header_len (storage_bytes st2)) 0 =
      Some (s'\<lparr>rpeers := (rpeers s')(h \<mapsto> p''), routcomes := routcomes s' @ [Ran (Returned cb 4 (Some v))]\<rparr>)"
    "table p'' = (table p')(i := None)"
    using receive_return [OF C _ body2_def b2(2) p'(1) call(5) p'(2) cb, of 4 A hostOfPeer' q' env']
      header_len_frame [OF b2(1,2), of 4] unfolding there(2) b2(3) body2_def [symmetric] by auto
  have "table p'' = table p" using home(2) call(4,6) by (simp add: fun_upd_idem)
  then show ?thesis using call(1,2,7) there(1) home(1) by auto
qed

definition sample_name :: RpcName where
  "sample_name = \<lparr>rname_str = ''sum'', rname_uint = 0\<rparr>"

definition sample_converter :: "(unit, u32) MessageConverter" where
  "sample_converter = \<lparr>mc_name = sample_name, mc_executionQueue = None, mc_getExecutionQueue = None,
     mc_params = [P_Value (), P_PeerHandle, P_Value ()],
     onReceive = (\<lambda>args r. case args of [A_Value x, _, A_Value y] \<Rightarrow> Some (x + y) | _ \<Rightarrow> None)\<rparr>"

definition sample_env :: "(unit, u32) RPCEnvironment" where
  "sample_env = RPCEnvironment_new\<lparr>registeredMessagesString := [''sum'' \<mapsto> sample_converter]\<rparr>"

definition sample_loop :: "unit RpcPeer \<Rightarrow> (unit, u32) RpcLoop" where
  "sample_loop p = \<lparr>rpeers = [null_handle \<mapsto> p], rsent = [], rcalls = [], rqueued = [], routcomes = []\<rparr>"

definition sample_callback_u32 :: "unit OnReturnCallback" where
  "sample_callback_u32 = OnReturnCallback_Make (Some ()) (Some 7) None 1000 null_handle None 5"

theorem rpc_round_trip_witness:
  "\<exists>p com s' st s2' st2 s''. RpcPeer_new 1 = Some p \<and>
    rpc_Call (\<lambda>n. replicate n 0) sample_codec null_handle 1 sample_callback_u32 sample_name [20, 22] = Some com \<and>
    CommandCallSend_Execute (\<lambda>n. replicate n 0) sample_codec (sample_loop p) com = Some s' \<and>
    rsent s' = [(null_handle, st)] \<and>
    OnReceive (\<lambda>n. replicate n 0) sample_codec (\<lambda>_. None) 0 sample_env (sample_loop p) null_handle (storage_bytes st)
      (header_len (storage_bytes st)) 0 = Some s2' \<and>
    rcalls s2' = [(sample_name, [A_Value 20, A_PeerHandle null_handle, A_Value 22])] \<and> rsent s2' = [(null_handle, st2)] \<and>
    OnReceive (\<lambda>n. replicate n 0) sample_codec (\<lambda>_. None) 0 RPCEnvironment_new s' null_handle (storage_bytes st2)
      (header_len (storage_bytes st2)) 0 = Some s'' \<and>
    routcomes s'' = [Ran (Returned sample_callback_u32 4 (Some 42))]"
proof -
  obtain p :: "unit RpcPeer" where p: "RpcPeer_new 1 = Some p" using RpcPeer_new_total by metis
  have t: "table_ok p" "card (dom (table p)) < 2 ^ 29" using RpcPeer_new_ok [OF p] by auto
  let ?n = "w_str sample_codec ''sum''"
  have n: "RpcName_valid sample_name" "RpcName_write sample_codec sample_name = Some ?n"
    by (simp_all add: sample_name_def RpcName_valid_def RpcName_write_def)
  have len: "4 + length ?n + length (concat (map (w_val sample_codec) [20, 22])) \<le> 2 ^ 28"
    "4 + length (w_val sample_codec 42) \<le> 2 ^ 28"
    by (simp_all add: sample_codec_def Let_def)
  have mc: "find_converter sample_env sample_name = Some (Some sample_converter)" "RpcName_valid (mc_name sample_converter)"
    "mc_executionQueue sample_converter = None" "mc_getExecutionQueue sample_converter = None"
    using n(1) by (simp_all add: find_converter_def sample_env_def IsString_def sample_name_def sample_converter_def)
  have args: "bound_args (\<lambda>_ _. True) (\<lambda>_. None) 0 null_handle 2 (mc_params sample_converter) [20, 22] =
      Some [A_Value 20, A_PeerHandle null_handle, A_Value 22]"
    by (simp add: sample_converter_def)
  have ret: "onReceive sample_converter [A_Value 20, A_PeerHandle null_handle, A_Value 22] = (\<lambda>_. Some 42)"
    by (simp add: sample_converter_def)
  have pe: "rpeers (sample_loop p) null_handle = Some p" "rpeers (sample_loop p) null_handle \<noteq> None"
    by (simp_all add: sample_loop_def)
  have cb: "cbType sample_callback_u32 = Some ()" "(\<lambda>_ _. True) () (42 :: u32)" "cbQueue sample_callback_u32 = None"
    by (simp_all add: sample_callback_u32_def OnReturnCallback_Make_def)
  have fl: "(1 :: u32) AND 4 = 0" by simp
  have nm: "mc_name sample_converter = sample_name" and z: "rsent (sample_loop p) = []" "rcalls (sample_loop p) = []"
    "routcomes (sample_loop p) = []"
    by (simp_all add: sample_converter_def sample_loop_def)
  show ?thesis
    using rpc_round_trip [OF pool_ok_zeros sample_codec_ok n len fl pe(1) t cb mc args ret pe(2),
        of "\<lambda>_. None" 0 RPCEnvironment_new] p unfolding nm z append_Nil by blast
qed

section \<open>Registered functions\<close>

lemma nth_pop_null:
  "(if i < length (pop_null xs) then pop_null xs ! i else None) = (if i < length xs then xs ! i else None)"
proof (induction xs rule: pop_null.induct)
  case (1 xs)
  have "pop_null xs = (if xs = [] then [] else if last xs = None then pop_null (butlast xs) else xs)"
    by (rule pop_null.simps)
  moreover have "(if i < length (butlast xs) then butlast xs ! i else None) = (if i < length xs then xs ! i else None)"
    if "xs \<noteq> []" "last xs = None"
  proof (cases "i = length xs - 1")
    case True
    then show ?thesis using that by (simp add: last_conv_nth)
  next
    case False
    then have "i < length (butlast xs) \<longleftrightarrow> i < length xs" using that by auto
    then show ?thesis by (simp add: nth_butlast)
  qed
  ultimately show ?case using 1 by auto
qed

definition uint_at :: "('t, 'v) RPCEnvironment \<Rightarrow> nat \<Rightarrow> ('t, 'v) MessageConverter option" where
  "uint_at env i = (if i < length (registeredMessagesUint env) then registeredMessagesUint env ! i else None)"

lemma find_converter_eq:
  "RpcName_valid n \<Longrightarrow> find_converter env n = Some (if rname_str n \<noteq> '''' then registeredMessagesString env (rname_str n)
     else uint_at env (unat (rname_uint n)))"
  by (auto simp: find_converter_def IsString_def IsUint_def RpcName_valid_def uint_at_def)

lemma RpcName_eq: "n = n' \<longleftrightarrow> rname_str n = rname_str n' \<and> rname_uint n = rname_uint n'" for n n' :: RpcName
  by (cases n, cases n') simp



section \<open>Calls that stop the receiver\<close>

text \<open>C34. A call whose name is neither a non-empty string nor a non-zero number, which any connected peer
  can send, does not return: the test \<open>name.IsString()\<close> asserts that the name is valid before the branch
  that would only warn and ignore the call.\<close>

theorem nameless_call_aborts:
  assumes "flags AND 6 = flag FLAGS_CALL_NO_FEEDBACK" "RpcName_read C reader = (name, reader')" "\<not> RpcName_valid name"
  shows "OnReceive_reader A C hostOfPeer q env s peer reader flags = None"
  using assms by (simp add: OnReceive_reader_def OnReceiveCall_def find_converter_def IsString_def cassert_def)

definition nameless_reader :: ByteReader where
  "nameless_reader = \<lparr>rd_data = [1, 0, 0, 0, 0], rd_offset = 0, rd_errors = False\<rparr>"

theorem nameless_call_aborts_witness:
  "\<exists>name reader' p. (1 :: u32) AND 6 = flag FLAGS_CALL_NO_FEEDBACK \<and> RpcName_read sample_codec nameless_reader = (name, reader') \<and>
    \<not> RpcName_valid name \<and> RpcPeer_new 1 = Some p \<and>
    OnReceive_reader (\<lambda>n. replicate n 0) sample_codec (\<lambda>_. None) 0 sample_env (sample_loop p) null_handle
      nameless_reader 1 = None"
proof -
  obtain p :: "unit RpcPeer" where p: "RpcPeer_new 1 = Some p" using RpcPeer_new_total by metis
  have r: "RpcName_read sample_codec nameless_reader = (\<lparr>rname_str = '''', rname_uint = 0\<rparr>, rd_skip 5 nameless_reader)"
    by (simp add: RpcName_read_def sample_codec_def nameless_reader_def Let_def rd_rest_def word_of4_def)
  have v: "\<not> RpcName_valid \<lparr>rname_str = '''', rname_uint = 0\<rparr>" by (simp add: RpcName_valid_def)
  have f: "(1 :: u32) AND 6 = flag FLAGS_CALL_NO_FEEDBACK" by simp
  show ?thesis using nameless_call_aborts [OF f r v] r v f p by blast
qed

text \<open>A result for a peer that is gone by the time its call runs from a queue is sent through a null pointer.\<close>

lemma return_to_closed_peer:
  assumes "pool_ok A" "rpeers s peer = None" "returnId \<noteq> 0" "flags AND 6 = flag FLAGS_CALL" "codec_ok C ht"
    "onReceive mc args reader = None"
  shows "MessageReturnExecutor_Execute A C s mc args reader peer flags returnId = None"
proof -
  have u: "length (w_u32 C returnId) = 4" using assms(5) by (auto simp: codec_ok_def)
  obtain b where b: "BBW_new A 100 = Some b" "bw_inv b" "off32 b" "contents b = []"
    using BBW_new_ok [OF assms(1), of 100] length_contents by (fastforce simp: off32_def)
  obtain b1 where b1: "append_bytes A b (w_u32 C returnId) = Some b1" "bw_inv b1" "off32 b1" "contents b1 = w_u32 C returnId"
    using append_fresh [OF assms(1) b(2,3), of "w_u32 C returnId"] b(4) u by (auto simp: size_limit_def)
  have "contents b1 \<noteq> []" using b1(4) u by auto
  then obtain b2 where "WriteHeaderIntoBuffer A b1 (((flags OR 6) XOR 6) OR 4) = Some (b2, True)"
    using framed_buffer [OF b1(2,3)] b1(4) u by fastforce
  then show ?thesis
    using assms(2-4,6) b(1) b1(1) by (simp add: MessageReturnExecutor_Execute_def rpc_Send_def)
qed

end
