(* ===== verification/Host.thy ===== *)
theory Host
  imports Peers Peer_Data
begin

text \<open>
  The life of a connection: \<open>src/src/Host.cpp\<close>, the socket callbacks of \<open>src/src/HostUStcp.cpp\<close>, closing
  in \<open>src/src/PeerUStcp.cpp\<close> and \<open>src/src/Peer.cpp\<close>, and the commands of \<open>src/src/Command.cpp\<close> that
  connect, listen and disconnect.

  A loop owns the tables of \<open>Peers\<close>; sockets, hosts and peers are numbers. The extension of a socket
  (\<open>us_socket_ext\<close>) holds the pointer to its \<open>PeerData\<close>. The socket library is third-party code
  (uSockets): \<open>us_close\<close>, an argument, is \<open>us_socket_close\<close>, and \<open>close_ok\<close> states its documented behaviour: a
  socket that is not closed yet gets closed and its \<open>on_close\<close> callback is called at once, a closed one is
  left alone. \<open>us_socket_is_established\<close> and \<open>us_socket_is_shut_down\<close> are arbitrary predicates.
\<close>

section \<open>State\<close>

record Life =
  ltab :: PeerTables
  nextPeer :: nat
  sockExt :: "nat \<Rightarrow> nat option"
  sockHost :: "nat \<Rightarrow> nat"
  sockKnown :: "nat \<Rightarrow> bool"
  sockClosed :: "nat \<Rightarrow> bool"
  peerSocket :: "nat \<Rightarrow> nat option"
  pflags :: "nat \<Rightarrow> u32"
  isClientOf :: "nat \<Rightarrow> bool"
  hstats :: "nat \<Rightarrow> HostStats"
  lstats :: LoopStats
  listenSockets :: "nat \<Rightarrow> nat set"
  onConnectCalls :: "PeerHandle list"
  onConnectedCommands :: "(nat option \<times> nat \<times> PeerHandle) list"
  onListenCommands :: "(nat option \<times> nat \<times> bool) list"
  onDisconnectCalls :: "(nat \<times> PeerHandle) list"

definition add_disconnectedTotal :: "'s HostStats_scheme \<Rightarrow> 's HostStats_scheme" where
  "add_disconnectedTotal st = st\<lparr>st_disconnectedTotal := st_disconnectedTotal st + 1\<rparr>"

definition add_disconnectedLocal :: "'s HostStats_scheme \<Rightarrow> 's HostStats_scheme" where
  "add_disconnectedLocal st = st\<lparr>st_disconnectedLocal := st_disconnectedLocal st + 1\<rparr>"

definition add_disconnectedRemote :: "'s HostStats_scheme \<Rightarrow> 's HostStats_scheme" where
  "add_disconnectedRemote st = st\<lparr>st_disconnectedRemote := st_disconnectedRemote st + 1\<rparr>"

definition add_timeout :: "'s HostStats_scheme \<Rightarrow> 's HostStats_scheme" where
  "add_timeout st = st\<lparr>st_timeouts := st_timeouts st + 1\<rparr>"

definition add_longTimeout :: "'s HostStats_scheme \<Rightarrow> 's HostStats_scheme" where
  "add_longTimeout st = st\<lparr>st_longTimeouts := st_longTimeouts st + 1\<rparr>"

definition add_connectionsFailed :: "'s HostStats_scheme \<Rightarrow> 's HostStats_scheme" where
  "add_connectionsFailed st = st\<lparr>st_connectionsFailed := st_connectionsFailed st + 1\<rparr>"

definition add_connectionsLocal :: "'s HostStats_scheme \<Rightarrow> 's HostStats_scheme" where
  "add_connectionsLocal st = st\<lparr>st_connectionsLocalTotal := st_connectionsLocalTotal st + 1\<rparr>"

definition add_connectionsRemote :: "'s HostStats_scheme \<Rightarrow> 's HostStats_scheme" where
  "add_connectionsRemote st = st\<lparr>st_connectionsRemoteTotal := st_connectionsRemoteTotal st + 1\<rparr>"

definition count_host :: "(HostStats \<Rightarrow> HostStats) \<Rightarrow> nat \<Rightarrow> Life \<Rightarrow> Life" where
  "count_host f host s = s\<lparr>hstats := (hstats s)(host := f (hstats s host))\<rparr>"

definition count_loop :: "(LoopStats \<Rightarrow> LoopStats) \<Rightarrow> Life \<Rightarrow> Life" where
  "count_loop f s = s\<lparr>lstats := f (lstats s)\<rparr>"

text \<open>\<open>peerFlags |= flg\<close> of the shared peer with number \<open>sh\<close>.\<close>

definition or_flag :: "u32 \<Rightarrow> nat \<Rightarrow> Life \<Rightarrow> Life" where
  "or_flag flg sh s = s\<lparr>pflags := (pflags s)(sh := pflags s sh OR flg)\<rparr>"

section \<open>Opening\<close>

text \<open>The new \<open>PeerData\<close> and its shared peer get the same, unused number.\<close>

definition MakePeer :: "Life \<Rightarrow> nat \<Rightarrow> nat \<Rightarrow> (Life \<times> nat) option" where
  "MakePeer s host sock =
     do { let p = nextPeer s;
          let t = (ltab s)\<lparr>peerHandleOf := (peerHandleOf (ltab s))(p := null_handle),
                  hostOf := (hostOf (ltab s))(p := host), sharedPeerOf := (sharedPeerOf (ltab s))(p := Some p)\<rparr>;
          (t, h) \<leftarrow> PR_Alloc t host p;
          Some (s\<lparr>ltab := t, nextPeer := p + 1, peerSocket := (peerSocket s)(p := Some sock),
                  pflags := (pflags s)(p := 0), isClientOf := (isClientOf s)(p := False)\<rparr>, p) }"

definition on_open_Finish :: "Life \<Rightarrow> PeerHandle \<Rightarrow> Life option" where
  "on_open_Finish s h =
     do { let s = s\<lparr>onConnectCalls := onConnectCalls s @ [h]\<rparr>;
          d \<leftarrow> GetLocalPeerData (ltab s) h;
          (case d of
             None \<Rightarrow> Some s
           | Some p \<Rightarrow> do { sh \<leftarrow> sharedPeerOf (ltab s) p; Some (or_flag BIT_READY sh s) }) }"

definition on_open :: "Life \<Rightarrow> nat \<Rightarrow> bool \<Rightarrow> Life option" where
  "on_open s sock isClient =
     do { let host = sockHost s sock;
          let s = count_host add_connectionsLocal host s;
          (s, p) \<leftarrow>
            (if isClient = False
             then do { (s, p) \<leftarrow> MakePeer s host sock;
                       Some (count_loop add_connectionsLocal
                         (s\<lparr>sockExt := (sockExt s)(sock := Some p), isClientOf := (isClientOf s)(p := False)\<rparr>), p) }
             else do { p \<leftarrow> sockExt s sock; Some (count_loop add_connectionsRemote s, p) });
          sh \<leftarrow> sharedPeerOf (ltab s) p;
          let s = s\<lparr>isClientOf := (isClientOf s)(sh := isClient)\<rparr>;
          on_open_Finish s (peerHandleOf (ltab s) p) }"

text \<open>
  The command that connects. A callback command is a number, \<open>None\<close> an empty handle;
  \<open>onConnectedCommands\<close> holds the callbacks that were executed (no queue) or enqueued, with the handle stored in
  them. \<open>connect\<close> is \<open>us_socket_context_connect\<close>.
\<close>

record ExecuteConnect =
  ec_host :: "nat option"
  ec_address :: string
  ec_port :: "16 word"
  ec_executionQueue :: "nat option"
  ec_onConnected :: "nat option"

definition ExecuteConnect_new :: ExecuteConnect where
  "ExecuteConnect_new = \<lparr>ec_host = None, ec_address = [], ec_port = 0, ec_executionQueue = None, ec_onConnected = None\<rparr>"

definition Host_Connect :: "nat \<Rightarrow> string \<Rightarrow> 16 word \<Rightarrow> nat option \<Rightarrow> nat option \<Rightarrow> ExecuteConnect" where
  "Host_Connect this address port onConnected queue = ExecuteConnect_new\<lparr>ec_executionQueue := queue, ec_port := port,
     ec_address := address, ec_onConnected := onConnected, ec_host := Some this\<rparr>"

definition Host_Connect_plain :: "nat \<Rightarrow> string \<Rightarrow> 16 word \<Rightarrow> ExecuteConnect" where
  "Host_Connect_plain this address port = Host_Connect this address port None None"

text \<open>\<open>ConnectPromise\<close> connects with a command that hands its peer to a promise, here a number.\<close>

definition ConnectPromise :: "nat \<Rightarrow> string \<Rightarrow> 16 word \<Rightarrow> nat \<Rightarrow> ExecuteConnect" where
  "ConnectPromise this address port promise = Host_Connect this address port (Some promise) None"

definition CommandConnectPromise_Execute :: "PeerHandle \<Rightarrow> PeerHandle" where
  "CommandConnectPromise_Execute peer = (if handle_valid peer then peer else null_handle)"

definition InternalConnect_Finish :: "Life \<Rightarrow> ExecuteConnect \<Rightarrow> PeerHandle \<Rightarrow> Life" where
  "InternalConnect_Finish s com h =
     (case ec_onConnected com of
        None \<Rightarrow> s
      | Some cb \<Rightarrow> s\<lparr>onConnectedCommands := onConnectedCommands s @ [(ec_executionQueue com, cb, h)]\<rparr>)"

text \<open>\<open>com.onConnected->peer\<close> of an empty handle dereferences a null pointer.\<close>

definition InternalConnect :: "(string \<Rightarrow> 16 word \<Rightarrow> nat option) \<Rightarrow> Life \<Rightarrow> nat \<Rightarrow> ExecuteConnect \<Rightarrow> Life option" where
  "InternalConnect connect s host com =
     (case connect (ec_address com) (ec_port com) of
        Some sock \<Rightarrow>
          do { (s, p) \<leftarrow> MakePeer s host sock;
               let s = s\<lparr>sockExt := (sockExt s)(sock := Some p)\<rparr>;
               cassert (ec_onConnected com \<noteq> None);
               sh \<leftarrow> sharedPeerOf (ltab s) p;
               Some (InternalConnect_Finish (s\<lparr>isClientOf := (isClientOf s)(sh := True)\<rparr>) com (peerHandleOf (ltab s) p)) }
      | None \<Rightarrow> do { cassert (ec_onConnected com \<noteq> None); Some (InternalConnect_Finish s com null_handle) })"

section \<open>Closing\<close>

definition InternalOnDisconnect :: "Life \<Rightarrow> nat \<Rightarrow> Life" where
  "InternalOnDisconnect s p = s\<lparr>onDisconnectCalls := onDisconnectCalls s @ [(p, peerHandleOf (ltab s) p)]\<rparr>"

definition ClearInternalDataOnClose :: "Life \<Rightarrow> nat \<Rightarrow> Life option" where
  "ClearInternalDataOnClose s p =
     do { sh \<leftarrow> sharedPeerOf (ltab s) p;
          let s = or_flag BIT_CLOSED sh s;
          let t = ltab s;
          let s = s\<lparr>ltab := t\<lparr>peerHandleOf := (peerHandleOf t)(p := null_handle),
                                sharedPeerOf := (sharedPeerOf t)(p := None)\<rparr>\<rparr>;
          sock \<leftarrow> peerSocket s p;
          Some (s\<lparr>sockExt := (sockExt s)(sock := None), peerSocket := (peerSocket s)(p := None)\<rparr>) }"

definition on_close_Finish :: "Life \<Rightarrow> nat \<Rightarrow> PeerHandle \<Rightarrow> Life option" where
  "on_close_Finish s host h =
     do { d \<leftarrow> GetLocalPeerData (ltab s) h;
          (case d of
             None \<Rightarrow> Some s
           | Some p \<Rightarrow>
               do { sh \<leftarrow> sharedPeerOf (ltab s) p;
                    let s = or_flag BIT_DISCONNECTING sh s;
                    let s = InternalOnDisconnect s p;
                    (t, holder) \<leftarrow> PR_Release (ltab s) host h;
                    ClearInternalDataOnClose (s\<lparr>ltab := t\<rparr>) p }) }"

definition on_close :: "Life \<Rightarrow> nat \<Rightarrow> Life option" where
  "on_close s sock =
     do { let host = sockHost s sock;
          let s = count_loop add_disconnectedTotal (count_host add_disconnectedTotal host s);
          let s = count_loop add_disconnectedLocal (count_host add_disconnectedLocal host s);
          (case sockExt s sock of
             None \<Rightarrow> Some s
           | Some p \<Rightarrow> on_close_Finish s host (peerHandleOf (ltab s) p)) }"

definition close_ok :: "(Life \<Rightarrow> nat \<Rightarrow> Life option) \<Rightarrow> bool" where
  "close_ok us_close \<longleftrightarrow> (\<forall>s sock. us_close s sock =
     (if sockClosed s sock then Some s else on_close (s\<lparr>sockClosed := (sockClosed s)(sock := True)\<rparr>) sock))"

definition on_end :: "(Life \<Rightarrow> nat \<Rightarrow> Life option) \<Rightarrow> Life \<Rightarrow> nat \<Rightarrow> Life option" where
  "on_end us_close s sock =
     do { let host = sockHost s sock;
          let s = count_loop add_disconnectedTotal (count_host add_disconnectedTotal host s);
          let s = count_loop add_disconnectedRemote (count_host add_disconnectedRemote host s);
          (case sockExt s sock of
             None \<Rightarrow> Some s
           | Some p \<Rightarrow> do { s \<leftarrow> on_close_Finish s host (peerHandleOf (ltab s) p); us_close s sock }) }"

definition InternalDisconnect :: "(Life \<Rightarrow> nat \<Rightarrow> Life option) \<Rightarrow> Life \<Rightarrow> nat \<Rightarrow> Life option" where
  "InternalDisconnect us_close s p =
     do { let s = (case sharedPeerOf (ltab s) p of Some sh \<Rightarrow> or_flag BIT_DISCONNECTING sh s | None \<Rightarrow> s);
          (case peerSocket s p of
             Some sock \<Rightarrow> us_close s sock
           | None \<Rightarrow> (case sharedPeerOf (ltab s) p of Some sh \<Rightarrow> Some (or_flag BIT_CLOSED sh s) | None \<Rightarrow> Some s)) }"

text \<open>\<open>_InternalOnTimeout\<close> and \<open>_InternalOnLongTimeout\<close>.\<close>

definition InternalOnTimeout :: "(Life \<Rightarrow> nat \<Rightarrow> Life option) \<Rightarrow> Life \<Rightarrow> nat \<Rightarrow> Life option" where
  "InternalOnTimeout us_close s p = InternalDisconnect us_close s p"

definition on_timeout ::
  "(Life \<Rightarrow> nat \<Rightarrow> Life option) \<Rightarrow> (Life \<Rightarrow> nat \<Rightarrow> bool) \<Rightarrow> (Life \<Rightarrow> nat \<Rightarrow> bool) \<Rightarrow> Life \<Rightarrow> nat \<Rightarrow> Life option" where
  "on_timeout us_close established shut_down s sock =
     do { let host = sockHost s sock;
          let s = count_loop add_timeout (count_host add_timeout host s);
          let peer = sockExt s sock;
          s \<leftarrow> (case peer of Some p \<Rightarrow> InternalOnTimeout us_close s p | None \<Rightarrow> Some s);
          (if \<not> established s sock \<or> peer = None then us_close s sock
           else if shut_down s sock then us_close s sock
           else Some s) }"

definition on_long_timeout :: "(Life \<Rightarrow> nat \<Rightarrow> Life option) \<Rightarrow> Life \<Rightarrow> nat \<Rightarrow> Life option" where
  "on_long_timeout us_close s sock =
     do { let host = sockHost s sock;
          let s = count_loop add_longTimeout (count_host add_longTimeout host s);
          (case sockExt s sock of None \<Rightarrow> Some s | Some p \<Rightarrow> InternalOnTimeout us_close s p) }"

definition on_connect_error :: "Life \<Rightarrow> nat \<Rightarrow> Life option" where
  "on_connect_error s sock =
     do { let host = sockHost s sock;
          let s = count_loop add_connectionsFailed (count_host add_connectionsFailed host s);
          (case sockExt s sock of
             None \<Rightarrow> Some s
           | Some p \<Rightarrow>
               do { cassert (\<not> handle_valid (peerHandleOf (ltab s) p));
                    (t, holder) \<leftarrow> PR_Release (ltab s) host (peerHandleOf (ltab s) p);
                    ClearInternalDataOnClose (s\<lparr>ltab := t\<rparr>) p }) }"

section \<open>Commands\<close>

definition ExecuteConnect_Execute :: "(string \<Rightarrow> 16 word \<Rightarrow> nat option) \<Rightarrow> Life \<Rightarrow> ExecuteConnect \<Rightarrow> Life option" where
  "ExecuteConnect_Execute connect s com = do { host \<leftarrow> ec_host com; InternalConnect connect s host com }"

definition ExecuteDisconnect_Execute :: "(Life \<Rightarrow> nat \<Rightarrow> Life option) \<Rightarrow> Life \<Rightarrow> PeerHandle \<Rightarrow> Life option" where
  "ExecuteDisconnect_Execute us_close s peer =
     (if handle_valid peer
      then do { d \<leftarrow> GetLocalPeerData (ltab s) peer;
                (case d of Some p \<Rightarrow> InternalDisconnect us_close s p | None \<Rightarrow> Some s) }
      else Some s)"

fun disconnect_loop :: "(Life \<Rightarrow> nat \<Rightarrow> Life option) \<Rightarrow> Life \<Rightarrow> nat list \<Rightarrow> Life option" where
  "disconnect_loop us_close s [] = Some s"
| "disconnect_loop us_close s (p # ps) = do { s \<leftarrow> InternalDisconnect us_close s p; disconnect_loop us_close s ps }"

definition DisconnectAll :: "(Life \<Rightarrow> nat \<Rightarrow> Life option) \<Rightarrow> Life \<Rightarrow> nat \<Rightarrow> Life option" where
  "DisconnectAll us_close s host = disconnect_loop us_close s (hostPeers (ltab s) host)"

text \<open>Listening: \<open>listen\<close> is \<open>us_socket_context_listen\<close>; the second result is \<open>com->result\<close>.\<close>

datatype IPProto = IPinvalid | IPv4 | IPv6

record ExecuteListen =
  el_host :: "nat option"
  el_address :: string
  el_ipProto :: IPProto
  el_port :: "16 word"
  el_onListen :: "nat option"
  el_queue :: "nat option"

definition ListenOnPort ::
  "nat \<Rightarrow> string \<Rightarrow> 16 word \<Rightarrow> IPProto \<Rightarrow> nat option \<Rightarrow> nat option \<Rightarrow> ExecuteListen" where
  "ListenOnPort this address port ipProto callback queue = \<lparr>el_host = Some this, el_address = address,
     el_ipProto = ipProto, el_port = port, el_onListen = callback, el_queue = queue\<rparr>"

definition InternalListen ::
  "(string \<Rightarrow> 16 word \<Rightarrow> nat option) \<Rightarrow> Life \<Rightarrow> nat \<Rightarrow> string \<Rightarrow> IPProto \<Rightarrow> 16 word \<Rightarrow> Life \<times> bool" where
  "InternalListen listen s host address ipProto port =
     (let socket =
            (if address = [] then if ipProto = IPv4 then listen ''127.0.0.1'' port else listen ''::1'' port
             else listen address port);
          s = (case socket of Some k \<Rightarrow> s\<lparr>listenSockets := (listenSockets s)(host := insert k (listenSockets s host))\<rparr> | None \<Rightarrow> s)
      in (s, socket \<noteq> None))"

definition ExecuteListen_Execute :: "(string \<Rightarrow> 16 word \<Rightarrow> nat option) \<Rightarrow> Life \<Rightarrow> ExecuteListen \<Rightarrow> Life option" where
  "ExecuteListen_Execute listen s com =
     do { host \<leftarrow> el_host com;
          let (s, result) = InternalListen listen s host (el_address com) (el_ipProto com) (el_port com);
          (case el_onListen com of
             None \<Rightarrow> Some s
           | Some cb \<Rightarrow> Some (s\<lparr>onListenCommands := onListenCommands s @ [(el_queue com, cb, result)]\<rparr>)) }"

definition InternalStopListening :: "Life \<Rightarrow> nat \<Rightarrow> Life" where
  "InternalStopListening s host = s\<lparr>listenSockets := (listenSockets s)(host := {})\<rparr>"

definition Host_InternalDestroy :: "(Life \<Rightarrow> nat \<Rightarrow> Life option) \<Rightarrow> Life \<Rightarrow> nat \<Rightarrow> Life option" where
  "Host_InternalDestroy us_close s host = DisconnectAll us_close (InternalStopListening s host) host"

text \<open>The handles that \<open>ForEachPeer\<close> passes to its function, in order.\<close>

definition ForEachPeer :: "Life \<Rightarrow> nat \<Rightarrow> PeerHandle list" where
  "ForEachPeer s host = map (peerHandleOf (ltab s)) (hostPeers (ltab s) host)"

text \<open>A peer of the host, or of a random host of the loop, chosen by the random numbers \<open>r\<close>.\<close>

definition Host_GetRandomPeer :: "Life \<Rightarrow> nat \<Rightarrow> nat \<Rightarrow> PeerHandle" where
  "Host_GetRandomPeer s host r =
     (if hostPeers (ltab s) host = [] then null_handle
      else peerHandleOf (ltab s) (hostPeers (ltab s) host ! (r mod length (hostPeers (ltab s) host))))"

definition Loop_GetRandomPeer :: "Life \<Rightarrow> nat list \<Rightarrow> nat \<Rightarrow> nat \<Rightarrow> PeerHandle" where
  "Loop_GetRandomPeer s hosts r1 r2 =
     (if hosts = [] then null_handle else Host_GetRandomPeer s (hosts ! (r1 mod length hosts)) r2)"

section \<open>Every connection is reported closed once\<close>

lemma PR_Alloc_frame:
  "PR_Alloc t host p = Some (t', h) \<Longrightarrow> hostOf t' = hostOf t \<and> sharedPeerOf t' = sharedPeerOf t"
  by (auto simp: PR_Alloc_def PM_Alloc_def bind_eq_Some_conv Let_def split: if_splits)

lemma PM_Release_frame:
  "PM_Release t h = Some (t', d) \<Longrightarrow> hostOf t' = hostOf t \<and> sharedPeerOf t' = sharedPeerOf t"
  by (auto simp: PM_Release_def bind_eq_Some_conv Let_def split: if_splits)

lemma PR_Release_frame:
  assumes "PR_Release t host h = Some (t', d)"
  shows "hostOf t' = hostOf t \<and> sharedPeerOf t' = sharedPeerOf t"
proof -
  obtain u e where u: "PM_Release t h = Some (u, e)" using assms by (auto simp: PR_Release_def bind_eq_Some_conv)
  have "hostOf t' = hostOf u \<and> sharedPeerOf t' = sharedPeerOf u"
    using assms unfolding PR_Release_def u Option.bind.simps prod.case
    by (cases e) (auto simp: bind_eq_Some_conv Let_def split: if_splits)
  then show ?thesis using PM_Release_frame [OF u] by simp
qed

text \<open>The peers in the tables and the sockets that point to them belong together; every peer that ever
  existed is in the tables or has been reported disconnected, once.\<close>

definition life_core :: "Life \<Rightarrow> bool" where
  "life_core s \<longleftrightarrow> pt_inv (ltab s) \<and>
     (\<forall>p. live (ltab s) p \<longrightarrow> p < nextPeer s \<and> sharedPeerOf (ltab s) p = Some p \<and>
        (\<exists>k. peerSocket s p = Some k \<and> sockExt s k = Some p \<and> hostOf (ltab s) p = sockHost s k)) \<and>
     (\<forall>k p. sockExt s k = Some p \<longrightarrow> live (ltab s) p \<and> peerSocket s p = Some k \<and> sockKnown s k) \<and>
     (\<forall>k p. peerSocket s p = Some k \<longrightarrow> sockExt s k = Some p) \<and>
     distinct (map fst (onDisconnectCalls s)) \<and>
     (\<forall>p. p \<in> fst ` set (onDisconnectCalls s) \<longleftrightarrow> p < nextPeer s \<and> \<not> live (ltab s) p)"

lemma core_pt: "life_core s \<Longrightarrow> pt_inv (ltab s)"
  by (simp add: life_core_def)

lemma core_live:
  assumes "life_core s" "live (ltab s) p"
  obtains k where "peerSocket s p = Some k" "sockExt s k = Some p" "hostOf (ltab s) p = sockHost s k"
    "sharedPeerOf (ltab s) p = Some p" "p < nextPeer s"
  using assms unfolding life_core_def by blast

lemma core_ext:
  assumes "life_core s" "sockExt s k = Some p"
  shows "live (ltab s) p" "peerSocket s p = Some k" "sockKnown s k" "hostOf (ltab s) p = sockHost s k"
    "sharedPeerOf (ltab s) p = Some p" "p < nextPeer s"
proof -
  show 1: "live (ltab s) p" "peerSocket s p = Some k" "sockKnown s k" using assms unfolding life_core_def by blast+
  obtain j where j: "peerSocket s p = Some j" "hostOf (ltab s) p = sockHost s j"
    "sharedPeerOf (ltab s) p = Some p" "p < nextPeer s" using core_live [OF assms(1) 1(1)] by blast
  then have "j = k" using 1(2) by simp
  then show "hostOf (ltab s) p = sockHost s k" "sharedPeerOf (ltab s) p = Some p" "p < nextPeer s" using j by auto
qed

lemma core_socket: "life_core s \<Longrightarrow> peerSocket s p = Some k \<Longrightarrow> sockExt s k = Some p"
  unfolding life_core_def by blast

lemma core_distinct: "life_core s \<Longrightarrow> distinct (map fst (onDisconnectCalls s))"
  by (simp add: life_core_def)

lemma core_reported: "life_core s \<Longrightarrow> p \<in> fst ` set (onDisconnectCalls s) \<longleftrightarrow> p < nextPeer s \<and> \<not> live (ltab s) p"
  unfolding life_core_def by blast

definition life_inv :: "Life \<Rightarrow> bool" where
  "life_inv s \<longleftrightarrow> life_core s \<and> (\<forall>k. sockClosed s k \<longrightarrow> sockKnown s k \<and> sockExt s k = None)"

lemma core_counts [simp]:
  "life_core (count_host f host s) = life_core s" "life_core (count_loop g s) = life_core s"
  "life_core (or_flag flg sh s) = life_core s" "life_core (s\<lparr>sockClosed := c\<rparr>) = life_core s"
  "life_core (s\<lparr>onConnectCalls := hs\<rparr>) = life_core s" "life_core (s\<lparr>isClientOf := cl\<rparr>) = life_core s"
  "life_core (s\<lparr>onConnectedCommands := cs\<rparr>) = life_core s" "life_core (s\<lparr>listenSockets := ls\<rparr>) = life_core s"
  by (simp_all add: life_core_def count_host_def count_loop_def or_flag_def)

lemma life_count_simps [simp]:
  "ltab (count_host f host s) = ltab s" "ltab (count_loop g s) = ltab s" "ltab (or_flag flg sh s) = ltab s"
  "sockExt (count_host f host s) = sockExt s" "sockExt (count_loop g s) = sockExt s" "sockExt (or_flag flg sh s) = sockExt s"
  "sockHost (count_host f host s) = sockHost s" "sockHost (count_loop g s) = sockHost s" "sockHost (or_flag flg sh s) = sockHost s"
  "sockClosed (count_host f host s) = sockClosed s" "sockClosed (count_loop g s) = sockClosed s"
  "sockClosed (or_flag flg sh s) = sockClosed s" "sockKnown (count_host f host s) = sockKnown s"
  "sockKnown (count_loop g s) = sockKnown s" "sockKnown (or_flag flg sh s) = sockKnown s"
  "peerSocket (count_host f host s) = peerSocket s" "peerSocket (count_loop g s) = peerSocket s"
  "peerSocket (or_flag flg sh s) = peerSocket s" "nextPeer (count_host f host s) = nextPeer s"
  "nextPeer (count_loop g s) = nextPeer s" "nextPeer (or_flag flg sh s) = nextPeer s"
  "onDisconnectCalls (count_host f host s) = onDisconnectCalls s" "onDisconnectCalls (count_loop g s) = onDisconnectCalls s"
  "onDisconnectCalls (or_flag flg sh s) = onDisconnectCalls s" "listenSockets (count_host f host s) = listenSockets s"
  "listenSockets (count_loop g s) = listenSockets s" "listenSockets (or_flag flg sh s) = listenSockets s"
  by (simp_all add: count_host_def count_loop_def or_flag_def)

text \<open>What a handler may change: sockets get closed and lose their peer, nothing else.\<close>

definition only_closes :: "Life \<Rightarrow> Life \<Rightarrow> bool" where
  "only_closes s s' \<longleftrightarrow> (\<forall>k. sockExt s' k = sockExt s k \<or> sockExt s' k = None) \<and> sockHost s' = sockHost s \<and>
     nextPeer s' = nextPeer s \<and> listenSockets s' = listenSockets s \<and>
     sockKnown s' = sockKnown s \<and> (\<forall>k. sockClosed s k \<longrightarrow> sockClosed s' k)"

lemma only_closes_refl [simp]: "only_closes s s"
  by (simp add: only_closes_def)

lemma only_closes_trans: "only_closes s t \<Longrightarrow> only_closes t u \<Longrightarrow> only_closes s u"
  unfolding only_closes_def by metis

lemma only_closes_counts [simp]:
  "only_closes (count_host f host s) t = only_closes s t" "only_closes (count_loop g s) t = only_closes s t"
  "only_closes (or_flag flg sh s) t = only_closes s t" "only_closes s (or_flag flg sh t) = only_closes s t"
  by (simp_all add: only_closes_def)

lemma live_close_update: "live (t\<lparr>peerHandleOf := f, sharedPeerOf := g\<rparr>) = live t"
  by (simp add: live_def fun_eq_iff)

lemma core_after_close:
  assumes core: "life_core s" and k: "sockExt s k = Some p"
    and t': "pt_inv t'" "\<And>q. live t' q \<longleftrightarrow> live (ltab s) q \<and> q \<noteq> p" "hostOf t' = hostOf (ltab s)"
      "sharedPeerOf t' = (sharedPeerOf (ltab s))(p := None)"
    and f: "nextPeer s' = nextPeer s" "ltab s' = t'" "sockExt s' = (sockExt s)(k := None)" "sockHost s' = sockHost s"
      "sockKnown s' = sockKnown s" "peerSocket s' = (peerSocket s)(p := None)"
      "onDisconnectCalls s' = onDisconnectCalls s @ [(p, h)]"
  shows "life_core s'"
proof -
  note e = core_ext [OF core k]
  have "q < nextPeer s' \<and> sharedPeerOf t' q = Some q \<and>
      (\<exists>j. peerSocket s' q = Some j \<and> sockExt s' j = Some q \<and> hostOf t' q = sockHost s' j)" if "live t' q" for q
  proof -
    have q: "live (ltab s) q" "q \<noteq> p" using that t'(2) by auto
    obtain j where j: "peerSocket s q = Some j" "sockExt s j = Some q" "hostOf (ltab s) q = sockHost s j"
      "sharedPeerOf (ltab s) q = Some q" "q < nextPeer s" using core_live [OF core q(1)] by blast
    then have "j \<noteq> k" using k q(2) by auto
    then show ?thesis using j q(2) by (simp add: f(1,3,4,6) t'(3,4))
  qed
  moreover have "live t' q \<and> peerSocket s' q = Some j \<and> sockKnown s' j" if "sockExt s' j = Some q" for j q
  proof -
    have j: "j \<noteq> k" "sockExt s j = Some q" using that f(3) by (auto split: if_splits)
    then have "q \<noteq> p" using core_ext(2) [OF core j(2)] e(2) by auto
    then show ?thesis using core_ext(1-3) [OF core j(2)] by (simp add: t'(2) f(5,6))
  qed
  moreover have "sockExt s' j = Some q" if "peerSocket s' q = Some j" for j q
  proof -
    have q: "q \<noteq> p" "peerSocket s q = Some j" using that f(6) by (auto split: if_splits)
    then show ?thesis using core_socket [OF core q(2)] k f(3) by auto
  qed
  moreover have "distinct (map fst (onDisconnectCalls s'))"
    using core_distinct [OF core] core_reported [OF core, of p] e(1) by (simp add: f(7))
  moreover have "q \<in> fst ` set (onDisconnectCalls s') \<longleftrightarrow> q < nextPeer s' \<and> \<not> live t' q" for q
    using core_reported [OF core, of q] e(6) by (auto simp: f(1,7) t'(2))
  ultimately show ?thesis using t'(1) f(2) unfolding life_core_def by blast
qed

text \<open>Finishing the close of a socket with a peer.\<close>

lemma on_close_Finish_ok:
  assumes core: "life_core s" and k: "sockExt s k = Some p"
  shows "\<exists>s'. on_close_Finish s (sockHost s k) (peerHandleOf (ltab s) p) = Some s' \<and> life_core s' \<and>
    sockExt s' = (sockExt s)(k := None) \<and> sockHost s' = sockHost s \<and> sockKnown s' = sockKnown s \<and> sockClosed s' = sockClosed s \<and>
    onDisconnectCalls s' = onDisconnectCalls s @ [(p, peerHandleOf (ltab s) p)] \<and>
    hstats s' = hstats s \<and> lstats s' = lstats s \<and> nextPeer s' = nextPeer s \<and> listenSockets s' = listenSockets s"
proof -
  note inv = core_pt [OF core] and lp = core_ext(1) [OF core k] and sk = core_ext(2) [OF core k]
    and sh = core_ext(5,4) [OF core k]
  have g: "GetLocalPeerData (ltab s) (peerHandleOf (ltab s) p) = Some (Some p)"
    using GetLocalPeerData_live inv lp by (simp add: pt_inv_def)
  obtain t where t: "PR_Release (ltab s) (sockHost s k) (peerHandleOf (ltab s) p) = Some (t, Some p)" "pt_inv t"
    "peerHandleOf t = peerHandleOf (ltab s)" "\<And>q. live t q \<longleftrightarrow> live (ltab s) q \<and> q \<noteq> p"
    using PR_Release_live [OF inv lp sh(2)] by metis
  have fr: "hostOf t = hostOf (ltab s)" "sharedPeerOf t = sharedPeerOf (ltab s)" using PR_Release_frame [OF t(1)] by auto
  define t' where "t' = t\<lparr>peerHandleOf := (peerHandleOf t)(p := null_handle), sharedPeerOf := (sharedPeerOf t)(p := None)\<rparr>"
  have "pt_inv t'"
    using pt_inv_dead_update [OF t(2), of p "(peerHandleOf t)(p := null_handle)" "hostOf t"] t(4)
    unfolding hostOf_same t'_def by simp
  moreover have "live t' q \<longleftrightarrow> live (ltab s) q \<and> q \<noteq> p" for q using t(4) by (simp add: t'_def live_close_update)
  moreover have "hostOf t' = hostOf (ltab s)" "sharedPeerOf t' = (sharedPeerOf (ltab s))(p := None)"
    using fr by (simp_all add: t'_def)
  ultimately have t': "pt_inv t'" "\<And>q. live t' q \<longleftrightarrow> live (ltab s) q \<and> q \<noteq> p" "hostOf t' = hostOf (ltab s)"
    "sharedPeerOf t' = (sharedPeerOf (ltab s))(p := None)" by blast+
  define s0 where "s0 = or_flag BIT_CLOSED p (InternalOnDisconnect (or_flag BIT_DISCONNECTING p s) p)"
  define s' where "s' = s0\<lparr>ltab := t', sockExt := (sockExt s)(k := None), peerSocket := (peerSocket s)(p := None)\<rparr>"
  have "on_close_Finish s (sockHost s k) (peerHandleOf (ltab s) p) = Some s'"
    using g sh(1) t(1) fr(2) sk
    by (simp add: on_close_Finish_def InternalOnDisconnect_def ClearInternalDataOnClose_def or_flag_def s0_def s'_def t'_def)
  moreover have f: "nextPeer s' = nextPeer s" "ltab s' = t'" "sockExt s' = (sockExt s)(k := None)" "sockHost s' = sockHost s"
    "sockKnown s' = sockKnown s" "sockClosed s' = sockClosed s" "peerSocket s' = (peerSocket s)(p := None)"
    "onDisconnectCalls s' = onDisconnectCalls s @ [(p, peerHandleOf (ltab s) p)]" "hstats s' = hstats s" "lstats s' = lstats s"
    "listenSockets s' = listenSockets s"
    by (simp_all add: s'_def s0_def InternalOnDisconnect_def or_flag_def)
  moreover have "life_core s'" by (rule core_after_close [OF core k t' f(1-5,7,8)])
  ultimately show ?thesis by simp
qed

lemma on_close_ok:
  assumes "life_core s"
  shows "\<exists>s'. on_close s k = Some s' \<and> life_core s' \<and> sockExt s' = (sockExt s)(k := None) \<and> sockHost s' = sockHost s \<and>
    sockKnown s' = sockKnown s \<and> sockClosed s' = sockClosed s \<and> nextPeer s' = nextPeer s \<and> listenSockets s' = listenSockets s"
proof (cases "sockExt s k")
  case None
  then show ?thesis using assms by (simp add: on_close_def fun_upd_idem Let_def)
next
  case (Some p)
  let ?s = "count_loop add_disconnectedLocal (count_host add_disconnectedLocal (sockHost s k)
    (count_loop add_disconnectedTotal (count_host add_disconnectedTotal (sockHost s k) s)))"
  obtain s' where "on_close_Finish ?s (sockHost s k) (peerHandleOf (ltab s) p) = Some s'" "life_core s'"
    "sockExt s' = (sockExt s)(k := None)" "sockHost s' = sockHost s" "sockKnown s' = sockKnown s" "sockClosed s' = sockClosed s"
    "nextPeer s' = nextPeer s" "listenSockets s' = listenSockets s"
    using on_close_Finish_ok [of ?s k p] assms Some by auto
  then show ?thesis using Some by (simp add: on_close_def Let_def)
qed

lemma us_close_ok:
  assumes "close_ok us_close" "life_inv s" "sockKnown s k"
  shows "\<exists>s'. us_close s k = Some s' \<and> life_inv s' \<and> only_closes s s' \<and> sockExt s' k = None"
proof (cases "sockClosed s k")
  case True
  then show ?thesis using assms by (auto simp: close_ok_def life_inv_def)
next
  case False
  let ?s = "s\<lparr>sockClosed := (sockClosed s)(k := True)\<rparr>"
  obtain s' where "on_close ?s k = Some s'" "life_core s'" "sockExt s' = (sockExt s)(k := None)" "sockHost s' = sockHost s"
    "sockKnown s' = sockKnown s" "sockClosed s' = (sockClosed s)(k := True)"
    "nextPeer s' = nextPeer s" "listenSockets s' = listenSockets s"
    using on_close_ok [of ?s k] assms(2) by (auto simp: life_inv_def)
  then show ?thesis using assms False by (auto simp: close_ok_def life_inv_def only_closes_def)
qed

lemma life_inv_counts [simp]:
  "life_inv (count_host f host s) = life_inv s" "life_inv (count_loop g s) = life_inv s"
  "life_inv (or_flag flg sh s) = life_inv s" "life_inv (s\<lparr>onConnectCalls := hs\<rparr>) = life_inv s"
  "life_inv (s\<lparr>isClientOf := cl\<rparr>) = life_inv s" "life_inv (s\<lparr>onConnectedCommands := cs\<rparr>) = life_inv s"
  "life_inv (s\<lparr>listenSockets := ls\<rparr>) = life_inv s"
  by (simp_all add: life_inv_def)

lemma InternalDisconnect_ok:
  assumes "close_ok us_close" "life_inv s"
  shows "\<exists>s'. InternalDisconnect us_close s p = Some s' \<and> life_inv s' \<and> only_closes s s'"
proof -
  let ?s = "case sharedPeerOf (ltab s) p of Some sh \<Rightarrow> or_flag BIT_DISCONNECTING sh s | None \<Rightarrow> s"
  have s: "life_inv ?s" "\<And>t. only_closes ?s t = only_closes s t" using assms(2) by (auto split: option.split)
  have e: "peerSocket ?s p = peerSocket s p" "ltab ?s = ltab s" by (auto split: option.split)
  show ?thesis
  proof (cases "peerSocket s p")
    case None
    then show ?thesis using s e assms(2) by (auto simp: InternalDisconnect_def Let_def split: option.split)
  next
    case (Some k)
    then have "sockKnown s k"
      using core_ext(3) core_socket assms(2) unfolding life_inv_def by blast
    then have "sockKnown ?s k" by (auto split: option.split)
    then show ?thesis using us_close_ok [OF assms(1) s(1)] s(2) e Some unfolding InternalDisconnect_def Let_def by auto
  qed
qed

lemma on_end_ok:
  assumes "close_ok us_close" "life_inv s" "sockKnown s k"
  shows "\<exists>s'. on_end us_close s k = Some s' \<and> life_inv s'"
proof (cases "sockExt s k")
  case None
  then show ?thesis using assms by (simp add: on_end_def Let_def)
next
  case (Some p)
  let ?s = "count_loop add_disconnectedRemote (count_host add_disconnectedRemote (sockHost s k)
    (count_loop add_disconnectedTotal (count_host add_disconnectedTotal (sockHost s k) s)))"
  obtain s' where s': "on_close_Finish ?s (sockHost s k) (peerHandleOf (ltab s) p) = Some s'" "life_inv s'" "sockKnown s' k"
    using on_close_Finish_ok [of ?s k p] assms Some by (auto simp: life_inv_def)
  then show ?thesis using us_close_ok [OF assms(1) s'(2,3)] Some by (auto simp: on_end_def Let_def)
qed

lemma on_timeout_ok:
  assumes "close_ok us_close" "life_inv s" "sockKnown s k"
  shows "\<exists>s'. on_timeout us_close est shut s k = Some s' \<and> life_inv s'"
proof -
  let ?s = "count_loop add_timeout (count_host add_timeout (sockHost s k) s)"
  obtain s1 where s1: "(case sockExt s k of Some p \<Rightarrow> InternalOnTimeout us_close ?s p | None \<Rightarrow> Some ?s) = Some s1" "life_inv s1"
    "sockKnown s1 k"
    using InternalDisconnect_ok [OF assms(1), of ?s] assms(2,3)
    by (cases "sockExt s k") (fastforce simp: InternalOnTimeout_def only_closes_def)+
  then show ?thesis
    using us_close_ok [OF assms(1) s1(2,3)] by (auto simp: on_timeout_def Let_def)
qed

lemma on_long_timeout_ok:
  assumes "close_ok us_close" "life_inv s"
  shows "\<exists>s'. on_long_timeout us_close s k = Some s' \<and> life_inv s'"
  using InternalDisconnect_ok [OF assms(1), of "count_loop add_longTimeout (count_host add_longTimeout (sockHost s k) s)"] assms(2)
  by (cases "sockExt s k") (auto simp: on_long_timeout_def InternalOnTimeout_def Let_def)

lemma only_closes_live:
  assumes "life_core s" "life_core s'" "only_closes s s'" "live (ltab s') p"
  shows "live (ltab s) p \<and> hostOf (ltab s) p = hostOf (ltab s') p"
proof -
  obtain k where k: "sockExt s' k = Some p" "hostOf (ltab s') p = sockHost s' k" using core_live [OF assms(2,4)] by blast
  then have "sockExt s k = Some p" "sockHost s' k = sockHost s k" using assms(3) unfolding only_closes_def by (metis option.distinct(1))+
  then show ?thesis using core_ext(1,4) [OF assms(1)] k(2) by simp
qed

lemma InternalDisconnect_dead:
  assumes "close_ok us_close" "life_inv s" "live (ltab s) p"
  shows "\<exists>s'. InternalDisconnect us_close s p = Some s' \<and> life_inv s' \<and> only_closes s s' \<and> \<not> live (ltab s') p"
proof -
  have core: "life_core s" using assms(2) by (simp add: life_inv_def)
  obtain k where k: "peerSocket s p = Some k" "sockExt s k = Some p" "sharedPeerOf (ltab s) p = Some p"
    using core_live [OF core assms(3)] by blast
  let ?s = "or_flag BIT_DISCONNECTING p s"
  obtain s' where s': "us_close ?s k = Some s'" "life_inv s'" "only_closes s s'" "sockExt s' k = None"
    using us_close_ok [OF assms(1), of ?s k] assms(2) core_ext(3) [OF core k(2)] by auto
  have "\<not> live (ltab s') p"
  proof
    assume "live (ltab s') p"
    then obtain j where j: "sockExt s' j = Some p" using core_live s'(2) unfolding life_inv_def by blast
    then have "sockExt s j = Some p" using s'(3) unfolding only_closes_def by (metis option.distinct(1))
    then have "j = k" using core_ext(2) [OF core] k(1) by auto
    then show False using j s'(4) by simp
  qed
  then show ?thesis using s' k by (auto simp: InternalDisconnect_def Let_def)
qed

lemma disconnect_loop_ok:
  assumes "close_ok us_close" "life_inv s"
  shows "\<exists>s'. disconnect_loop us_close s ps = Some s' \<and> life_inv s' \<and> only_closes s s' \<and> (\<forall>p \<in> set ps. \<not> live (ltab s') p)"
  using assms(2)
proof (induction ps arbitrary: s)
  case Nil
  then show ?case by (simp add: only_closes_def)
next
  case (Cons p ps)
  obtain s1 where s1: "InternalDisconnect us_close s p = Some s1" "life_inv s1" "only_closes s s1" "\<not> live (ltab s1) p"
  proof (cases "live (ltab s) p")
    case True
    then show ?thesis using InternalDisconnect_dead [OF assms(1) Cons.prems True] that by blast
  next
    case False
    obtain s1 where s1: "InternalDisconnect us_close s p = Some s1" "life_inv s1" "only_closes s s1"
      using InternalDisconnect_ok [OF assms(1) Cons.prems] by blast
    then show ?thesis using that False only_closes_live [of s s1 p] Cons.prems by (auto simp: life_inv_def)
  qed
  obtain s2 where s2: "disconnect_loop us_close s1 ps = Some s2" "life_inv s2" "only_closes s1 s2" "\<forall>p \<in> set ps. \<not> live (ltab s2) p"
    using Cons.IH [OF s1(2)] by blast
  then have "\<not> live (ltab s2) p" using only_closes_live [of s1 s2 p] s1(2,4) by (auto simp: life_inv_def)
  then show ?case using s1(1) s2 only_closes_trans [OF s1(3) s2(3)] by simp
qed

lemma hosts_inv_mem: "hosts_inv s \<Longrightarrow> p \<in> set (hostPeers s host) \<longleftrightarrow> live s p \<and> hostOf s p = host"
  using dense_mem [of "hostPeers s host" "hoff s host" p] unfolding hosts_inv_def by (auto simp: hoff_def split: if_splits)

lemma DisconnectAll_ok:
  assumes "close_ok us_close" "life_inv s"
  shows "\<exists>s'. DisconnectAll us_close s host = Some s' \<and> life_inv s' \<and> only_closes s s' \<and> hostPeers (ltab s') host = []"
proof -
  obtain s' where s': "disconnect_loop us_close s (hostPeers (ltab s) host) = Some s'" "life_inv s'" "only_closes s s'"
    "\<forall>p \<in> set (hostPeers (ltab s) host). \<not> live (ltab s') p" using disconnect_loop_ok [OF assms] by blast
  have inv: "hosts_inv (ltab s)" "hosts_inv (ltab s')" "life_core s" "life_core s'"
    using core_pt s'(2) assms(2) by (auto simp: life_inv_def pt_inv_def)
  have "p \<notin> set (hostPeers (ltab s') host)" for p
  proof
    assume "p \<in> set (hostPeers (ltab s') host)"
    then have "live (ltab s') p" "hostOf (ltab s') p = host" using hosts_inv_mem [OF inv(2)] by simp_all
    moreover from this have "p \<in> set (hostPeers (ltab s) host)"
      using only_closes_live [OF inv(3,4) s'(3)] hosts_inv_mem [OF inv(1)] by simp
    ultimately show False using s'(4) by simp
  qed
  then have "set (hostPeers (ltab s') host) = {}" by (metis equals0I)
  then show ?thesis using s' by (simp add: DisconnectAll_def)
qed

lemma ExecuteDisconnect_ok:
  assumes "close_ok us_close" "life_inv s" "hloop h = Some (pmLoop (ltab s))"
  shows "\<exists>s'. ExecuteDisconnect_Execute us_close s h = Some s' \<and> life_inv s'"
proof -
  have "slots_inv (ltab s)" using core_pt assms(2) by (simp add: life_inv_def pt_inv_def)
  then obtain d where "GetLocalPeerData (ltab s) h = Some d"
    using ExistsLocal_iff [OF _ assms(3)] by (fastforce simp: GetLocalPeerData_def ExistsLocal_def vget_def cassert_def
      bind_eq_Some_conv split: if_splits)
  then show ?thesis
    using InternalDisconnect_ok [OF assms(1,2)] assms(2) by (cases d) (auto simp: ExecuteDisconnect_Execute_def)
qed

section \<open>New connections\<close>

lemma live_create_update: "live (t\<lparr>peerHandleOf := f, hostOf := g, sharedPeerOf := sh\<rparr>) = live t"
  by (simp add: live_def fun_eq_iff)

lemma core_after_open:
  assumes core: "life_core s" and k: "sockExt s k = None" "sockKnown s k"
    and t': "pt_inv t'" "\<And>q. live t' q \<longleftrightarrow> live (ltab s) q \<or> q = nextPeer s" "hostOf t' = (hostOf (ltab s))(nextPeer s := sockHost s k)"
      "sharedPeerOf t' = (sharedPeerOf (ltab s))(nextPeer s := Some (nextPeer s))"
    and f: "nextPeer s' = nextPeer s + 1" "ltab s' = t'" "sockExt s' = (sockExt s)(k := Some (nextPeer s))" "sockHost s' = sockHost s"
      "sockKnown s' = sockKnown s" "peerSocket s' = (peerSocket s)(nextPeer s := Some k)"
      "onDisconnectCalls s' = onDisconnectCalls s"
  shows "life_core s'"
proof -
  let ?p = "nextPeer s"
  have np: "\<not> live (ltab s) ?p" "\<And>j. sockExt s j \<noteq> Some ?p"
    using core_live [OF core] core_ext(6) [OF core] by blast+
  have "q < nextPeer s' \<and> sharedPeerOf t' q = Some q \<and>
      (\<exists>j. peerSocket s' q = Some j \<and> sockExt s' j = Some q \<and> hostOf t' q = sockHost s' j)" if "live t' q" for q
  proof (cases "q = ?p")
    case True
    then show ?thesis by (simp add: f(1,3,4,6) t'(3,4))
  next
    case False
    then have "live (ltab s) q" using that by (simp add: t'(2))
    then obtain j where j: "peerSocket s q = Some j" "sockExt s j = Some q" "hostOf (ltab s) q = sockHost s j"
      "sharedPeerOf (ltab s) q = Some q" "q < nextPeer s" using core_live [OF core] by blast
    then have "j \<noteq> k" using k by auto
    then show ?thesis using j False by (simp add: f(1,3,4,6) t'(3,4))
  qed
  moreover have "live t' q \<and> peerSocket s' q = Some j \<and> sockKnown s' j" if "sockExt s' j = Some q" for j q
  proof (cases "j = k")
    case True
    then show ?thesis using that k(2) by (simp add: f(3,5,6) t'(2))
  next
    case False
    then have "sockExt s j = Some q" using that by (simp add: f(3))
    then show ?thesis using core_ext(1-3) [OF core] np(2) by (auto simp: f(5,6) t'(2))
  qed
  moreover have "sockExt s' j = Some q" if "peerSocket s' q = Some j" for j q
  proof (cases "q = ?p")
    case True
    then show ?thesis using that by (simp add: f(3,6))
  next
    case False
    then have "sockExt s j = Some q" using core_socket [OF core] that by (simp add: f(6))
    then show ?thesis using k by (auto simp: f(3))
  qed
  moreover have "distinct (map fst (onDisconnectCalls s'))" using core_distinct [OF core] by (simp add: f(7))
  moreover have "q \<in> fst ` set (onDisconnectCalls s') \<longleftrightarrow> q < nextPeer s' \<and> \<not> live t' q" for q
    using core_reported [OF core, of q] np(1) by (auto simp: f(1,7) t'(2) less_Suc_eq)
  ultimately show ?thesis using t'(1) f(2) unfolding life_core_def by blast
qed

lemma MakePeer_ok:
  assumes core: "life_core s" and k: "sockExt s k = None" "sockKnown s k"
  shows "\<exists>s1 p. MakePeer s (sockHost s k) k = Some (s1, p) \<and> sockExt s1 = sockExt s \<and> sockClosed s1 = sockClosed s \<and>
    sockKnown s1 = sockKnown s \<and> life_core (s1\<lparr>sockExt := (sockExt s1)(k := Some p)\<rparr>) \<and> p = nextPeer s \<and>
    sharedPeerOf (ltab s1) p = Some p \<and> live (ltab s1) p \<and> slots_inv (ltab s1)"
proof -
  let ?p = "nextPeer s" and ?h = "sockHost s k"
  define t where "t = (ltab s)\<lparr>peerHandleOf := (peerHandleOf (ltab s))(?p := null_handle),
    hostOf := (hostOf (ltab s))(?p := ?h), sharedPeerOf := (sharedPeerOf (ltab s))(?p := Some ?p)\<rparr>"
  have np: "\<not> live (ltab s) ?p" using core_live [OF core] by blast
  have "pt_inv (ltab s)" by (rule core_pt [OF core])
  then have t: "pt_inv t" "live t = live (ltab s)"
    using pt_inv_dead_update [OF _ np] by (simp_all add: t_def live_create_update)
  obtain t' h where t': "PR_Alloc t ?h ?p = Some (t', h)" "pt_inv t'" "\<And>q. live t' q \<longleftrightarrow> live t q \<or> q = ?p"
    using PR_Alloc_ok [OF t(1), of ?p ?h] np t(2) by (fastforce simp: t_def null_handle_def handle_valid_def)
  have fr: "hostOf t' = hostOf t" "sharedPeerOf t' = sharedPeerOf t" using PR_Alloc_frame [OF t'(1)] by auto
  define s1 where "s1 = s\<lparr>ltab := t', nextPeer := ?p + 1, peerSocket := (peerSocket s)(?p := Some k),
                  pflags := (pflags s)(?p := 0), isClientOf := (isClientOf s)(?p := False)\<rparr>"
  have "MakePeer s ?h k = Some (s1, ?p)"
    using t'(1) by (simp add: MakePeer_def Let_def s1_def flip: t_def)
  moreover have "life_core (s1\<lparr>sockExt := (sockExt s1)(k := Some ?p)\<rparr>)"
    by (rule core_after_open [OF core k t'(2), of "s1\<lparr>sockExt := (sockExt s1)(k := Some ?p)\<rparr>"])
      (use t'(3) t(2) fr in \<open>simp_all add: s1_def t_def\<close>)
  ultimately show ?thesis
    using t'(2,3) fr by (auto simp: s1_def t_def pt_inv_def)
qed

lemma on_open_Finish_ok:
  assumes "life_inv s" "live (ltab s) p"
  shows "\<exists>s'. on_open_Finish s (peerHandleOf (ltab s) p) = Some s' \<and> life_inv s'"
proof -
  have "slots_inv (ltab s)" "sharedPeerOf (ltab s) p = Some p"
    using core_pt core_live assms unfolding life_inv_def pt_inv_def by blast+
  then show ?thesis using assms GetLocalPeerData_live by (simp add: on_open_Finish_def Let_def)
qed

lemma on_open_server_ok:
  assumes "life_inv s" "sockExt s k = None" "sockKnown s k" "\<not> sockClosed s k"
  shows "\<exists>s'. on_open s k False = Some s' \<and> life_inv s'"
proof -
  let ?s = "count_host add_connectionsLocal (sockHost s k) s"
  obtain s1 p where s1: "MakePeer ?s (sockHost s k) k = Some (s1, p)" "sockExt s1 = sockExt s" "sockClosed s1 = sockClosed s"
    "sockKnown s1 = sockKnown s" "life_core (s1\<lparr>sockExt := (sockExt s1)(k := Some p)\<rparr>)" "sharedPeerOf (ltab s1) p = Some p"
    "live (ltab s1) p"
    using MakePeer_ok [of ?s k] assms by (auto simp: life_inv_def)
  define s2 where "s2 = (count_loop add_connectionsLocal (s1\<lparr>sockExt := (sockExt s1)(k := Some p),
    isClientOf := (isClientOf s1)(p := False)\<rparr>))\<lparr>isClientOf := ((isClientOf s1)(p := False))(p := False)\<rparr>"
  have "life_core (s1\<lparr>sockExt := (sockExt s1)(k := Some p), isClientOf := (isClientOf s1)(p := False)\<rparr>)"
    using s1(5) by simp
  then have "life_inv s2" using assms s1(2-4) by (auto simp: s2_def life_inv_def)
  moreover have "ltab s2 = ltab s1" by (simp add: s2_def)
  moreover have "on_open s k False = on_open_Finish s2 (peerHandleOf (ltab s1) p)"
    using s1(1,6) by (simp add: on_open_def Let_def s2_def count_loop_def)
  ultimately show ?thesis using on_open_Finish_ok [of s2 p] s1(7) by simp
qed

lemma on_open_client_ok:
  assumes "life_inv s" "sockExt s k \<noteq> None"
  shows "\<exists>s'. on_open s k True = Some s' \<and> life_inv s'"
proof -
  obtain p where p: "sockExt s k = Some p" using assms(2) by blast
  have lp: "live (ltab s) p" "sharedPeerOf (ltab s) p = Some p"
    using core_ext(1,5) assms(1) p unfolding life_inv_def by blast+
  define s2 where "s2 = (count_loop add_connectionsRemote (count_host add_connectionsLocal (sockHost s k) s))
    \<lparr>isClientOf := (isClientOf s)(p := True)\<rparr>"
  have "life_inv s2" "ltab s2 = ltab s" using assms(1) by (simp_all add: s2_def)
  moreover have "on_open s k True = on_open_Finish s2 (peerHandleOf (ltab s) p)"
    using p lp(2) by (simp add: on_open_def Let_def s2_def count_loop_def count_host_def)
  ultimately show ?thesis using on_open_Finish_ok [of s2 p] lp(1) by simp
qed

lemma InternalConnect_Finish_inv [simp]:
  "life_inv (InternalConnect_Finish s com h) = life_inv s" "sockExt (InternalConnect_Finish s com h) = sockExt s"
  by (simp_all add: InternalConnect_Finish_def split: option.split)

lemma InternalConnect_ok:
  assumes "life_inv s" "sockExt s k = None" "sockKnown s k" "\<not> sockClosed s k"
    and com: "connect (ec_address com) (ec_port com) = Some k" "ec_onConnected com \<noteq> None"
  shows "\<exists>s'. InternalConnect connect s (sockHost s k) com = Some s' \<and> life_inv s' \<and> sockExt s' k \<noteq> None"
proof -
  obtain s1 p where s1: "MakePeer s (sockHost s k) k = Some (s1, p)" "sockExt s1 = sockExt s" "sockClosed s1 = sockClosed s"
    "sockKnown s1 = sockKnown s" "life_core (s1\<lparr>sockExt := (sockExt s1)(k := Some p)\<rparr>)" "sharedPeerOf (ltab s1) p = Some p"
    using MakePeer_ok [of s k] assms by (auto simp: life_inv_def)
  define s2 where "s2 = s1\<lparr>sockExt := (sockExt s1)(k := Some p)\<rparr>"
  have "life_inv s2" using assms s1(2-5) by (auto simp: s2_def life_inv_def)
  then show ?thesis
    using s1(1,6) com by (simp add: InternalConnect_def Let_def cassert_def flip: s2_def) (simp add: s2_def)
qed

section \<open>The events of a loop\<close>

text \<open>
  What happens to the sockets of a loop, in any order: the library accepts a connection, or reports that a
  connecting socket opened, closed, ended or timed out; the loop executes a connect or disconnect command or
  destroys a host. An event is enabled for sockets the library can report it for: a new socket is one the
  library has not handed out before, and a socket opens only while its peer is attached.
\<close>

datatype life_event =
    Accepted nat nat
  | Connecting ExecuteConnect "nat option"
  | Opened nat
  | Closed nat
  | Ended nat
  | Timed_out nat
  | Long_timed_out nat
  | Disconnect_command PeerHandle
  | Destroy_host nat

fun event_enabled :: "Life \<Rightarrow> life_event \<Rightarrow> bool" where
  "event_enabled s (Accepted host k) = (\<not> sockKnown s k)"
| "event_enabled s (Connecting com socket) = (ec_host com \<noteq> None \<and> ec_onConnected com \<noteq> None \<and>
     (case socket of None \<Rightarrow> True | Some k \<Rightarrow> \<not> sockKnown s k))"
| "event_enabled s (Opened k) = (sockExt s k \<noteq> None)"
| "event_enabled s (Closed k) = sockKnown s k"
| "event_enabled s (Ended k) = sockKnown s k"
| "event_enabled s (Timed_out k) = sockKnown s k"
| "event_enabled s (Long_timed_out k) = sockKnown s k"
| "event_enabled s (Disconnect_command h) = (hloop h = Some (pmLoop (ltab s)))"
| "event_enabled s (Destroy_host host) = True"

definition new_socket :: "Life \<Rightarrow> nat \<Rightarrow> nat \<Rightarrow> Life" where
  "new_socket s host k = s\<lparr>sockKnown := (sockKnown s)(k := True), sockHost := (sockHost s)(k := host)\<rparr>"

fun handle_event ::
  "(Life \<Rightarrow> nat \<Rightarrow> Life option) \<Rightarrow> (Life \<Rightarrow> nat \<Rightarrow> bool) \<Rightarrow> (Life \<Rightarrow> nat \<Rightarrow> bool) \<Rightarrow> Life \<Rightarrow> life_event \<Rightarrow> Life option" where
  "handle_event us_close est shut s (Accepted host k) = on_open (new_socket s host k) k False"
| "handle_event us_close est shut s (Connecting com socket) =
     ExecuteConnect_Execute (\<lambda>_ _. socket)
       (case socket of None \<Rightarrow> s | Some k \<Rightarrow> new_socket s (the (ec_host com)) k) com"
| "handle_event us_close est shut s (Opened k) = on_open s k True"
| "handle_event us_close est shut s (Closed k) = us_close s k"
| "handle_event us_close est shut s (Ended k) = on_end us_close s k"
| "handle_event us_close est shut s (Timed_out k) = on_timeout us_close est shut s k"
| "handle_event us_close est shut s (Long_timed_out k) = on_long_timeout us_close s k"
| "handle_event us_close est shut s (Disconnect_command h) = ExecuteDisconnect_Execute us_close s h"
| "handle_event us_close est shut s (Destroy_host host) = Host_InternalDestroy us_close s host"

definition Life_new :: "nat \<Rightarrow> Life" where
  "Life_new loop = \<lparr>ltab = PeerTables_new loop, nextPeer = 0, sockExt = (\<lambda>_. None), sockHost = (\<lambda>_. 0),
     sockKnown = (\<lambda>_. False), sockClosed = (\<lambda>_. False), peerSocket = (\<lambda>_. None), pflags = (\<lambda>_. 0), isClientOf = (\<lambda>_. False),
     hstats = (\<lambda>_. HostStats_new), lstats = LoopStats_new, listenSockets = (\<lambda>_. {}), onConnectCalls = [],
     onConnectedCommands = [], onListenCommands = [], onDisconnectCalls = []\<rparr>"

inductive life_reach ::
  "(Life \<Rightarrow> nat \<Rightarrow> Life option) \<Rightarrow> (Life \<Rightarrow> nat \<Rightarrow> bool) \<Rightarrow> (Life \<Rightarrow> nat \<Rightarrow> bool) \<Rightarrow> Life \<Rightarrow> bool"
  for us_close est shut where
  start: "life_reach us_close est shut (Life_new loop)"
| event: "life_reach us_close est shut s \<Longrightarrow> event_enabled s e \<Longrightarrow> handle_event us_close est shut s e = Some s' \<Longrightarrow>
    life_reach us_close est shut s'"

lemma life_inv_new: "life_inv (Life_new loop)"
  using pt_inv_new by (simp add: life_inv_def life_core_def Life_new_def live_def PeerTables_new_def)

lemma new_socket_inv:
  assumes "life_inv s" "\<not> sockKnown s k"
  shows "life_inv (new_socket s host k)" "sockExt (new_socket s host k) k = None" "sockKnown (new_socket s host k) k"
    "\<not> sockClosed (new_socket s host k) k" "sockHost (new_socket s host k) k = host"
proof -
  have core: "life_core s" using assms(1) by (simp add: life_inv_def)
  have n: "sockExt s k = None" using core_ext(3) [OF core] assms(2) by (cases "sockExt s k") auto
  show "sockExt (new_socket s host k) k = None" "sockKnown (new_socket s host k) k" "sockHost (new_socket s host k) k = host"
    using n by (simp_all add: new_socket_def)
  show "\<not> sockClosed (new_socket s host k) k" using assms by (auto simp: life_inv_def new_socket_def)
  have live: "p < nextPeer s \<and> sharedPeerOf (ltab s) p = Some p \<and>
      (\<exists>j. peerSocket s p = Some j \<and> sockExt s j = Some p \<and> hostOf (ltab s) p = ((sockHost s)(k := host)) j)"
    if lp: "live (ltab s) p" for p
  proof -
    obtain j where j: "peerSocket s p = Some j" "sockExt s j = Some p" "hostOf (ltab s) p = sockHost s j"
      "sharedPeerOf (ltab s) p = Some p" "p < nextPeer s" using core_live [OF core lp] by blast
    moreover have "j \<noteq> k" using j(2) n by auto
    ultimately show ?thesis by auto
  qed
  have ext: "live (ltab s) p \<and> peerSocket s p = Some j \<and> ((sockKnown s)(k := True)) j" if "sockExt s j = Some p" for j p
    using core_ext(1-3) [OF core that] by simp
  have f: "ltab (new_socket s host k) = ltab s" "nextPeer (new_socket s host k) = nextPeer s"
    "sockExt (new_socket s host k) = sockExt s" "peerSocket (new_socket s host k) = peerSocket s"
    "sockKnown (new_socket s host k) = (sockKnown s)(k := True)" "sockHost (new_socket s host k) = (sockHost s)(k := host)"
    "onDisconnectCalls (new_socket s host k) = onDisconnectCalls s"
    by (simp_all add: new_socket_def)
  have "life_core (new_socket s host k)"
    unfolding life_core_def f
    by (intro conjI allI impI) (fact core_pt [OF core] live [THEN conjunct1] live [THEN conjunct2, THEN conjunct1]
      live [THEN conjunct2, THEN conjunct2] ext [THEN conjunct1] ext [THEN conjunct2, THEN conjunct1]
      ext [THEN conjunct2, THEN conjunct2] core_socket [OF core] core_distinct [OF core] core_reported [OF core])+
  then show "life_inv (new_socket s host k)" using assms(1) by (auto simp: life_inv_def new_socket_def)
qed

lemma InternalStopListening_inv [simp]: "life_inv (InternalStopListening s host) = life_inv s"
  by (simp add: InternalStopListening_def)

lemma handle_event_ok:
  assumes "close_ok us_close" "life_inv s" "event_enabled s e"
  shows "\<exists>s'. handle_event us_close est shut s e = Some s' \<and> life_inv s'"
proof (cases e)
  case (Accepted host k)
  then show ?thesis using on_open_server_ok new_socket_inv [OF assms(2), of k host] assms(3) by simp
next
  case (Connecting com socket)
  then obtain host where host: "ec_host com = Some host" "ec_onConnected com \<noteq> None" using assms(3) by auto
  show ?thesis
  proof (cases socket)
    case None
    then show ?thesis
      using Connecting host assms(2) by (auto simp: ExecuteConnect_Execute_def InternalConnect_def cassert_def)
  next
    case (Some k)
    then have n: "\<not> sockKnown s k" using Connecting assms(3) by simp
    show ?thesis
      using InternalConnect_ok [of "new_socket s host k" k "\<lambda>_ _. socket" com] new_socket_inv [OF assms(2) n] Connecting host Some
      by (auto simp: ExecuteConnect_Execute_def)
  qed
next
  case (Opened k)
  then show ?thesis using on_open_client_ok [OF assms(2)] assms(3) by simp
next
  case (Closed k)
  then show ?thesis using us_close_ok [OF assms(1,2)] assms(3) by fastforce
next
  case (Ended k)
  then show ?thesis using on_end_ok [OF assms(1,2)] assms(3) by simp
next
  case (Timed_out k)
  then show ?thesis using on_timeout_ok [OF assms(1,2)] assms(3) by simp
next
  case (Long_timed_out k)
  then show ?thesis using on_long_timeout_ok [OF assms(1,2)] by simp
next
  case (Disconnect_command h)
  then show ?thesis using ExecuteDisconnect_ok [OF assms(1,2)] assms(3) by simp
next
  case (Destroy_host host)
  then show ?thesis
    using DisconnectAll_ok [OF assms(1), of "InternalStopListening s host" host] assms(2) by (auto simp: Host_InternalDestroy_def)
qed

lemma life_reach_inv: "life_reach us_close est shut s \<Longrightarrow> close_ok us_close \<Longrightarrow> life_inv s"
proof (induction rule: life_reach.induct)
  case (event s e s')
  then show ?case using handle_event_ok [of us_close s e est shut] by auto
qed (rule life_inv_new)

text \<open>Iterating over the peers of a host passes each of its peers once, each with a handle the tables accept;
  a random peer of the host is one of them.\<close>

lemma ForEachPeer_ok:
  assumes "life_inv s"
  shows "distinct (ForEachPeer s host)"
    "h \<in> set (ForEachPeer s host) \<longleftrightarrow> (\<exists>p. live (ltab s) p \<and> hostOf (ltab s) p = host \<and> h = peerHandleOf (ltab s) p)"
    "h \<in> set (ForEachPeer s host) \<Longrightarrow> handle_valid h"
proof -
  have inv: "slots_inv (ltab s)" "hosts_inv (ltab s)" using assms core_pt by (auto simp: life_inv_def pt_inv_def)
  have mem: "p \<in> set (hostPeers (ltab s) host) \<longleftrightarrow> live (ltab s) p \<and> hostOf (ltab s) p = host" for p by (rule hosts_inv_mem [OF inv(2)])
  have "inj_on (peerHandleOf (ltab s)) (set (hostPeers (ltab s) host))"
    using live_handle_inj [OF inv(1)] mem by (metis inj_onI)
  moreover have "distinct (hostPeers (ltab s) host)" using inv(2) dense_distinct by (auto simp: hosts_inv_def)
  ultimately show "distinct (ForEachPeer s host)" by (simp add: ForEachPeer_def distinct_map)
  show "h \<in> set (ForEachPeer s host) \<longleftrightarrow> (\<exists>p. live (ltab s) p \<and> hostOf (ltab s) p = host \<and> h = peerHandleOf (ltab s) p)"
    using mem by (auto simp: ForEachPeer_def)
  then show "h \<in> set (ForEachPeer s host) \<Longrightarrow> handle_valid h" using valid_if_live [OF inv(1)] by blast
qed

lemma Host_GetRandomPeer_mem: "hostPeers (ltab s) host \<noteq> [] \<Longrightarrow> Host_GetRandomPeer s host r \<in> set (ForEachPeer s host)"
  by (simp add: Host_GetRandomPeer_def ForEachPeer_def)

section \<open>Properties\<close>


definition sample_us_close :: "Life \<Rightarrow> nat \<Rightarrow> Life option" where
  "sample_us_close s sock =
     (if sockClosed s sock then Some s else on_close (s\<lparr>sockClosed := (sockClosed s)(sock := True)\<rparr>) sock)"

lemma sample_us_close_ok: "close_ok sample_us_close"
  by (simp add: close_ok_def sample_us_close_def)

definition sample_open :: Life where
  "sample_open = the (handle_event sample_us_close (\<lambda>_ _. True) (\<lambda>_ _. False) (Life_new 7) (Accepted 2 5))"

definition sample_ended :: Life where
  "sample_ended = the (handle_event sample_us_close (\<lambda>_ _. True) (\<lambda>_ _. False) sample_open (Ended 5))"

lemma sample_open_runs:
  "handle_event sample_us_close (\<lambda>_ _. True) (\<lambda>_ _. False) (Life_new 7) (Accepted 2 5) = Some sample_open"
  "life_reach sample_us_close (\<lambda>_ _. True) (\<lambda>_ _. False) sample_open"
proof -
  have en: "event_enabled (Life_new 7) (Accepted 2 5)" by (simp add: Life_new_def)
  show run: "handle_event sample_us_close (\<lambda>_ _. True) (\<lambda>_ _. False) (Life_new 7) (Accepted 2 5) = Some sample_open"
    using handle_event_ok [OF sample_us_close_ok life_inv_new en] unfolding sample_open_def by fastforce
  show "life_reach sample_us_close (\<lambda>_ _. True) (\<lambda>_ _. False) sample_open" using life_reach.event [OF life_reach.start en run] .
qed

lemma sample_open_socket: "sockKnown sample_open 5" "sockExt sample_open 5 = Some 0" "nextPeer sample_open = 1" "live (ltab sample_open) 0"
  "hostOf (ltab sample_open) 0 = 2"
  by code_simp+

lemma sample_ended_reach: "life_reach sample_us_close (\<lambda>_ _. True) (\<lambda>_ _. False) sample_ended"
proof -
  have en: "event_enabled sample_open (Ended 5)" using sample_open_socket by simp
  have "handle_event sample_us_close (\<lambda>_ _. True) (\<lambda>_ _. False) sample_open (Ended 5) = Some sample_ended"
    using handle_event_ok [OF sample_us_close_ok life_reach_inv [OF sample_open_runs(2) sample_us_close_ok] en]
    unfolding sample_ended_def by fastforce
  then show ?thesis using life_reach.event [OF sample_open_runs(2) en] by blast
qed

lemma sample_ended_calls: "map fst (onDisconnectCalls sample_ended) = [0]" "nextPeer sample_ended = 1"
  by code_simp+




text \<open>C31. A connection that cannot be established aborts the program: after a connect command was executed,
  the peer of the new socket has a valid handle, and \<open>on_connect_error\<close> for that socket fails on
  \<open>assert(!peer->peerHandle)\<close>, so the failed peer is never released.\<close>

theorem connect_error_aborts:
  assumes "close_ok us_close" "life_reach us_close est shut s" "event_enabled s (Connecting com (Some k))"
  shows "\<exists>s'. handle_event us_close est shut s (Connecting com (Some k)) = Some s' \<and> on_connect_error s' k = None"
proof -
  have inv: "life_inv s" using life_reach_inv assms by blast
  obtain host where host: "ec_host com = Some host" "ec_onConnected com \<noteq> None" "\<not> sockKnown s k" using assms(3) by auto
  obtain s' where s': "InternalConnect (\<lambda>_ _. Some k) (new_socket s host k) host com = Some s'" "life_inv s'" "sockExt s' k \<noteq> None"
    using InternalConnect_ok [of "new_socket s host k" k "\<lambda>_ _. Some k" com] new_socket_inv [OF inv host(3)] host(2) by auto
  obtain p where p: "sockExt s' k = Some p" using s'(3) by blast
  have core: "life_core s'" using s'(2) by (simp add: life_inv_def)
  have "handle_valid (peerHandleOf (ltab s') p)"
    using valid_if_live core_pt [OF core] core_ext(1) [OF core p] by (simp add: pt_inv_def)
  then have "on_connect_error s' k = None" using p by (simp add: on_connect_error_def Let_def cassert_def)
  then show ?thesis using s'(1) host(1) by (auto simp: ExecuteConnect_Execute_def)
qed

definition sample_connect :: ExecuteConnect where
  "sample_connect = Host_Connect 2 ''127.0.0.1'' 7312 (Some 1) None"

theorem connect_error_aborts_witness:
  "event_enabled (Life_new 7) (Connecting sample_connect (Some 5)) \<and>
   (\<exists>s'. handle_event sample_us_close (\<lambda>_ _. True) (\<lambda>_ _. False) (Life_new 7) (Connecting sample_connect (Some 5)) = Some s' \<and>
      on_connect_error s' 5 = None)"
proof -
  have en: "event_enabled (Life_new 7) (Connecting sample_connect (Some 5))"
    by (simp add: sample_connect_def Host_Connect_def ExecuteConnect_new_def Life_new_def)
  then show ?thesis using connect_error_aborts [OF sample_us_close_ok life_reach.start en] by blast
qed

end
