(* ===== verification/Loop_Flush.thy ===== *)
theory Loop_Flush
  imports Host Peer_Tcp
begin

text \<open>
  Sending through a loop: the commands that pass frames to peers (\<open>src/src/Command.cpp\<close>), the set of peers the
  loop has to flush, and \<open>FlushPendingPeers\<close> of \<open>src/src/Loop.cpp\<close>, over the tables of \<open>Peers\<close> and the peers
  of \<open>Peer_Data\<close>.

  The state holds the tables of the loop and the \<open>PeerData\<close> object of each peer number. The virtual methods
  of the peers are arguments: \<open>onWritable p\<close> is \<open>_InternalOnWritable\<close> of peer \<open>p\<close>, and \<open>busy\<close> says that the peer
  has buffered or queued sends. The locale \<open>flushed_peers\<close> states what the loop relies on and is
  interpreted for the TCP peers. Every peer keeps its own copy of the counters of host and loop; nothing is
  stated about them here.

  The lemmas show that no peer is forgotten: a peer that has something to send is in the set of peers to flush,
  one pass over the set calls every such peer once and keeps exactly those that still have something to send.
\<close>

section \<open>Model\<close>

record 'p FlushLoop =
  ftabs :: PeerTables
  peerState :: "nat \<Rightarrow> 'p"

definition set_flush :: "PeersToFlush \<Rightarrow> 'p FlushLoop \<Rightarrow> 'p FlushLoop" where
  "set_flush fl s = s\<lparr>ftabs := (ftabs s)\<lparr>peersToFlush := fl\<rparr>\<rparr>"

definition set_peer :: "nat \<Rightarrow> 'p \<Rightarrow> 'p FlushLoop \<Rightarrow> 'p FlushLoop" where
  "set_peer p q s = s\<lparr>peerState := (peerState s)(p := q)\<rparr>"

text \<open>\<open>_InternalInsertPeerToFlush\<close>. A handle without a peer is a null pointer that gets dereferenced.\<close>

definition Loop_InsertPeerToFlush :: "('p \<Rightarrow> bool) \<Rightarrow> 'p FlushLoop \<Rightarrow> PeerHandle \<Rightarrow> 'p FlushLoop option" where
  "Loop_InsertPeerToFlush busy s peer =
     do { d \<leftarrow> GetLocalPeerData (ftabs s) peer;
          p \<leftarrow> d;
          (if \<not> busy (peerState s p)
           then do { fl \<leftarrow> InsertPeerToFlush (peersToFlush (ftabs s)) (hid peer); Some (set_flush fl s) }
           else Some s) }"

definition ExecuteAddPeerToFlush_Execute :: "('p \<Rightarrow> bool) \<Rightarrow> 'p FlushLoop \<Rightarrow> PeerHandle \<Rightarrow> 'p FlushLoop option" where
  "ExecuteAddPeerToFlush_Execute busy s peer = Loop_InsertPeerToFlush busy s peer"

definition peer_busy :: "('s PeerData_scheme \<Rightarrow> bool) \<Rightarrow> 's PeerData_scheme \<Rightarrow> bool" where
  "peer_busy hasBuf q \<longleftrightarrow> HasQueuedSends q \<or> hasBuf q"

text \<open>\<open>PeerData::Send\<close> of peer \<open>p\<close>, with the registration at the loop.\<close>

definition Loop_Send ::
  "('s PeerData_scheme \<Rightarrow> bool) \<Rightarrow> 's PeerData_scheme FlushLoop \<Rightarrow> nat \<Rightarrow> ByteBufferReadable \<Rightarrow> 's PeerData_scheme FlushLoop option" where
  "Loop_Send hasBuf s p frame =
     do { (q, wake) \<leftarrow> PeerData_Send hasBuf (peerState s p) frame;
          s \<leftarrow> (if wake then Loop_InsertPeerToFlush (peer_busy hasBuf) s (peerHandleOf (ftabs s) p) else Some s);
          Some (set_peer p q s) }"

definition ExecutePeerSendFrame_Execute ::
  "('s PeerData_scheme \<Rightarrow> bool) \<Rightarrow> 's PeerData_scheme FlushLoop \<Rightarrow> PeerHandle \<Rightarrow> ByteBufferReadable \<Rightarrow>
   's PeerData_scheme FlushLoop option" where
  "ExecutePeerSendFrame_Execute hasBuf s peer frame =
     (if handle_valid peer
      then do { d \<leftarrow> GetLocalPeerData (ftabs s) peer;
                (case d of Some p \<Rightarrow> Loop_Send hasBuf s p frame | None \<Rightarrow> Some s) }
      else Some s)"

text \<open>\<open>_Internal_on_writable\<close> of a socket with the given extension.\<close>

definition count_onWriteable :: "'s PeerData_scheme \<Rightarrow> 's PeerData_scheme option" where
  "count_onWriteable q = do { sp \<leftarrow> sharedPeer q;
     Some (q\<lparr>sharedPeer := Some (sp\<lparr>pstats := (pstats sp)\<lparr>st_onWriteable := st_onWriteable (pstats sp) + 1\<rparr>\<rparr>),
             hostStats := (hostStats q)\<lparr>st_onWriteable := st_onWriteable (hostStats q) + 1\<rparr>,
             loopStats := (loopStats q)\<lparr>st_onWriteable := st_onWriteable (loopStats q) + 1\<rparr>\<rparr>) }"

definition on_writable ::
  "(nat \<Rightarrow> 's PeerData_scheme \<Rightarrow> ('s PeerData_scheme \<times> bool) option) \<Rightarrow> 's PeerData_scheme FlushLoop \<Rightarrow> nat option \<Rightarrow>
   's PeerData_scheme FlushLoop option" where
  "on_writable onWritable s ext =
     (case ext of
        None \<Rightarrow> Some s
      | Some p \<Rightarrow> do { q \<leftarrow> count_onWriteable (peerState s p);
                        (q, r) \<leftarrow> onWritable p q;
                        Some (set_peer p q s) })"

definition on_data ::
  "('s PeerData_scheme \<Rightarrow> bytes \<Rightarrow> 's PeerData_scheme option) \<Rightarrow> 's PeerData_scheme FlushLoop \<Rightarrow> nat option \<Rightarrow> bytes \<Rightarrow>
   's PeerData_scheme FlushLoop option" where
  "on_data onData s ext data =
     (case ext of None \<Rightarrow> Some s | Some p \<Rightarrow> do { q \<leftarrow> onData (peerState s p) data; Some (set_peer p q s) })"

text \<open>One pass over the set of peers to flush, from its last element to its first.\<close>

definition unregister :: "'p FlushLoop \<Rightarrow> nat \<Rightarrow> 'p FlushLoop option" where
  "unregister s peerId = do { fl \<leftarrow> RemovePeerToFlush (peersToFlush (ftabs s)) peerId; Some (set_flush fl s) }"

definition flush_peer ::
  "(nat \<Rightarrow> 'p \<Rightarrow> ('p \<times> bool) option) \<Rightarrow> ('p \<Rightarrow> bool) \<Rightarrow> 'p FlushLoop \<Rightarrow> nat \<Rightarrow> 'p FlushLoop option" where
  "flush_peer onWritable busy s peerId =
     do { d \<leftarrow> GetLocalPeerDataValid (ftabs s) peerId;
          (case d of
             None \<Rightarrow> unregister s peerId
           | Some p \<Rightarrow>
               do { s \<leftarrow> (if busy (peerState s p)
                          then do { (q, r) \<leftarrow> onWritable p (peerState s p); Some (set_peer p q s) }
                          else Some s);
                    (if \<not> busy (peerState s p) then unregister s peerId else Some s) }) }"

fun flush_loop ::
  "(nat \<Rightarrow> 'p \<Rightarrow> ('p \<times> bool) option) \<Rightarrow> ('p \<Rightarrow> bool) \<Rightarrow> nat \<Rightarrow> 'p FlushLoop \<Rightarrow> 'p FlushLoop option" where
  "flush_loop onWritable busy 0 s = Some s"
| "flush_loop onWritable busy (Suc i) s =
     do { peerId \<leftarrow> vget (fpeers (peersToFlush (ftabs s))) i;
          s \<leftarrow> flush_peer onWritable busy s peerId;
          flush_loop onWritable busy i s }"

definition FlushPendingPeers ::
  "(nat \<Rightarrow> 'p \<Rightarrow> ('p \<times> bool) option) \<Rightarrow> ('p \<Rightarrow> bool) \<Rightarrow> 'p FlushLoop \<Rightarrow> 'p FlushLoop option" where
  "FlushPendingPeers onWritable busy s = flush_loop onWritable busy (length (fpeers (peersToFlush (ftabs s)))) s"

section \<open>The set of peers to flush\<close>

lemma set_flush_simps [simp]:
  "peerState (set_flush fl s) = peerState s" "ftabs (set_flush fl s) = (ftabs s)\<lparr>peersToFlush := fl\<rparr>"
  "ftabs (set_peer p q s) = ftabs s" "peerState (set_peer p q s) = (peerState s)(p := q)"
  by (simp_all add: set_flush_def set_peer_def)

lemma live_flush [simp]: "live (t\<lparr>peersToFlush := fl\<rparr>) = live t"
  by (simp add: live_def fun_eq_iff)

lemma RemovePeerToFlush_take:
  assumes "ptf_inv s" "i < length (fpeers s)" "RemovePeerToFlush s (fpeers s ! i) = Some s'"
  shows "take i (fpeers s') = take i (fpeers s)" "length (fpeers s') = length (fpeers s) - 1"
proof -
  have "poff s (fpeers s ! i) = int i" using assms(1,2) by (simp add: ptf_inv_def dense_def)
  then have o: "fpeers s ! i < length (foffsets s)" "foffsets s ! (fpeers s ! i) = int i"
    by (auto simp: poff_def split: if_splits)
  then show "take i (fpeers s') = take i (fpeers s)" "length (fpeers s') = length (fpeers s) - 1"
    using assms(2,3) by (auto simp: RemovePeerToFlush_def Let_def bind_eq_Some_conv run_simps take_butlast butlast_conv_take split: if_splits)
qed

lemma slot_live:
  assumes "pt_inv t" "i \<in> set (fpeers (peersToFlush t))"
  obtains p where "pmPeers t ! i = Some p" "i < length (pmPeers t)" "live t p" "hid (peerHandleOf t p) = i"
proof -
  have i: "i < length (pmPeers t)" "pmPeers t ! i \<noteq> None" using assms by (auto simp: pt_inv_def flush_inv_def)
  then obtain p where p: "pmPeers t ! i = Some p" by blast
  moreover have "live t p" using live_nth i(1) p by blast
  moreover have "hid (peerHandleOf t p) = i"
    using assms(1) i(1) p by (simp add: pt_inv_def slots_inv_def handles_ok_def)
  ultimately show ?thesis using that i(1) by blast
qed

lemma unregister_ok:
  assumes "pt_inv (ftabs s)" "i < length (fpeers (peersToFlush (ftabs s)))"
  shows "\<exists>fl. unregister s (fpeers (peersToFlush (ftabs s)) ! i) = Some (set_flush fl s) \<and> pt_inv (ftabs (set_flush fl s)) \<and>
    set (fpeers fl) = set (fpeers (peersToFlush (ftabs s))) - {fpeers (peersToFlush (ftabs s)) ! i} \<and>
    take i (fpeers fl) = take i (fpeers (peersToFlush (ftabs s))) \<and> i \<le> length (fpeers fl)"
proof -
  let ?fl = "peersToFlush (ftabs s)"
  have inv: "ptf_inv ?fl" "\<And>j. j \<in> set (fpeers ?fl) \<Longrightarrow> j < length (pmPeers (ftabs s)) \<and> pmPeers (ftabs s) ! j \<noteq> None"
    using assms(1) by (auto simp: pt_inv_def flush_inv_def)
  obtain fl where fl: "RemovePeerToFlush ?fl (fpeers ?fl ! i) = Some fl" "ptf_inv fl"
    "set (fpeers fl) = set (fpeers ?fl) - {fpeers ?fl ! i}" using RemovePeerToFlush_ok [OF inv(1)] by blast
  then show ?thesis
    using pt_inv_flush [OF assms(1) fl(2)] inv(2) RemovePeerToFlush_take [OF inv(1) assms(2) fl(1)] assms(2)
    by (auto simp: unregister_def)
qed

section \<open>The interface of the peers\<close>

locale flushed_peers =
  fixes onWritable :: "nat \<Rightarrow> 'p \<Rightarrow> ('p \<times> bool) option" and busy :: "'p \<Rightarrow> bool" and ok :: "nat \<Rightarrow> 'p \<Rightarrow> bool"
  assumes writable_law: "ok p q \<Longrightarrow> \<exists>q' r. onWritable p q = Some (q', r) \<and> ok p q'"
begin

text \<open>The peer after its turn in a pass.\<close>

definition "flushed p q = (if busy q then fst (the (onWritable p q)) else q)"

definition "loop_ok s \<longleftrightarrow> pt_inv (ftabs s) \<and> (\<forall>p. live (ftabs s) p \<longrightarrow> ok p (peerState s p))"

definition "registered s \<longleftrightarrow> (\<forall>p. live (ftabs s) p \<longrightarrow> busy (peerState s p) \<longrightarrow>
  hid (peerHandleOf (ftabs s) p) \<in> set (fpeers (peersToFlush (ftabs s))))"

lemma flushed_ok: "ok p q \<Longrightarrow> ok p (flushed p q)"
  using writable_law [of p q] by (auto simp: flushed_def)

lemma flush_peer_ok:
  assumes s: "loop_ok s" "i < length (fpeers (peersToFlush (ftabs s)))"
    and p: "live (ftabs s) p" "hid (peerHandleOf (ftabs s) p) = fpeers (peersToFlush (ftabs s)) ! i"
  shows "\<exists>fl. flush_peer onWritable busy s (fpeers (peersToFlush (ftabs s)) ! i) =
      Some (set_flush fl (set_peer p (flushed p (peerState s p)) s)) \<and>
    loop_ok (set_flush fl (set_peer p (flushed p (peerState s p)) s)) \<and>
    set (fpeers fl) = set (fpeers (peersToFlush (ftabs s))) -
      (if busy (flushed p (peerState s p)) then {} else {hid (peerHandleOf (ftabs s) p)}) \<and>
    take i (fpeers fl) = take i (fpeers (peersToFlush (ftabs s))) \<and> i \<le> length (fpeers fl)"
proof -
  let ?q = "flushed p (peerState s p)" let ?s = "set_peer p (flushed p (peerState s p)) s"
  have inv: "pt_inv (ftabs s)" "slots_inv (ftabs s)" and okp: "ok p (peerState s p)"
    using s(1) p(1) by (auto simp: loop_ok_def pt_inv_def)
  note slot = live_slot [OF inv(2) p(1)]
  have d: "GetLocalPeerDataValid (ftabs s) (fpeers (peersToFlush (ftabs s)) ! i) = Some (Some p)"
    using slot by (simp add: GetLocalPeerDataValid_def p(2) cassert_def)
  have turn: "(if busy (peerState s p) then onWritable p (peerState s p) \<bind> (\<lambda>(q, r). Some (set_peer p q s)) else Some s) = Some ?s"
  proof (cases "busy (peerState s p)")
    case True
    then show ?thesis using writable_law [OF okp] by (auto simp: flushed_def)
  next
    case False
    have "set_peer p (peerState s p) s = s" by (simp add: set_peer_def)
    then show ?thesis using False by (simp add: flushed_def)
  qed
  have ok': "loop_ok (set_flush fl ?s)" if "pt_inv (ftabs (set_flush fl ?s))" for fl
    using that s(1) flushed_ok [OF okp] by (auto simp: loop_ok_def)
  obtain fl where fl: "unregister ?s (fpeers (peersToFlush (ftabs s)) ! i) = Some (set_flush fl ?s)" "pt_inv (ftabs (set_flush fl ?s))"
    "set (fpeers fl) = set (fpeers (peersToFlush (ftabs s))) - {fpeers (peersToFlush (ftabs s)) ! i}"
    "take i (fpeers fl) = take i (fpeers (peersToFlush (ftabs s)))" "i \<le> length (fpeers fl)"
    using unregister_ok [of ?s i] inv(1) s(2) by auto
  have same: "set_flush (peersToFlush (ftabs s)) ?s = ?s" by (simp add: set_flush_def set_peer_def)
  show ?thesis
  proof (cases "busy ?q")
    case True
    have "flush_peer onWritable busy s (fpeers (peersToFlush (ftabs s)) ! i) = Some ?s"
      unfolding flush_peer_def d using turn True by simp
    then show ?thesis using same ok' [of "peersToFlush (ftabs s)"] inv(1) s(2) True
      by (intro exI [of _ "peersToFlush (ftabs s)"]) simp
  next
    case False
    have "flush_peer onWritable busy s (fpeers (peersToFlush (ftabs s)) ! i) = Some (set_flush fl ?s)"
      unfolding flush_peer_def d using turn False fl(1) by simp
    then show ?thesis using ok' [OF fl(2)] fl(3-5) False p(2) by (intro exI [of _ fl]) simp
  qed
qed

lemma flush_loop_ok:
  assumes "loop_ok s" "n \<le> length (fpeers (peersToFlush (ftabs s)))"
  shows "\<exists>s' fl. flush_loop onWritable busy n s = Some s' \<and> loop_ok s' \<and> ftabs s' = (ftabs s)\<lparr>peersToFlush := fl\<rparr> \<and>
    (\<forall>p. live (ftabs s) p \<longrightarrow> peerState s' p =
      (if hid (peerHandleOf (ftabs s) p) \<in> set (take n (fpeers (peersToFlush (ftabs s)))) then flushed p (peerState s p)
       else peerState s p)) \<and>
    (\<forall>p. live (ftabs s) p \<longrightarrow> (hid (peerHandleOf (ftabs s) p) \<in> set (fpeers fl) \<longleftrightarrow>
      hid (peerHandleOf (ftabs s) p) \<in> set (fpeers (peersToFlush (ftabs s))) \<and>
      (hid (peerHandleOf (ftabs s) p) \<in> set (take n (fpeers (peersToFlush (ftabs s)))) \<longrightarrow> busy (peerState s' p))))"
  using assms
proof (induction n arbitrary: s)
  case 0
  then show ?case by (intro exI [of _ s] exI [of _ "peersToFlush (ftabs s)"]) simp
next
  case (Suc n)
  let ?ps = "fpeers (peersToFlush (ftabs s))"
  have n: "n < length ?ps" using Suc.prems(2) by simp
  have inv: "pt_inv (ftabs s)" using Suc.prems(1) by (simp add: loop_ok_def)
  then have sl: "slots_inv (ftabs s)" and dist: "distinct ?ps"
    by (auto simp: pt_inv_def flush_inv_def ptf_inv_def dest: dense_distinct)
  obtain p where p: "live (ftabs s) p" "hid (peerHandleOf (ftabs s) p) = ?ps ! n"
    using slot_live [OF inv nth_mem [OF n]] by metis
  obtain fl1 where 1: "flush_peer onWritable busy s (?ps ! n) = Some (set_flush fl1 (set_peer p (flushed p (peerState s p)) s))"
      "loop_ok (set_flush fl1 (set_peer p (flushed p (peerState s p)) s))"
      "set (fpeers fl1) = set ?ps - (if busy (flushed p (peerState s p)) then {} else {?ps ! n})"
      "take n (fpeers fl1) = take n ?ps" "n \<le> length (fpeers fl1)"
    using flush_peer_ok [OF Suc.prems(1) n p] p(2) by auto
  let ?s = "set_flush fl1 (set_peer p (flushed p (peerState s p)) s)"
  obtain s' fl where s': "flush_loop onWritable busy n ?s = Some s'" "loop_ok s'" "ftabs s' = (ftabs s)\<lparr>peersToFlush := fl\<rparr>"
      "\<And>q. live (ftabs s) q \<Longrightarrow> peerState s' q =
        (if hid (peerHandleOf (ftabs s) q) \<in> set (take n ?ps) then flushed q (peerState ?s q) else peerState ?s q)"
      "\<And>q. live (ftabs s) q \<Longrightarrow> hid (peerHandleOf (ftabs s) q) \<in> set (fpeers fl) \<longleftrightarrow>
        hid (peerHandleOf (ftabs s) q) \<in> set (fpeers fl1) \<and>
        (hid (peerHandleOf (ftabs s) q) \<in> set (take n ?ps) \<longrightarrow> busy (peerState s' q))"
    using Suc.IH [OF 1(2)] 1(4,5) by auto
  have notin: "?ps ! n \<notin> set (take n ?ps)" using dist n by (auto simp: in_set_conv_nth nth_eq_iff_index_eq)
  have take: "set (take (Suc n) ?ps) = insert (?ps ! n) (set (take n ?ps))" using n by (simp add: take_Suc_conv_app_nth)
  have hid: "hid (peerHandleOf (ftabs s) q) = ?ps ! n \<longleftrightarrow> q = p" if "live (ftabs s) q" for q
    using live_handle_inj [OF sl that p(1)] p(2) by auto
  have state: "peerState s' q = (if hid (peerHandleOf (ftabs s) q) \<in> set (take (Suc n) ?ps) then flushed q (peerState s q)
      else peerState s q)" if q: "live (ftabs s) q" for q
    using s'(4) [OF q] hid [OF q] notin unfolding take by (cases "q = p") (auto simp: p(2))
  have mem: "hid (peerHandleOf (ftabs s) q) \<in> set (fpeers fl) \<longleftrightarrow> hid (peerHandleOf (ftabs s) q) \<in> set ?ps \<and>
      (hid (peerHandleOf (ftabs s) q) \<in> set (take (Suc n) ?ps) \<longrightarrow> busy (peerState s' q))" if q: "live (ftabs s) q" for q
    using s'(5) [OF q] 1(3) hid [OF q] state [OF q] notin n unfolding take
    by (cases "q = p") (auto simp: p(2) split: if_splits)
  have "flush_loop onWritable busy (Suc n) s = Some s'" using n 1(1) s'(1) by simp
  then show ?case using s'(2,3) state mem by (intro exI [of _ s'] exI [of _ fl] conjI) auto
qed

text \<open>A pass gives every peer of the set its turn, and afterwards the set holds exactly the busy peers.\<close>

lemma FlushPendingPeers_ok:
  assumes "loop_ok s" "registered s"
  shows "\<exists>s' fl. FlushPendingPeers onWritable busy s = Some s' \<and> loop_ok s' \<and> registered s' \<and>
    ftabs s' = (ftabs s)\<lparr>peersToFlush := fl\<rparr> \<and>
    (\<forall>p. live (ftabs s) p \<longrightarrow> peerState s' p = flushed p (peerState s p) \<and>
      (hid (peerHandleOf (ftabs s) p) \<in> set (fpeers fl) \<longleftrightarrow> busy (peerState s' p)))"
proof -
  let ?ps = "fpeers (peersToFlush (ftabs s))"
  obtain s' fl where s': "FlushPendingPeers onWritable busy s = Some s'" "loop_ok s'" "ftabs s' = (ftabs s)\<lparr>peersToFlush := fl\<rparr>"
      "\<And>p. live (ftabs s) p \<Longrightarrow> peerState s' p =
        (if hid (peerHandleOf (ftabs s) p) \<in> set ?ps then flushed p (peerState s p) else peerState s p)"
      "\<And>p. live (ftabs s) p \<Longrightarrow> hid (peerHandleOf (ftabs s) p) \<in> set (fpeers fl) \<longleftrightarrow>
        hid (peerHandleOf (ftabs s) p) \<in> set ?ps \<and> (hid (peerHandleOf (ftabs s) p) \<in> set ?ps \<longrightarrow> busy (peerState s' p))"
    using flush_loop_ok [OF assms(1), of "length ?ps"] by (auto simp: FlushPendingPeers_def)
  have state: "peerState s' p = flushed p (peerState s p) \<and> (hid (peerHandleOf (ftabs s) p) \<in> set (fpeers fl) \<longleftrightarrow> busy (peerState s' p))"
    if p: "live (ftabs s) p" for p
  proof (cases "hid (peerHandleOf (ftabs s) p) \<in> set ?ps")
    case True
    then show ?thesis using s'(4,5) [OF p] by simp
  next
    case False
    then have "\<not> busy (peerState s p)" using assms(2) p by (auto simp: registered_def)
    then show ?thesis using s'(4,5) [OF p] False by (simp add: flushed_def)
  qed
  then have "registered s'" using s'(3) by (auto simp: registered_def)
  then show ?thesis using s'(1-3) state by blast
qed

end

section \<open>TCP peers in a loop\<close>

definition tcp_busy :: "'s tcpPeer_scheme \<Rightarrow> bool" where
  "tcp_busy = peer_busy tcp_HasBufferedSends"

text \<open>The socket of peer \<open>p\<close> behaves as \<open>W p\<close>.\<close>

definition peer_ok :: "(nat \<Rightarrow> us_write) \<Rightarrow> nat \<Rightarrow> 's tcpPeer_scheme \<Rightarrow> bool" where
  "peer_ok W p q \<longleftrightarrow> write_ok (W p) \<and> tcp_ok q \<and> queues_ok q"

lemma peer_writable:
  assumes "peer_ok W p q"
  shows "\<exists>q' r. tcp_OnWritable A (W p) q = Some (q', r) \<and> peer_ok W p q' \<and> wire q' @ unsent q' = wire q @ unsent q"
  using tcp.OnWritable_ok [of "W p" q A, unfolded good_conn handed_unsent] assms
  by (auto simp: peer_ok_def tcp_OnWritable_def)

interpretation tcp_peers: flushed_peers "\<lambda>p. tcp_OnWritable A (W p)" tcp_busy "peer_ok W" for A W
  using peer_writable by unfold_locales blast

definition tcp_FlushPendingPeers :: "(nat \<Rightarrow> bytes) \<Rightarrow> (nat \<Rightarrow> us_write) \<Rightarrow> tcpPeer FlushLoop \<Rightarrow> tcpPeer FlushLoop option" where
  "tcp_FlushPendingPeers A W = FlushPendingPeers (\<lambda>p. tcp_OnWritable A (W p)) tcp_busy"

text \<open>
  What happens in a loop, in any order: a connection is made, a send command is executed, a socket becomes
  writable, the loop flushes, a connection is closed. Receiving data and everything else that does not send
  changes the counters, the flags and the decoder of a peer only.
\<close>

inductive loop_reach :: "(nat \<Rightarrow> bytes) \<Rightarrow> (nat \<Rightarrow> us_write) \<Rightarrow> tcpPeer FlushLoop \<Rightarrow> bool" for A W where
  start: "loop_reach A W \<lparr>ftabs = PeerTables_new loop, peerState = f\<rparr>"
| opened: "loop_reach A W s \<Longrightarrow> \<not> live (ftabs s) p \<Longrightarrow> tcpPeer_new A hs ls True = Some q \<Longrightarrow>
    PR_Alloc ((ftabs s)\<lparr>peerHandleOf := (peerHandleOf (ftabs s))(p := null_handle), hostOf := (hostOf (ftabs s))(p := host),
      sharedPeerOf := (sharedPeerOf (ftabs s))(p := Some p)\<rparr>) host p = Some (t, h) \<Longrightarrow>
    loop_reach A W (set_peer p q (s\<lparr>ftabs := t\<rparr>))"
| sent: "loop_reach A W s \<Longrightarrow> hloop h = Some (pmLoop (ftabs s)) \<Longrightarrow> storage_inv st \<Longrightarrow>
    ExecutePeerSendFrame_Execute tcp_HasBufferedSends s h (Some st) = Some s' \<Longrightarrow> loop_reach A W s'"
| writable: "loop_reach A W s \<Longrightarrow> live (ftabs s) p \<Longrightarrow>
    on_writable (\<lambda>p. tcp_OnWritable A (W p)) s (Some p) = Some s' \<Longrightarrow> loop_reach A W s'"
| flush: "loop_reach A W s \<Longrightarrow> tcp_FlushPendingPeers A W s = Some s' \<Longrightarrow> loop_reach A W s'"
| other: "loop_reach A W s \<Longrightarrow>
    loop_reach A W (set_peer p ((peerState s p)\<lparr>sharedPeer := Some sp, hostStats := hs, loopStats := ls, frameDecoder := d\<rparr>) s)"
| closed: "loop_reach A W s \<Longrightarrow> PR_Release (ftabs s) host h = Some (t, Some p) \<Longrightarrow>
    loop_reach A W (s\<lparr>ftabs := t\<lparr>peerHandleOf := (peerHandleOf t)(p := null_handle), sharedPeerOf := (sharedPeerOf t)(p := None)\<rparr>\<rparr>)"

definition loop_inv :: "(nat \<Rightarrow> us_write) \<Rightarrow> tcpPeer FlushLoop \<Rightarrow> bool" where
  "loop_inv W s \<longleftrightarrow> pt_inv (ftabs s) \<and> (\<forall>p. live (ftabs s) p \<longrightarrow> peer_ok W p (peerState s p)) \<and>
     (\<forall>p. live (ftabs s) p \<longrightarrow> tcp_busy (peerState s p) \<longrightarrow>
        hid (peerHandleOf (ftabs s) p) \<in> set (fpeers (peersToFlush (ftabs s))))"

lemma loop_inv_locale: "loop_inv W s \<longleftrightarrow> tcp_peers.loop_ok W s \<and> tcp_peers.registered s"
  by (auto simp: loop_inv_def tcp_peers.loop_ok_def tcp_peers.registered_def)

lemma PR_Alloc_flush: "PR_Alloc s host p = Some (s', h) \<Longrightarrow> peersToFlush s' = peersToFlush s"
  by (auto simp: PR_Alloc_def PM_Alloc_def bind_eq_Some_conv Let_def run_simps split: if_splits)

lemma PM_Release_flush: "PM_Release t h = Some (t', Some d) \<Longrightarrow> RemovePeerToFlush (peersToFlush t) (hid h) = Some (peersToFlush t')"
  by (auto simp: PM_Release_def bind_eq_Some_conv Let_def split: if_splits)

lemma PR_Release_flush:
  assumes "PR_Release t host h = Some (t', Some p)"
  shows "RemovePeerToFlush (peersToFlush t) (hid h) = Some (peersToFlush t')"
proof -
  obtain u e where u: "PM_Release t h = Some (u, e)" using assms by (auto simp: PR_Release_def bind_eq_Some_conv)
  have "e \<noteq> None \<and> peersToFlush t' = peersToFlush u"
    using assms unfolding PR_Release_def u Option.bind.simps prod.case
    by (cases e) (auto simp: bind_eq_Some_conv Let_def split: if_splits)
  then show ?thesis using PM_Release_flush u by auto
qed

lemma tcpPeer_new_idle:
  assumes "pool_ok A" "length (A 4096) \<le> 2 ^ 30" "tcpPeer_new A hs ls True = Some q" "write_ok (W p)"
  shows "peer_ok W p q" "\<not> tcp_busy q"
proof -
  obtain q' where q': "SetReadyToUse q = Some q'" "conn_ok q'" "unsent q' = []" "waiting q' = []"
    using tcpPeer_new_ok [OF assms(1,2), of hs ls] assms(3) by auto
  then obtain sp where sp: "q' = q\<lparr>sharedPeer := Some sp\<rparr>" "sharedPeer q \<noteq> None"
    by (auto simp: SetReadyToUse_def set_flag_def bind_eq_Some_conv)
  show "peer_ok W p q" using q'(2) sp assms(4) by (auto simp: conn_ok_def peer_ok_def tcp_ok_def queues_ok_def waiting_def)
  show "\<not> tcp_busy q"
    using assms(3) by (auto simp: tcpPeer_new_def tcp_busy_def peer_busy_def HasQueuedSends_def tcp_HasBufferedSends_def
        reserve_def reserve_with_def reserve_or_shrink_def BBW_new_def BBW_null_def bind_eq_Some_conv Let_def run_simps split: if_splits)
qed

lemma loop_inv_opened:
  assumes inv: "loop_inv W s" and p: "\<not> live (ftabs s) p" and q: "peer_ok W p q" "\<not> tcp_busy q"
    and t: "PR_Alloc ((ftabs s)\<lparr>peerHandleOf := (peerHandleOf (ftabs s))(p := null_handle), hostOf := (hostOf (ftabs s))(p := host),
      sharedPeerOf := (sharedPeerOf (ftabs s))(p := Some p)\<rparr>) host p = Some (t, h)"
  shows "loop_inv W (set_peer p q (s\<lparr>ftabs := t\<rparr>))"
proof -
  let ?t = "(ftabs s)\<lparr>peerHandleOf := (peerHandleOf (ftabs s))(p := null_handle), hostOf := (hostOf (ftabs s))(p := host),
      sharedPeerOf := (sharedPeerOf (ftabs s))(p := Some p)\<rparr>"
  have pt: "pt_inv ?t" "live ?t = live (ftabs s)"
    using pt_inv_dead_update [OF _ p, of "(peerHandleOf (ftabs s))(p := null_handle)" "(hostOf (ftabs s))(p := host)"] inv
    by (simp_all add: loop_inv_def live_create_update)
  have "pt_inv t" "\<And>r. live t r \<longleftrightarrow> live (ftabs s) r \<or> r = p" "peerHandleOf t = (peerHandleOf (ftabs s))(p := h)"
    using PR_Alloc_ok [OF pt(1), of p host] p t
    by (auto simp: live_create_update null_handle_def handle_valid_def)
  then show ?thesis using inv q PR_Alloc_flush [OF t] p by (auto simp: loop_inv_def)
qed

lemma loop_inv_closed:
  assumes inv: "loop_inv W s" and r: "PR_Release (ftabs s) host h = Some (t, Some p)"
  shows "loop_inv W (s\<lparr>ftabs := t\<lparr>peerHandleOf := (peerHandleOf t)(p := null_handle), sharedPeerOf := (sharedPeerOf t)(p := None)\<rparr>\<rparr>)"
proof -
  have pt: "pt_inv (ftabs s)" "slots_inv (ftabs s)" "flush_inv (ftabs s)" using inv by (auto simp: loop_inv_def pt_inv_def)
  have p: "live (ftabs s) p" "hostOf (ftabs s) p = host" "peerHandleOf (ftabs s) p = h"
    using PR_Release_cases [OF pt(1) r] by auto
  have t: "pt_inv t" "peerHandleOf t = peerHandleOf (ftabs s)" "\<And>q. live t q \<longleftrightarrow> live (ftabs s) q \<and> q \<noteq> p"
    using PR_Release_live [OF pt(1) p(1,2)] r p(3) by auto
  let ?t = "t\<lparr>peerHandleOf := (peerHandleOf t)(p := null_handle), sharedPeerOf := (sharedPeerOf t)(p := None)\<rparr>"
  have pt': "pt_inv ?t"
    using pt_inv_dead_update [OF t(1), of p "(peerHandleOf t)(p := null_handle)" "hostOf t"] t(3) unfolding hostOf_same by simp
  have fl: "set (fpeers (peersToFlush t)) = set (fpeers (peersToFlush (ftabs s))) - {hid h}"
    using RemovePeerToFlush_ok [of "peersToFlush (ftabs s)" "hid h"] PR_Release_flush [OF r] pt(3) by (auto simp: flush_inv_def)
  have "hid (peerHandleOf (ftabs s) q) \<noteq> hid h" if "live (ftabs s) q" "q \<noteq> p" for q
    using live_handle_inj [OF pt(2) that(1) p(1)] that(2) p(3) by auto
  then show ?thesis using inv pt' t(3) t(2) fl by (auto simp: loop_inv_def live_close_update)
qed

lemma Send_busy:
  assumes "peer_ok W p q" "storage_inv st"
  shows "\<exists>q' wake. tcp_PeerData_Send q (Some st) = Some (q', wake) \<and> peer_ok W p q' \<and> (wake \<longrightarrow> \<not> tcp_busy q) \<and>
    (tcp_busy q' \<longrightarrow> tcp_busy q \<or> wake)"
proof -
  have sp: "sharedPeer q \<noteq> None" using assms(1) by (simp add: peer_ok_def queues_ok_def)
  then obtain disc where disc: "IsDisconnecting q = Some disc" by (auto simp: IsDisconnecting_def has_flag_def)
  show ?thesis
  proof (cases disc)
    case True
    obtain q' where q': "count_error q = Some q'" "keeps q q'" "socket q' = socket q" "writeBuffer q' = writeBuffer q"
      "writeBufferOffset q' = writeBufferOffset q" using count_tcp(1) [OF sp] by blast
    then have "peer_ok W p q'" "tcp_busy q' = tcp_busy q"
      using assms(1) keeps_queues [OF q'(2)]
      by (auto simp: peer_ok_def tcp_ok_def tcp_busy_def peer_busy_def HasQueuedSends_def tcp_HasBufferedSends_def keeps_def)
    then show ?thesis
      using True disc q'(1) by (intro exI [of _ q'] exI [of _ False]) (simp add: tcp_PeerData_Send_def PeerData_Send_def)
  next
    case False
    then show ?thesis using disc assms frame_ok_new [OF assms(2)]
      by (auto simp: tcp_PeerData_Send_def PeerData_Send_def peer_ok_def tcp_ok_def queues_ok_def waiting_def tcp_busy_def peer_busy_def)
  qed
qed

lemma loop_inv_sent:
  assumes inv: "loop_inv W s" and h: "hloop h = Some (pmLoop (ftabs s))" and st: "storage_inv st"
  shows "\<exists>s'. ExecutePeerSendFrame_Execute tcp_HasBufferedSends s h (Some st) = Some s' \<and> loop_inv W s'"
proof -
  have pt: "pt_inv (ftabs s)" "slots_inv (ftabs s)" "flush_inv (ftabs s)" using inv by (auto simp: loop_inv_def pt_inv_def)
  show ?thesis
  proof (cases "\<exists>p. live (ftabs s) p \<and> peerHandleOf (ftabs s) p = h")
    case False
    then have "GetLocalPeerData (ftabs s) h = Some None" using ExistsLocal_iff [OF pt(2) h] by (auto simp: GetLocalPeerData_def)
    then show ?thesis using inv by (simp add: ExecutePeerSendFrame_Execute_def)
  next
    case True
    then obtain p where p: "live (ftabs s) p" "peerHandleOf (ftabs s) p = h" by blast
    have g: "GetLocalPeerData (ftabs s) h = Some (Some p)" using GetLocalPeerData_live [OF pt(2) p(1)] p(2) by simp
    have "peer_ok W p (peerState s p)" using inv p(1) by (simp add: loop_inv_def)
    then obtain q wake where q: "tcp_PeerData_Send (peerState s p) (Some st) = Some (q, wake)" "peer_ok W p q"
      "wake \<longrightarrow> \<not> tcp_busy (peerState s p)" "tcp_busy q \<longrightarrow> tcp_busy (peerState s p) \<or> wake" using Send_busy [OF _ st] by metis
    obtain fl where fl: "InsertPeerToFlush (peersToFlush (ftabs s)) (hid h) = Some fl" "ptf_inv fl"
      "set (fpeers fl) = insert (hid h) (set (fpeers (peersToFlush (ftabs s))))"
      using InsertPeerToFlush_ok pt(3) unfolding flush_inv_def by meson
    have "pt_inv ((ftabs s)\<lparr>peersToFlush := fl\<rparr>)"
      using pt_inv_flush [OF pt(1) fl(2)] fl(3) pt(3) live_slot [OF pt(2) p(1)] p(2) by (auto simp: flush_inv_def)
    then have "loop_inv W (set_peer p q (if wake then set_flush fl s else s))"
      using inv q(2,4) fl(3) p(2) by (auto simp: loop_inv_def)
    moreover have "ExecutePeerSendFrame_Execute tcp_HasBufferedSends s h (Some st) = Some (set_peer p q (if wake then set_flush fl s else s))"
      using g q(1,3) fl(1) p(2) valid_if_live [OF pt(2) p(1)]
      by (simp add: ExecutePeerSendFrame_Execute_def Loop_Send_def Loop_InsertPeerToFlush_def tcp_PeerData_Send_def tcp_busy_def)
    ultimately show ?thesis by blast
  qed
qed

lemma count_onWriteable_ok:
  assumes "peer_ok W p q"
  shows "\<exists>q'. count_onWriteable q = Some q' \<and> peer_ok W p q' \<and> tcp_busy q' = tcp_busy q \<and> wire q' = wire q \<and> unsent q' = unsent q"
  using assms by (auto simp: count_onWriteable_def peer_ok_def queues_ok_def tcp_ok_def waiting_def tcp_busy_def peer_busy_def
      HasQueuedSends_def tcp_HasBufferedSends_def unsent_def queued_bytes_def)

lemma loop_inv_set_peer:
  assumes "loop_inv W s" "peer_ok W p q" "live (ftabs s) p \<Longrightarrow> tcp_busy q \<Longrightarrow> tcp_busy (peerState s p)"
  shows "loop_inv W (set_peer p q s)"
  using assms by (auto simp: loop_inv_def)

text \<open>Sending what was there before can only end the work of a peer.\<close>

lemma writable_busy:
  assumes "peer_ok W p q" "tcp_OnWritable A (W p) q = Some (q', r)" "tcp_busy q'"
  shows "tcp_busy q"
proof (rule ccontr)
  assume n: "\<not> tcp_busy q"
  then have "\<not> HasQueuedSends q" "\<not> tcp_HasBufferedSends q" by (auto simp: tcp_busy_def peer_busy_def)
  then have "q' = q" using assms(1,2)
    by (auto simp: tcp_OnWritable_def OnWritable_def peer_ok_def queues_ok_def IsReadyToUse_def IsDisconnecting_def IsClosed_def
        has_flag_def bind_eq_Some_conv split: if_splits)
  then show False using assms(3) n by simp
qed

lemma loop_inv_writable:
  assumes inv: "loop_inv W s" and p: "live (ftabs s) p"
  shows "\<exists>s'. on_writable (\<lambda>p. tcp_OnWritable A (W p)) s (Some p) = Some s' \<and> loop_inv W s'"
proof -
  have "peer_ok W p (peerState s p)" using inv p by (simp add: loop_inv_def)
  then obtain q where q: "count_onWriteable (peerState s p) = Some q" "peer_ok W p q" "tcp_busy q = tcp_busy (peerState s p)"
    using count_onWriteable_ok by blast
  obtain q' r where q': "tcp_OnWritable A (W p) q = Some (q', r)" "peer_ok W p q'" using peer_writable [OF q(2)] by blast
  have "loop_inv W (set_peer p q' s)"
    using loop_inv_set_peer [OF inv q'(2)] writable_busy [OF q(2) q'(1)] q(3) by blast
  then show ?thesis using q(1) q'(1) by (simp add: on_writable_def)
qed

lemma tcp_flush_ok:
  assumes "loop_inv W s"
  shows "\<exists>s' fl. tcp_FlushPendingPeers A W s = Some s' \<and> loop_inv W s' \<and> ftabs s' = (ftabs s)\<lparr>peersToFlush := fl\<rparr> \<and>
    (\<forall>p. live (ftabs s) p \<longrightarrow> peerState s' p = tcp_peers.flushed A W p (peerState s p) \<and>
      (hid (peerHandleOf (ftabs s) p) \<in> set (fpeers fl) \<longleftrightarrow> tcp_busy (peerState s' p)))"
  using tcp_peers.FlushPendingPeers_ok [of W s A] assms unfolding loop_inv_locale tcp_FlushPendingPeers_def by blast

lemma loop_reach_inv:
  assumes "loop_reach A W s" "pool_ok A" "length (A 4096) \<le> 2 ^ 30" "\<And>p. write_ok (W p)"
  shows "loop_inv W s"
  using assms(1)
proof (induction rule: loop_reach.induct)
  case (start loop f)
  then show ?case using pt_inv_new by (simp add: loop_inv_def live_def PeerTables_new_def)
next
  case (opened s p hs ls q host t h)
  show ?case using loop_inv_opened [OF opened.IH opened.hyps(2) _ _ opened.hyps(4)]
    tcpPeer_new_idle [where W = W and p = p, OF assms(2,3) opened.hyps(3) assms(4)] by blast
next
  case (sent s h st s')
  then show ?case using loop_inv_sent [OF sent.IH sent.hyps(2,3)] by auto
next
  case (writable s p s')
  then show ?case using loop_inv_writable [OF writable.IH writable.hyps(2), of A] by auto
next
  case (flush s s')
  then show ?case using tcp_flush_ok [OF flush.IH, of A] by auto
next
  case (other s p sp hs ls d)
  then show ?case
    by (auto simp: loop_inv_def peer_ok_def tcp_ok_def queues_ok_def waiting_def tcp_busy_def peer_busy_def HasQueuedSends_def
        tcp_HasBufferedSends_def)
next
  case (closed s host h t p)
  then show ?case using loop_inv_closed by blast
qed

lemma idle_unsent: "peer_ok W p q \<Longrightarrow> \<not> tcp_busy q \<Longrightarrow> waiting q = [] \<and> unsent q = []"
  using wb_ok_size [of "writeBuffer q"]
  by (auto simp: tcp_busy_def peer_busy_def unsent_def queued_bytes_def tcp_HasBufferedSends_def peer_ok_def tcp_ok_def
      HasQueuedSends_def waiting_def)

lemma flushed_stream:
  assumes "peer_ok W p q"
  shows "wire (tcp_peers.flushed A W p q) @ unsent (tcp_peers.flushed A W p q) = wire q @ unsent q"
  using peer_writable [OF assms, of A] by (auto simp: tcp_peers.flushed_def)

lemma flushed_eager:
  assumes ok: "peer_ok W p q" and W: "accepts_all (W p)" and ready: "map_option peerFlags (sharedPeer q) = Some BIT_READY"
  shows "map_option peerFlags (sharedPeer (tcp_peers.flushed A W p q)) = Some BIT_READY"
    "\<not> tcp_HasBufferedSends (tcp_peers.flushed A W p q)"
    "length (waiting (tcp_peers.flushed A W p q)) \<le> length (waiting q) - 384"
proof -
  obtain t where t: "tcp_OnWritable A (W p) q = Some (t, True)" "map_option peerFlags (sharedPeer t) = Some BIT_READY"
      "\<not> tcp_HasBufferedSends t" "length (waiting t) \<le> length (waiting q) - 384"
    using tcp_eager.OnWritable_progress [of "W p" q A, unfolded good_eager] ok W ready by (auto simp: peer_ok_def tcp_OnWritable_def)
  have f: "tcp_peers.flushed A W p q = (if tcp_busy q then t else q)" using t(1) by (simp add: tcp_peers.flushed_def)
  have idle: "\<not> tcp_busy q \<Longrightarrow> \<not> tcp_HasBufferedSends q \<and> waiting q = []"
    using idle_unsent [OF ok] by (auto simp: tcp_busy_def peer_busy_def)
  show "map_option peerFlags (sharedPeer (tcp_peers.flushed A W p q)) = Some BIT_READY"
    "\<not> tcp_HasBufferedSends (tcp_peers.flushed A W p q)" "length (waiting (tcp_peers.flushed A W p q)) \<le> length (waiting q) - 384"
    using f t ready idle by (cases "tcp_busy q"; simp)+
qed

fun flush_times :: "(nat \<Rightarrow> bytes) \<Rightarrow> (nat \<Rightarrow> us_write) \<Rightarrow> nat \<Rightarrow> tcpPeer FlushLoop \<Rightarrow> tcpPeer FlushLoop option" where
  "flush_times A W 0 s = Some s"
| "flush_times A W (Suc n) s = do { s \<leftarrow> tcp_FlushPendingPeers A W s; flush_times A W n s }"

lemma flush_times_drain:
  assumes "loop_inv W s" "accepts_all (W p)" "live (ftabs s) p" "map_option peerFlags (sharedPeer (peerState s p)) = Some BIT_READY"
    "length (waiting (peerState s p)) \<le> 384 * n"
  shows "\<exists>s'. flush_times A W (Suc n) s = Some s' \<and> unsent (peerState s' p) = [] \<and>
    wire (peerState s' p) = wire (peerState s p) @ unsent (peerState s p) \<and>
    hid (peerHandleOf (ftabs s) p) \<notin> set (fpeers (peersToFlush (ftabs s')))"
  using assms(1,3-5)
proof (induction n arbitrary: s)
  case step: 0
  obtain s' fl where s': "tcp_FlushPendingPeers A W s = Some s'" "loop_inv W s'" "ftabs s' = (ftabs s)\<lparr>peersToFlush := fl\<rparr>"
      "peerState s' p = tcp_peers.flushed A W p (peerState s p)" "hid (peerHandleOf (ftabs s) p) \<in> set (fpeers fl) \<longleftrightarrow> tcp_busy (peerState s' p)"
    using tcp_flush_ok [OF step.prems(1), of A] step.prems(2) by blast
  have ok: "peer_ok W p (peerState s p)" "peer_ok W p (peerState s' p)" using step.prems(1,2) s'(2,3) by (simp_all add: loop_inv_def)
  have "waiting (peerState s' p) = []" "\<not> tcp_HasBufferedSends (peerState s' p)"
    using flushed_eager [OF ok(1) assms(2) step.prems(3), of A] s'(4) step.prems(4) by simp_all
  then have "\<not> tcp_busy (peerState s' p)"
    using ok(2) by (auto simp: tcp_busy_def peer_busy_def HasQueuedSends_def waiting_def peer_ok_def queues_ok_def)
  then show ?case using s' idle_unsent [OF ok(2)] flushed_stream [OF ok(1), of A] by auto
next
  case (Suc n)
  obtain s1 fl where s1: "tcp_FlushPendingPeers A W s = Some s1" "loop_inv W s1" "ftabs s1 = (ftabs s)\<lparr>peersToFlush := fl\<rparr>"
      "peerState s1 p = tcp_peers.flushed A W p (peerState s p)"
    using tcp_flush_ok [OF Suc.prems(1), of A] Suc.prems(2) by blast
  have ok: "peer_ok W p (peerState s p)" using Suc.prems(1,2) by (simp add: loop_inv_def)
  note e = flushed_eager [OF ok assms(2) Suc.prems(3), of A]
  have "length (waiting (peerState s1 p)) \<le> 384 * n" using e(3) s1(4) Suc.prems(4) by simp
  then show ?case using Suc.IH [OF s1(2)] s1 e(1) Suc.prems(2) flushed_stream [OF ok, of A] by auto
qed

section \<open>Properties\<close>

text \<open>C9. No peer is forgotten by the loop. After any sequence of new connections, send commands, writable events,
  flushes and closed connections, for every behaviour of the sockets: every connected peer with unsent bytes
  is in the set of peers to flush; send commands and \<open>FlushPendingPeers\<close> do not fail; a flush keeps every
  stream intact, and afterwards the set holds exactly the peers that still have something to send.
\<close>
theorem flush_no_lost_wakeup:
  assumes "pool_ok A" "length (A 4096) \<le> 2 ^ 30" "\<And>p. write_ok (W p)" "loop_reach A W s"
    "hloop h = Some (pmLoop (ftabs s))" "storage_inv st"
  shows "ExecutePeerSendFrame_Execute tcp_HasBufferedSends s h (Some st) \<noteq> None \<and>
    hid ` peerHandleOf (ftabs s) ` {p. live (ftabs s) p \<and> unsent (peerState s p) \<noteq> []} \<subseteq> set (fpeers (peersToFlush (ftabs s))) \<and>
    (\<exists>s'. tcp_FlushPendingPeers A W s = Some s' \<and> live (ftabs s') = live (ftabs s) \<and>
      (\<forall>p. live (ftabs s) p \<longrightarrow> wire (peerState s' p) @ unsent (peerState s' p) = wire (peerState s p) @ unsent (peerState s p)) \<and>
      set (fpeers (peersToFlush (ftabs s'))) = hid ` peerHandleOf (ftabs s') ` {p. live (ftabs s') p \<and> tcp_busy (peerState s' p)})"
proof -
  have inv: "loop_inv W s" using loop_reach_inv [OF assms(4,1-3)] .
  obtain s' fl where s': "tcp_FlushPendingPeers A W s = Some s'" "loop_inv W s'" "ftabs s' = (ftabs s)\<lparr>peersToFlush := fl\<rparr>"
      "\<And>p. live (ftabs s) p \<Longrightarrow> peerState s' p = tcp_peers.flushed A W p (peerState s p)"
      "\<And>p. live (ftabs s) p \<Longrightarrow> hid (peerHandleOf (ftabs s) p) \<in> set (fpeers fl) \<longleftrightarrow> tcp_busy (peerState s' p)"
    using tcp_flush_ok [OF inv, of A] by blast
  have "\<exists>p. live (ftabs s) p \<and> hid (peerHandleOf (ftabs s) p) = i" if "i \<in> set (fpeers fl)" for i
    using slot_live [of "ftabs s'" i] s'(2,3) that by (auto simp: loop_inv_def)
  then have "set (fpeers fl) = hid ` peerHandleOf (ftabs s) ` {p. live (ftabs s) p \<and> tcp_busy (peerState s' p)}"
    using s'(5) by (fastforce simp: image_iff)
  moreover have "wire (peerState s' p) @ unsent (peerState s' p) = wire (peerState s p) @ unsent (peerState s p)"
    if "live (ftabs s) p" for p
    using flushed_stream [of W p "peerState s p" A] s'(4) [OF that] inv that by (simp add: loop_inv_def)
  moreover have "hid (peerHandleOf (ftabs s) p) \<in> set (fpeers (peersToFlush (ftabs s)))"
    if "live (ftabs s) p" "unsent (peerState s p) \<noteq> []" for p
    using inv that idle_unsent [of W p "peerState s p"] by (auto simp: loop_inv_def)
  ultimately show ?thesis using s'(1,3) loop_inv_sent [OF inv assms(5,6)] by auto
qed

text \<open>A reachable state: one ready peer with a frame to send, on a socket that takes two bytes at a time.\<close>

lemma sample_loop_reach:
  "\<exists>s. loop_reach (\<lambda>n. replicate n 0) (\<lambda>_. slow_socket) s \<and> live (ftabs s) 0 \<and> storage_inv sample_frame \<and>
    hloop (peerHandleOf (ftabs s) 0) = Some (pmLoop (ftabs s)) \<and>
    map_option peerFlags (sharedPeer (peerState s 0)) = Some BIT_READY \<and>
    wire (peerState s 0) = [] \<and> unsent (peerState s 0) = [4, 7, 8] \<and> length (waiting (peerState s 0)) = 1"
proof -
  let ?A = "\<lambda>n. replicate n (0::u8)" and ?W = "\<lambda>_::nat. slow_socket"
  let ?t = "(PeerTables_new 7)\<lparr>peerHandleOf := (peerHandleOf (PeerTables_new 7))(0 := null_handle),
    hostOf := (hostOf (PeerTables_new 7))(0 := 2), sharedPeerOf := (sharedPeerOf (PeerTables_new 7))(0 := Some 0)\<rparr>"
  have n: "\<not> live (PeerTables_new 7) 0" by (simp add: live_def PeerTables_new_def)
  obtain q q1 where q: "tcpPeer_new ?A HostStats_new LoopStats_new True = Some q" "SetReadyToUse q = Some q1" "conn_ok q1"
      "wire q1 = []" "unsent q1 = []" "waiting q1 = []"
    using tcpPeer_new_ok [OF pool_ok_zeros, of HostStats_new LoopStats_new] by auto
  have "pt_inv ?t" using pt_inv_dead_update [OF pt_inv_new n] by simp
  then obtain t h where t: "PR_Alloc ?t 2 0 = Some (t, h)" "pt_inv t" "live t 0" "peerHandleOf t 0 = h"
    using PR_Alloc_ok [of ?t 0 2] n by (fastforce simp: live_create_update null_handle_def handle_valid_def)
  define s1 where "s1 = set_peer 0 q (\<lparr>ftabs = PeerTables_new 7, peerState = \<lambda>_. q\<rparr>\<lparr>ftabs := t\<rparr>)"
  have r1: "loop_reach ?A ?W s1"
    unfolding s1_def using loop_reach.opened [OF loop_reach.start _ q(1), where p = 0 and host = 2 and t = t and h = h] n t(1) by simp
  obtain sp where sp: "q1 = q\<lparr>sharedPeer := Some sp\<rparr>" using q(2) by (auto simp: SetReadyToUse_def set_flag_def bind_eq_Some_conv)
  define s2 where "s2 = set_peer 0 q1 s1"
  have "q1 = (peerState s1 0)\<lparr>sharedPeer := Some sp, hostStats := hostStats q, loopStats := loopStats q, frameDecoder := frameDecoder q\<rparr>"
    by (simp add: s1_def sp)
  then have r2: "loop_reach ?A ?W s2"
    using loop_reach.other [OF r1, where p = 0 and sp = sp and hs = "hostStats q" and ls = "loopStats q" and d = "frameDecoder q"] by (simp add: s2_def)
  have tabs: "ftabs s2 = t" "peerState s2 0 = q1" by (simp_all add: s1_def s2_def)
  have sl: "slots_inv t" using t(2) by (simp add: pt_inv_def)
  have g: "GetLocalPeerData t h = Some (Some 0)" "handle_valid h" "hloop h = Some (pmLoop t)"
    using GetLocalPeerData_live [OF sl t(3)] valid_if_live [OF sl t(3)] t(4) by simp_all
  obtain q2 w where q2: "tcp_PeerData_Send q1 (Some sample_frame) = Some (q2, w)" "conn_ok q2"
      "wire q2 @ unsent q2 = [4, 7, 8]" "length (waiting q2) = 1"
    using Send_ok [OF q(3) sample_frame_ok(1)] q(4-6) sample_frame_ok(2) by auto
  have w: "wire q2 = []" using q2(1) q(4) q(3)
    by (auto simp: tcp_PeerData_Send_def PeerData_Send_def conn_ok_def IsDisconnecting_def has_flag_def BIT_READY_def
        BIT_DISCONNECTING_def)
  have inv: "loop_inv ?W s2"
    by (rule loop_reach_inv [OF r2]) (simp_all add: pool_ok_zeros write_ok_def slow_socket_def)
  obtain s3 where s3: "ExecutePeerSendFrame_Execute tcp_HasBufferedSends s2 h (Some sample_frame) = Some s3"
    using loop_inv_sent [OF inv _ sample_frame_ok(1), of h] g(3) tabs by auto
  have "loop_reach ?A ?W s3" using loop_reach.sent [OF r2 _ sample_frame_ok(1) s3] g(3) tabs by simp
  moreover have "peerState s3 0 = q2" "live (ftabs s3) = live t" "peerHandleOf (ftabs s3) = peerHandleOf t" "pmLoop (ftabs s3) = pmLoop t"
    using s3 g q2(1) t(4) by (auto simp: ExecutePeerSendFrame_Execute_def Loop_Send_def tabs tcp_PeerData_Send_def
        Loop_InsertPeerToFlush_def bind_eq_Some_conv split: if_splits)
  ultimately show ?thesis using t(3,4) g(3) q2 w sample_frame_ok(1) by (intro exI [of _ s3]) (simp add: conn_ok_def)
qed

theorem flush_no_lost_wakeup_witness:
  "\<exists>s. loop_reach (\<lambda>n. replicate n 0) (\<lambda>_. slow_socket) s \<and> live (ftabs s) 0 \<and> unsent (peerState s 0) = [4, 7, 8] \<and>
    hid (peerHandleOf (ftabs s) 0) \<in> set (fpeers (peersToFlush (ftabs s))) \<and>
    (\<exists>s'. tcp_FlushPendingPeers (\<lambda>n. replicate n 0) (\<lambda>_. slow_socket) s = Some s' \<and>
      wire (peerState s' 0) @ unsent (peerState s' 0) = [4, 7, 8])"
proof -
  obtain s where s: "loop_reach (\<lambda>n. replicate n 0) (\<lambda>_. slow_socket) s" "live (ftabs s) 0" "storage_inv sample_frame"
      "hloop (peerHandleOf (ftabs s) 0) = Some (pmLoop (ftabs s))" "wire (peerState s 0) = []" "unsent (peerState s 0) = [4, 7, 8]"
    using sample_loop_reach by blast
  have "pool_ok (\<lambda>n. replicate n 0)" "length (replicate 4096 (0::u8)) \<le> 2 ^ 30" "write_ok slow_socket"
    by (simp_all add: pool_ok_zeros write_ok_def slow_socket_def)
  from flush_no_lost_wakeup [OF this s(1,4,3)] show ?thesis using s(1,2,5,6) by (intro exI [of _ s]) auto
qed

text \<open>C11. Flushing drains a connection. In every reachable state, once the socket of a connected and ready peer
  accepts what it is given, one pass of \<open>FlushPendingPeers\<close> per 384 queued frames and one more write every byte
  that was handed to the peer, in order, and the peer leaves the set of peers to flush; the other sockets may
  behave in any way.
\<close>
theorem flush_drains:
  assumes "pool_ok A" "length (A 4096) \<le> 2 ^ 30" "\<And>p. write_ok (W p)" "\<And>p. write_ok (W' p)" "loop_reach A W s"
    "live (ftabs s) p" "map_option peerFlags (sharedPeer (peerState s p)) = Some BIT_READY" "accepts_all (W' p)"
    "length (waiting (peerState s p)) \<le> 384 * n"
  shows "\<exists>s'. flush_times A W' (Suc n) s = Some s' \<and> unsent (peerState s' p) = [] \<and>
    wire (peerState s' p) = wire (peerState s p) @ unsent (peerState s p) \<and>
    hid (peerHandleOf (ftabs s) p) \<notin> set (fpeers (peersToFlush (ftabs s')))"
proof -
  have "loop_inv W s" using loop_reach_inv [OF assms(5,1-3)] .
  then have "loop_inv W' s" using assms(4) by (simp add: loop_inv_def peer_ok_def)
  then show ?thesis using flush_times_drain [of W' s p n A] assms(6-9) by blast
qed

theorem flush_drains_witness:
  "\<exists>s s'. loop_reach (\<lambda>n. replicate n 0) (\<lambda>_. slow_socket) s \<and> live (ftabs s) 0 \<and> unsent (peerState s 0) = [4, 7, 8] \<and>
    flush_times (\<lambda>n. replicate n 0) (\<lambda>_ n data hm. int (length data)) (Suc 1) s = Some s' \<and>
    unsent (peerState s' 0) = [] \<and> wire (peerState s' 0) = [4, 7, 8]"
proof -
  obtain s where s: "loop_reach (\<lambda>n. replicate n 0) (\<lambda>_. slow_socket) s" "live (ftabs s) 0"
      "map_option peerFlags (sharedPeer (peerState s 0)) = Some BIT_READY" "wire (peerState s 0) = []"
      "unsent (peerState s 0) = [4, 7, 8]" "length (waiting (peerState s 0)) = 1"
    using sample_loop_reach by blast
  have "pool_ok (\<lambda>n. replicate n 0)" "length (replicate 4096 (0::u8)) \<le> 2 ^ 30" "write_ok slow_socket"
    "write_ok (\<lambda>n data hm. int (length data))"
    by (simp_all add: pool_ok_zeros write_ok_def slow_socket_def)
  from flush_drains [OF this s(1-3), of 1] show ?thesis using s by (simp add: accepts_all_def) blast
qed

end
