(* ===== verification/Loop_Index.thy ===== *)
theory Loop_Index
  imports Prelude
begin

text \<open>
  The registry that gives every loop an index: \<open>src/src/LoopAutoIndex.cpp\<close> and
  \<open>src/include/icon7/LoopAutoIndex.hpp\<close>. Loops are numbers, which stand for their addresses. The mutex of the
  registry makes each operation atomic. \<open>GetLoop\<close> calls \<open>shared_from_this\<close> on the pointer it finds, which fails
  for a loop that was destroyed; \<open>exists\<close> says which loops there are.

  The lemmas show that, although \<open>NewId\<close> stores the new loop in all free slots and leaves it there, an index that
  was handed out finds exactly the loop it was made for, and nothing once that loop is destroyed.
\<close>

section \<open>Model\<close>

record LoopIndex =
  liVersion :: u32
  liId :: nat

record LoopSlot =
  slLoop :: "nat option"
  slVersion :: u32

definition LoopAutoIndexImpl_new :: "LoopSlot list" where
  "LoopAutoIndexImpl_new = [\<lparr>slLoop = None, slVersion = 0\<rparr>]"

text \<open>The loop of \<open>NewId\<close> over the slots from 1 on does not return when it finds a free slot.\<close>

definition claim_slot :: "nat \<Rightarrow> LoopSlot \<Rightarrow> LoopSlot" where
  "claim_slot loop d = (if slLoop d = None then d\<lparr>slLoop := Some loop\<rparr> else d)"

definition NewId :: "LoopSlot list \<Rightarrow> nat \<Rightarrow> LoopSlot list \<times> LoopIndex" where
  "NewId data loop =
     (let data = take 1 data @ map (claim_slot loop) (drop 1 data) in
      (data @ [\<lparr>slLoop = Some loop, slVersion = 0\<rparr>], \<lparr>liVersion = 0, liId = length data\<rparr>))"

definition ReleaseId :: "LoopSlot list \<Rightarrow> LoopIndex \<Rightarrow> LoopSlot list" where
  "ReleaseId data index =
     (if liId index \<ge> length data then data
      else if liId index = 0 then data
      else if slVersion (data ! liId index) \<noteq> liVersion index then data
      else if slLoop (data ! liId index) = None then data
      else data[liId index := \<lparr>slLoop = None, slVersion = slVersion (data ! liId index) + 1\<rparr>])"

definition GetLoop :: "(nat \<Rightarrow> bool) \<Rightarrow> LoopSlot list \<Rightarrow> LoopIndex \<Rightarrow> nat option option" where
  "GetLoop exists data index =
     (if liId index \<ge> length data then Some None
      else if liId index = 0 then Some None
      else if slVersion (data ! liId index) \<noteq> liVersion index then Some None
      else case slLoop (data ! liId index) of
             None \<Rightarrow> Some None
           | Some loop \<Rightarrow> do { cassert (exists loop); Some (Some loop) })"

text \<open>The registry with the existing loops, each with its \<open>loopIndex\<close> member, and all indices handed out so far.\<close>

record LoopRegistry =
  idata :: "LoopSlot list"
  loopIndex :: "nat \<rightharpoonup> LoopIndex"
  handed_out :: "LoopIndex list"

definition LoopRegistry_new :: LoopRegistry where
  "LoopRegistry_new = \<lparr>idata = LoopAutoIndexImpl_new, loopIndex = Map.empty, handed_out = []\<rparr>"

definition LoopAutoIndex_new :: "LoopRegistry \<Rightarrow> nat \<Rightarrow> LoopRegistry" where
  "LoopAutoIndex_new s loop =
     (let (data, index) = NewId (idata s) loop in
      s\<lparr>idata := data, loopIndex := (loopIndex s)(loop \<mapsto> index), handed_out := handed_out s @ [index]\<rparr>)"

definition LoopAutoIndex_delete :: "LoopRegistry \<Rightarrow> nat \<Rightarrow> LoopRegistry option" where
  "LoopAutoIndex_delete s loop =
     do { index \<leftarrow> loopIndex s loop;
          Some (s\<lparr>idata := ReleaseId (idata s) index, loopIndex := (loopIndex s)(loop := None)\<rparr>) }"

definition LoopIndex_GetLoop :: "LoopRegistry \<Rightarrow> LoopIndex \<Rightarrow> nat option option" where
  "LoopIndex_GetLoop s index = GetLoop (\<lambda>l. loopIndex s l \<noteq> None) (idata s) index"

section \<open>Runs\<close>

text \<open>Loops are constructed and destroyed in any order; the address of a destroyed loop may be used again.\<close>

inductive registry_reach :: "LoopRegistry \<Rightarrow> bool" where
  start: "registry_reach LoopRegistry_new"
| construct: "registry_reach s \<Longrightarrow> loopIndex s loop = None \<Longrightarrow> registry_reach (LoopAutoIndex_new s loop)"
| destroy: "registry_reach s \<Longrightarrow> LoopAutoIndex_delete s loop = Some s' \<Longrightarrow> registry_reach s'"

text \<open>Every index that is handed out has version 0 and a slot of its own. The slot of an existing loop holds it,
  the slot of a destroyed loop has version 1.\<close>

definition registry_inv :: "LoopRegistry \<Rightarrow> bool" where
  "registry_inv s \<longleftrightarrow> length (idata s) = Suc (length (handed_out s)) \<and>
     handed_out s = map (\<lambda>i. \<lparr>liVersion = 0, liId = Suc i\<rparr>) [0..<length (handed_out s)] \<and>
     (\<forall>l ix. loopIndex s l = Some ix \<longrightarrow> ix \<in> set (handed_out s) \<and>
        idata s ! liId ix = \<lparr>slLoop = Some l, slVersion = 0\<rparr>) \<and>
     (\<forall>ix \<in> set (handed_out s). ix \<notin> ran (loopIndex s) \<longrightarrow> slVersion (idata s ! liId ix) = 1)"

lemma handed_out_iff:
  assumes "registry_inv s"
  shows "ix \<in> set (handed_out s) \<longleftrightarrow> liVersion ix = 0 \<and> 0 < liId ix \<and> liId ix < length (idata s)"
proof -
  have len: "length (idata s) = Suc (length (handed_out s))" using assms by (simp add: registry_inv_def)
  have "set (handed_out s) = (\<lambda>i. \<lparr>liVersion = 0, liId = Suc i\<rparr>) ` {0..<length (handed_out s)}"
    using assms arg_cong [of "handed_out s" _ set] unfolding registry_inv_def by (metis atLeastLessThan_upt list.set_map)
  moreover have "ix \<in> (\<lambda>i. \<lparr>liVersion = 0, liId = Suc i\<rparr>) ` {0..<length (handed_out s)} \<longleftrightarrow>
      liVersion ix = 0 \<and> 0 < liId ix \<and> liId ix \<le> length (handed_out s)"
    by (cases ix) (auto simp: image_iff gr0_conv_Suc Suc_le_eq)
  ultimately show ?thesis using len by auto
qed

lemma registry_index:
  assumes "registry_inv s" "loopIndex s l = Some ix"
  shows "ix \<in> set (handed_out s)" "idata s ! liId ix = \<lparr>slLoop = Some l, slVersion = 0\<rparr>" "liVersion ix = 0"
    "0 < liId ix" "liId ix < length (idata s)"
proof -
  show 1: "ix \<in> set (handed_out s)" "idata s ! liId ix = \<lparr>slLoop = Some l, slVersion = 0\<rparr>"
    using assms unfolding registry_inv_def by blast+
  show "liVersion ix = 0" "0 < liId ix" "liId ix < length (idata s)" using 1(1) handed_out_iff [OF assms(1)] by auto
qed

lemma registry_index_inj:
  "registry_inv s \<Longrightarrow> loopIndex s l = Some ix \<Longrightarrow> loopIndex s l' = Some ix \<Longrightarrow> l' = l"
  by (metis registry_index(2) LoopSlot.select_convs(1) option.inject)

lemma nth_claimed:
  assumes "i < length data" "data \<noteq> []"
  shows "(take 1 data @ map (claim_slot loop) (drop 1 data)) ! i = (if i = 0 then data ! 0 else claim_slot loop (data ! i))"
  using assms by (cases data; cases i) auto

lemma construct_inv:
  assumes inv: "registry_inv s" and l: "loopIndex s loop = None"
  shows "registry_inv (LoopAutoIndex_new s loop)"
proof -
  let ?d = "take 1 (idata s) @ map (claim_slot loop) (drop 1 (idata s))" and ?n = "length (idata s)"
  let ?new = "\<lparr>liVersion = 0, liId = ?n\<rparr>" and ?s = "LoopAutoIndex_new s loop"
  have len: "?n = Suc (length (handed_out s))" using inv by (simp add: registry_inv_def)
  then have ne: "idata s \<noteq> []" and ld: "length ?d = ?n" by auto
  have s: "idata ?s = ?d @ [\<lparr>slLoop = Some loop, slVersion = 0\<rparr>]" "loopIndex ?s = (loopIndex s)(loop \<mapsto> ?new)"
    "handed_out ?s = handed_out s @ [?new]"
    using ld by (simp_all add: LoopAutoIndex_new_def NewId_def Let_def)
  have nth: "idata ?s ! i = claim_slot loop (idata s ! i)" if "0 < i" "i < ?n" for i
    using nth_claimed [OF that(2) ne, of loop] that ld by (simp add: s(1) nth_append)
  have last: "idata ?s ! ?n = \<lparr>slLoop = Some loop, slVersion = 0\<rparr>" using nth_append_length [of ?d] ld s(1) by metis
  have new: "?new \<notin> set (handed_out s)" using handed_out_iff [OF inv] by simp
  have "handed_out s = map (\<lambda>i. \<lparr>liVersion = 0, liId = Suc i\<rparr>) [0..<length (handed_out s)]"
    using inv by (simp add: registry_inv_def)
  then have "handed_out ?s = map (\<lambda>i. \<lparr>liVersion = 0, liId = Suc i\<rparr>) [0..<length (handed_out ?s)]"
    unfolding s(3) using len by simp
  moreover have "ix \<in> set (handed_out ?s) \<and> idata ?s ! liId ix = \<lparr>slLoop = Some k, slVersion = 0\<rparr>"
    if k: "loopIndex ?s k = Some ix" for k ix
  proof (cases "k = loop")
    case True
    then show ?thesis using k last s(2,3) by auto
  next
    case False
    then have "loopIndex s k = Some ix" using k s(2) by simp
    from registry_index [OF inv this] show ?thesis using nth [of "liId ix"] s(3) by (simp add: claim_slot_def)
  qed
  moreover have "slVersion (idata ?s ! liId ix) = 1" if "ix \<in> set (handed_out ?s)" "ix \<notin> ran (loopIndex ?s)" for ix
  proof -
    have "ran (loopIndex ?s) = insert ?new (ran (loopIndex s))" using l s(2) by simp
    then have ix: "ix \<in> set (handed_out s)" "ix \<notin> ran (loopIndex s)" using that s(3) by auto
    then have "slVersion (idata s ! liId ix) = 1" using inv unfolding registry_inv_def by blast
    then show ?thesis using nth [of "liId ix"] handed_out_iff [OF inv, of ix] ix(1) by (simp add: claim_slot_def)
  qed
  ultimately show ?thesis unfolding registry_inv_def using len ld by (simp add: s(1,3))
qed

lemma destroy_inv:
  assumes inv: "registry_inv s" and d: "LoopAutoIndex_delete s loop = Some s'"
  shows "registry_inv s'"
proof -
  obtain ix where ix: "loopIndex s loop = Some ix" using d by (auto simp: LoopAutoIndex_delete_def bind_eq_Some_conv)
  note i = registry_index [OF inv ix]
  have s': "s' = s\<lparr>idata := (idata s)[liId ix := \<lparr>slLoop = None, slVersion = 1\<rparr>], loopIndex := (loopIndex s)(loop := None)\<rparr>"
    using d ix i by (simp add: LoopAutoIndex_delete_def ReleaseId_def)
  have other: "jx = ix" if "jx \<in> set (handed_out s)" "liId jx = liId ix" for jx
    using that i(3) handed_out_iff [OF inv, of jx] by (cases jx; cases ix) auto
  have "idata s' ! liId jx = \<lparr>slLoop = Some k, slVersion = 0\<rparr> \<and> jx \<in> set (handed_out s')" if k: "loopIndex s' k = Some jx" for k jx
  proof -
    have k': "loopIndex s k = Some jx" "k \<noteq> loop" using k s' by (auto split: if_splits)
    note j = registry_index [OF inv k'(1)]
    have "liId jx \<noteq> liId ix" using other [OF j(1)] registry_index_inj [OF inv ix, of k] k' by auto
    then show ?thesis using j s' by simp
  qed
  moreover have "slVersion (idata s' ! liId jx) = 1" if jx: "jx \<in> set (handed_out s')" "jx \<notin> ran (loopIndex s')" for jx
  proof (cases "jx = ix")
    case True
    then show ?thesis using i(5) s' by simp
  next
    case False
    then have ne: "liId jx \<noteq> liId ix" using other [of jx] jx(1) s' by auto
    have "jx \<notin> ran (loopIndex s)" using jx(2) False ix unfolding s' ran_def
      by (auto split: if_splits) (metis option.inject)
    then show ?thesis using inv jx(1) ne s' unfolding registry_inv_def by simp
  qed
  ultimately show ?thesis using inv unfolding registry_inv_def by (simp add: s')
qed

lemma registry_reach_inv: "registry_reach s \<Longrightarrow> registry_inv s"
proof (induction rule: registry_reach.induct)
  case start
  then show ?case by (simp add: registry_inv_def LoopRegistry_new_def LoopAutoIndexImpl_new_def)
qed (auto intro: construct_inv destroy_inv)

section \<open>Properties\<close>

text \<open>C18. Loop indices never find the wrong loop. After any sequence of constructions and destructions of
  loops no two indices that were handed out are equal, the index of an existing loop finds this loop, and the
  index of a destroyed loop finds none: it never leads to another loop, nor to a destroyed one. The table has one
  slot per loop ever constructed: slots are not used again.\<close>
theorem loop_index_lookup:
  assumes "registry_reach s"
  shows "distinct (handed_out s) \<and> length (idata s) = Suc (length (handed_out s)) \<and>
    (\<forall>ix \<in> set (handed_out s) - ran (loopIndex s). LoopIndex_GetLoop s ix = Some None) \<and>
    (\<forall>l ix. loopIndex s l = Some ix \<longrightarrow> ix \<in> set (handed_out s) \<and> LoopIndex_GetLoop s ix = Some (Some l))"
proof -
  have inv: "registry_inv s" using registry_reach_inv [OF assms] .
  have "distinct (map (\<lambda>i. \<lparr>liVersion = 0, liId = Suc i\<rparr>) [0..<length (handed_out s)])"
    by (simp add: distinct_map inj_on_def)
  then have "distinct (handed_out s)" using inv unfolding registry_inv_def by argo
  moreover have found: "LoopIndex_GetLoop s ix = Some (Some l)" if "loopIndex s l = Some ix" for l ix
    using registry_index [OF inv that] that by (simp add: LoopIndex_GetLoop_def GetLoop_def)
  moreover have "LoopIndex_GetLoop s ix = Some None" if "ix \<in> set (handed_out s)" "ix \<notin> ran (loopIndex s)" for ix
    using inv that handed_out_iff [OF inv, of ix] by (simp add: registry_inv_def LoopIndex_GetLoop_def GetLoop_def)
  moreover have "length (idata s) = Suc (length (handed_out s))" using inv by (simp add: registry_inv_def)
  ultimately show ?thesis using registry_index(1) [OF inv] by blast
qed

definition sample_registry :: LoopRegistry where
  "sample_registry = LoopAutoIndex_new (the (LoopAutoIndex_delete (LoopAutoIndex_new LoopRegistry_new 70) 70)) 80"

lemma sample_registry_reach: "registry_reach sample_registry"
proof -
  let ?s = "LoopAutoIndex_new LoopRegistry_new 70"
  have "registry_reach ?s" by (rule construct [OF start]) (simp add: LoopRegistry_new_def)
  then have "registry_reach (the (LoopAutoIndex_delete ?s 70))"
    by (rule destroy [where loop = 70]) (simp add: LoopAutoIndex_delete_def LoopAutoIndex_new_def NewId_def LoopRegistry_new_def Let_def)
  then show ?thesis unfolding sample_registry_def
    by (rule construct) (simp add: LoopAutoIndex_delete_def LoopAutoIndex_new_def NewId_def LoopRegistry_new_def Let_def)
qed

lemma sample_registry_index:
  "handed_out sample_registry = [\<lparr>liVersion = 0, liId = 1\<rparr>, \<lparr>liVersion = 0, liId = 2\<rparr>]"
  "loopIndex sample_registry = [80 \<mapsto> \<lparr>liVersion = 0, liId = 2\<rparr>]"
  by (simp_all add: sample_registry_def LoopAutoIndex_delete_def LoopAutoIndex_new_def NewId_def LoopRegistry_new_def
      ReleaseId_def LoopAutoIndexImpl_new_def Let_def claim_slot_def fun_eq_iff)

theorem loop_index_lookup_witness:
  "registry_reach sample_registry \<and> LoopIndex_GetLoop sample_registry \<lparr>liVersion = 0, liId = 2\<rparr> = Some (Some 80) \<and>
   LoopIndex_GetLoop sample_registry \<lparr>liVersion = 0, liId = 1\<rparr> = Some None"
  using loop_index_lookup [OF sample_registry_reach] sample_registry_reach by (simp add: sample_registry_index)

end
