(* ===== verification/Batch_Writer.thy ===== *)
theory Batch_Writer
  imports Loop_Flush Loop_Index
begin

text \<open>
  Sending from other threads: \<open>Peer::Send\<close> and \<open>PeerHandle::Send\<close> with a handle, which enqueue a command at the
  loop of the handle, and the batches of \<open>src/src/MultiBatchWriter.cpp\<close> with the vector of
  \<open>src/include/icon7/MapLoop.hpp\<close>, which collect frames per loop and enqueue them as one command.

  The result of an operation lists the commands it enqueues, each with its loop. \<open>idOf\<close> is the id in the
  \<open>loopIndex\<close> of a loop (\<open>Loop_Index\<close>). The vector of batches is modelled with its capacity, since \<open>SendBatch\<close>
  declares a destructor and therefore has no move constructor: when the vector grows beyond its capacity, its
  elements are copied and the originals destroyed, and the destructor of \<open>SendBatch\<close> flushes. \<open>grow\<close>, an
  argument, is the capacity the vector takes for a given old size and requested size.

  The lemmas show what a batch command does when the loop executes it, that frames are enqueued once and in order
  as long as the vector does not grow, and that they are enqueued twice when it does.
\<close>

section \<open>Commands\<close>

type_synonym SendData = "ByteBufferReadable \<times> nat \<times> u32"

datatype loop_command = ExecutePeerSendFrame PeerHandle ByteBufferReadable | CommandBatchSend "SendData list"

type_synonym enqueued = "(nat \<times> loop_command) list"

definition handle_of :: "nat \<Rightarrow> SendData \<Rightarrow> PeerHandle" where
  "handle_of loop d = (case d of (frame, i, v) \<Rightarrow> \<lparr>hid = i, hversion = v, hloop = Some loop\<rparr>)"

fun batch_send ::
  "('s PeerData_scheme \<Rightarrow> bool) \<Rightarrow> nat \<Rightarrow> 's PeerData_scheme FlushLoop \<Rightarrow> SendData list \<Rightarrow> 's PeerData_scheme FlushLoop option" where
  "batch_send hasBuf loop s [] = Some s"
| "batch_send hasBuf loop s (d # ds) =
     do { pd \<leftarrow> GetLocalPeerData (ftabs s) (handle_of loop d);
          s \<leftarrow> (case pd of Some p \<Rightarrow> Loop_Send hasBuf s p (fst d) | None \<Rightarrow> Some s);
          batch_send hasBuf loop s ds }"

definition execute_command ::
  "('s PeerData_scheme \<Rightarrow> bool) \<Rightarrow> nat \<Rightarrow> 's PeerData_scheme FlushLoop \<Rightarrow> loop_command \<Rightarrow> 's PeerData_scheme FlushLoop option" where
  "execute_command hasBuf loop s c = (case c of
       ExecutePeerSendFrame h frame \<Rightarrow> ExecutePeerSendFrame_Execute hasBuf s h frame
     | CommandBatchSend ds \<Rightarrow> batch_send hasBuf loop s ds)"

section \<open>Sending with a handle\<close>

text \<open>\<open>assert(frame.data())\<close> fails for an empty buffer; the loop of the handle is dereferenced.\<close>

definition Peer_Send :: "PeerHandle \<Rightarrow> ByteBufferReadable \<Rightarrow> enqueued option" where
  "Peer_Send peer frame =
     do { cassert (frame \<noteq> None);
          loop \<leftarrow> hloop peer;
          Some [(loop, ExecutePeerSendFrame peer frame)] }"

definition PeerHandle_Send :: "PeerHandle \<Rightarrow> ByteBufferReadable \<Rightarrow> enqueued option" where
  "PeerHandle_Send this frame = (if handle_valid this then Peer_Send this frame else Some [])"

section \<open>Batches\<close>

record SendBatch =
  sbLoop :: "nat option"
  sbData :: "SendData list"

definition SendBatch_new :: SendBatch where
  "SendBatch_new = \<lparr>sbLoop = None, sbData = []\<rparr>"

definition SendBatch_Push :: "SendBatch \<Rightarrow> PeerHandle \<Rightarrow> ByteBufferReadable \<Rightarrow> SendBatch option" where
  "SendBatch_Push b h frame =
     do { let b = (if sbLoop b = None then b\<lparr>sbLoop := hloop h\<rparr> else b);
          cassert (sbLoop b = hloop h);
          Some (b\<lparr>sbData := sbData b @ [(frame, hid h, hversion h)]\<rparr>) }"

definition SendBatch_Flush :: "SendBatch \<Rightarrow> SendBatch \<times> enqueued" where
  "SendBatch_Flush b =
     (if sbData b \<noteq> [] \<and> sbLoop b = None then (b\<lparr>sbData := []\<rparr>, [])
      else if sbData b = [] then (b, [])
      else (b\<lparr>sbData := []\<rparr>, [(the (sbLoop b), CommandBatchSend (sbData b))]))"

text \<open>The destructor flushes.\<close>

definition SendBatch_delete :: "SendBatch \<Rightarrow> enqueued" where
  "SendBatch_delete b = snd (SendBatch_Flush b)"

record MapLoop =
  mlData :: "SendBatch list"
  mlCapacity :: nat

definition MapLoop_new :: MapLoop where
  "MapLoop_new = \<lparr>mlData = [], mlCapacity = 0\<rparr>"

definition MapLoop_resize :: "(nat \<Rightarrow> nat \<Rightarrow> nat) \<Rightarrow> MapLoop \<Rightarrow> nat \<Rightarrow> MapLoop \<times> enqueued" where
  "MapLoop_resize grow m n =
     (if n \<le> mlCapacity m then (m\<lparr>mlData := vresize (mlData m) n SendBatch_new\<rparr>, [])
      else (\<lparr>mlData = vresize (mlData m) n SendBatch_new, mlCapacity = grow (length (mlData m)) n\<rparr>,
            concat (map SendBatch_delete (mlData m))))"

text \<open>\<open>Access\<close>, up to the reference it returns: the element at the index.\<close>

definition MapLoop_Access ::
  "(nat \<Rightarrow> nat) \<Rightarrow> (nat \<Rightarrow> nat \<Rightarrow> nat) \<Rightarrow> MapLoop \<Rightarrow> nat option \<Rightarrow> (MapLoop \<times> nat \<times> enqueued) option" where
  "MapLoop_Access idOf grow m loop =
     do { l \<leftarrow> loop;
          let li = idOf l;
          (if length (mlData m) \<le> li
           then do { let (m, cmds) = MapLoop_resize grow m (li + 1);
                     b \<leftarrow> vget (mlData m) li;
                     bs \<leftarrow> vset (mlData m) li (b\<lparr>sbLoop := Some l\<rparr>);
                     Some (m\<lparr>mlData := bs\<rparr>, li, cmds) }
           else Some (m, li, [])) }"

definition MultiBatchWriter_Send ::
  "(nat \<Rightarrow> nat) \<Rightarrow> (nat \<Rightarrow> nat \<Rightarrow> nat) \<Rightarrow> MapLoop \<Rightarrow> PeerHandle \<Rightarrow> ByteBufferReadable \<Rightarrow> (MapLoop \<times> enqueued) option" where
  "MultiBatchWriter_Send idOf grow m h frame =
     do { (m, li, cmds) \<leftarrow> MapLoop_Access idOf grow m (hloop h);
          b \<leftarrow> vget (mlData m) li;
          b \<leftarrow> SendBatch_Push b h frame;
          bs \<leftarrow> vset (mlData m) li b;
          Some (m\<lparr>mlData := bs\<rparr>, cmds) }"

definition flush_batch :: "SendBatch \<Rightarrow> SendBatch \<times> enqueued" where
  "flush_batch sb = (if sbLoop sb = None then (sb, []) else SendBatch_Flush sb)"

definition MultiBatchWriter_Flush :: "MapLoop \<Rightarrow> MapLoop \<times> enqueued" where
  "MultiBatchWriter_Flush m =
     (m\<lparr>mlData := map (fst \<circ> flush_batch) (mlData m)\<rparr>, concat (map (snd \<circ> flush_batch) (mlData m)))"

text \<open>\<open>Peer::Send\<close> and \<open>PeerHandle::Send\<close> with a batch writer, which may be null.\<close>

definition Peer_Send_batch ::
  "(nat \<Rightarrow> nat) \<Rightarrow> (nat \<Rightarrow> nat \<Rightarrow> nat) \<Rightarrow> MapLoop option \<Rightarrow> PeerHandle \<Rightarrow> ByteBufferReadable \<Rightarrow> (MapLoop option \<times> enqueued) option" where
  "Peer_Send_batch idOf grow batchWriter peer frame =
     do { cassert (frame \<noteq> None);
          (case batchWriter of
             Some m \<Rightarrow> do { (m, cmds) \<leftarrow> MultiBatchWriter_Send idOf grow m peer frame; Some (Some m, cmds) }
           | None \<Rightarrow> do { cmds \<leftarrow> Peer_Send peer frame; Some (None, cmds) }) }"

definition PeerHandle_Send_batch ::
  "(nat \<Rightarrow> nat) \<Rightarrow> (nat \<Rightarrow> nat \<Rightarrow> nat) \<Rightarrow> MapLoop option \<Rightarrow> PeerHandle \<Rightarrow> ByteBufferReadable \<Rightarrow> (MapLoop option \<times> enqueued) option" where
  "PeerHandle_Send_batch idOf grow batchWriter this frame =
     (if handle_valid this then Peer_Send_batch idOf grow batchWriter this frame else Some (batchWriter, []))"

section \<open>Executing a batch\<close>

text \<open>For a loop, a batch command does what one send command per frame does.\<close>

fun send_each ::
  "('s PeerData_scheme \<Rightarrow> bool) \<Rightarrow> nat \<Rightarrow> 's PeerData_scheme FlushLoop \<Rightarrow> SendData list \<Rightarrow> 's PeerData_scheme FlushLoop option" where
  "send_each hasBuf loop s [] = Some s"
| "send_each hasBuf loop s (d # ds) =
     do { s \<leftarrow> ExecutePeerSendFrame_Execute hasBuf s (handle_of loop d) (fst d); send_each hasBuf loop s ds }"

lemma dead_handle:
  assumes "slots_inv t" "hloop h = Some (pmLoop t)" "\<not> handle_valid h"
  shows "GetLocalPeerData t h = Some None"
proof -
  have "\<not> (\<exists>p. live t p \<and> peerHandleOf t p = h)" using valid_if_live [OF assms(1)] assms(3) by blast
  then show ?thesis using ExistsLocal_iff [OF assms(1,2)] by (auto simp: GetLocalPeerData_def)
qed

lemma pmLoop_sent:
  assumes "ExecutePeerSendFrame_Execute hasBuf s h frame = Some s'"
  shows "pmLoop (ftabs s') = pmLoop (ftabs s)"
  using assms by (auto simp: ExecutePeerSendFrame_Execute_def Loop_Send_def Loop_InsertPeerToFlush_def bind_eq_Some_conv
      split: if_splits option.splits)

lemma batch_send_ok:
  assumes "loop_inv W s" "pmLoop (ftabs s) = loop" "list_all (\<lambda>d. fst d \<noteq> None \<and> storage_inv (the (fst d))) ds"
  shows "\<exists>s'. batch_send tcp_HasBufferedSends loop s ds = Some s' \<and> send_each tcp_HasBufferedSends loop s ds = Some s' \<and> loop_inv W s'"
  using assms
proof (induction ds arbitrary: s)
  case (Cons d ds)
  obtain st where st: "fst d = Some st" "storage_inv st" using Cons.prems(3) by auto
  let ?h = "handle_of loop d"
  have h: "hloop ?h = Some (pmLoop (ftabs s))" using Cons.prems(2) by (simp add: handle_of_def split: prod.split)
  have sl: "slots_inv (ftabs s)" using Cons.prems(1) by (simp add: loop_inv_def pt_inv_def)
  obtain s1 where s1: "ExecutePeerSendFrame_Execute tcp_HasBufferedSends s ?h (Some st) = Some s1" "loop_inv W s1"
    using loop_inv_sent [OF Cons.prems(1) h st(2)] by blast
  obtain s2 where s2: "batch_send tcp_HasBufferedSends loop s1 ds = Some s2" "send_each tcp_HasBufferedSends loop s1 ds = Some s2"
      "loop_inv W s2"
    using Cons.IH [OF s1(2)] pmLoop_sent [OF s1(1)] Cons.prems(2,3) by auto
  have "batch_send tcp_HasBufferedSends loop s (d # ds) = batch_send tcp_HasBufferedSends loop s1 ds"
  proof (cases "handle_valid ?h")
    case True
    then show ?thesis
      using s1(1) st(1) by (auto simp: ExecutePeerSendFrame_Execute_def bind_eq_Some_conv split: option.splits)
  next
    case False
    then show ?thesis using dead_handle [OF sl h False] s1(1) by (simp add: ExecutePeerSendFrame_Execute_def)
  qed
  then show ?case using s1(1) s2 st(1) by simp
qed simp

section \<open>Frames of a loop\<close>

definition frames_for :: "nat \<Rightarrow> enqueued \<Rightarrow> SendData list" where
  "frames_for l cmds = concat (map (\<lambda>(k, c). if k = l then (case c of CommandBatchSend ds \<Rightarrow> ds
     | ExecutePeerSendFrame h frame \<Rightarrow> [(frame, hid h, hversion h)]) else []) cmds)"

lemma frames_for_simps [simp]:
  "frames_for l [] = []" "frames_for l (xs @ ys) = frames_for l xs @ frames_for l ys"
  "frames_for l ((k, CommandBatchSend ds) # cs) = (if k = l then ds else []) @ frames_for l cs"
  by (simp_all add: frames_for_def)

text \<open>A sequence of calls of \<open>MultiBatchWriter::Send\<close>.\<close>

fun batch_sends ::
  "(nat \<Rightarrow> nat) \<Rightarrow> (nat \<Rightarrow> nat \<Rightarrow> nat) \<Rightarrow> MapLoop \<Rightarrow> (PeerHandle \<times> ByteBufferReadable) list \<Rightarrow> (MapLoop \<times> enqueued) option" where
  "batch_sends idOf grow m [] = Some (m, [])"
| "batch_sends idOf grow m ((h, frame) # ms) =
     do { (m, c1) \<leftarrow> MultiBatchWriter_Send idOf grow m h frame; (m, c2) \<leftarrow> batch_sends idOf grow m ms; Some (m, c1 @ c2) }"

definition sent_to :: "nat \<Rightarrow> (PeerHandle \<times> ByteBufferReadable) list \<Rightarrow> SendData list" where
  "sent_to l ms = map (\<lambda>(h, frame). (frame, hid h, hversion h)) (filter (\<lambda>(h, frame). hloop h = Some l) ms)"

text \<open>The slot of each loop in \<open>L\<close> holds its batch \<open>f l\<close>; all other slots are empty.\<close>

definition holds :: "(nat \<Rightarrow> nat) \<Rightarrow> nat set \<Rightarrow> MapLoop \<Rightarrow> (nat \<Rightarrow> SendData list) \<Rightarrow> bool" where
  "holds idOf L m f \<longleftrightarrow> (\<forall>l \<in> L. idOf l < length (mlData m) \<and> sbData (mlData m ! idOf l) = f l \<and>
       sbLoop (mlData m ! idOf l) \<in> {None, Some l} \<and> (f l \<noteq> [] \<longrightarrow> sbLoop (mlData m ! idOf l) = Some l)) \<and>
     (\<forall>i < length (mlData m). i \<notin> idOf ` L \<longrightarrow> sbData (mlData m ! i) = [])"

lemma Send_holds:
  assumes m: "holds idOf L m f" "inj_on idOf L" and h: "hloop h = Some l" "l \<in> L"
  shows "\<exists>m'. MultiBatchWriter_Send idOf grow m h frame = Some (m', []) \<and>
    holds idOf L m' (f(l := f l @ [(frame, hid h, hversion h)]))"
proof -
  let ?b = "(mlData m ! idOf l)\<lparr>sbLoop := Some l, sbData := f l @ [(frame, hid h, hversion h)]\<rparr>"
  let ?m = "m\<lparr>mlData := (mlData m)[idOf l := ?b]\<rparr>"
  have i: "idOf l < length (mlData m)" "sbData (mlData m ! idOf l) = f l" "sbLoop (mlData m ! idOf l) \<in> {None, Some l}"
    using m(1) h(2) by (auto simp: holds_def)
  have "SendBatch_Push (mlData m ! idOf l) h frame = Some ?b"
    using i(2,3) h(1) by (auto simp: SendBatch_Push_def Let_def)
  then have "MultiBatchWriter_Send idOf grow m h frame = Some (?m, [])"
    using i(1) h(1) by (simp add: MultiBatchWriter_Send_def MapLoop_Access_def Let_def)
  moreover have eq: "idOf k = idOf l \<longleftrightarrow> k = l" if "k \<in> L" for k using m(2) h(2) that by (auto simp: inj_on_def)
  have "holds idOf L ?m (f(l := f l @ [(frame, hid h, hversion h)]))"
    using m(1) h(2) i(1) by (auto simp: holds_def nth_list_update eq inj_on_eq_iff [OF m(2)])
  ultimately show ?thesis by blast
qed

lemma batch_sends_holds:
  assumes "holds idOf L m f" "inj_on idOf L" "\<forall>(h, frame) \<in> set ms. \<exists>l \<in> L. hloop h = Some l"
  shows "\<exists>m'. batch_sends idOf grow m ms = Some (m', []) \<and> holds idOf L m' (\<lambda>l. f l @ sent_to l ms)"
  using assms(1,3)
proof (induction ms arbitrary: m f)
  case (Cons x ms)
  obtain h frame where x: "x = (h, frame)" by (cases x)
  obtain l where l: "l \<in> L" "hloop h = Some l" using Cons.prems(2) x by auto
  obtain m1 where m1: "MultiBatchWriter_Send idOf grow m h frame = Some (m1, [])"
      "holds idOf L m1 (f(l := f l @ [(frame, hid h, hversion h)]))"
    using Send_holds [OF Cons.prems(1) assms(2) l(2,1)] by blast
  have "(\<lambda>k. (f(l := f l @ [(frame, hid h, hversion h)])) k @ sent_to k ms) = (\<lambda>k. f k @ sent_to k (x # ms))"
    using l(2) x by (auto simp: fun_eq_iff sent_to_def)
  then show ?case using Cons.IH [OF m1(2)] Cons.prems(2) m1(1) x by auto
qed (simp add: sent_to_def)

lemma frames_flush_batch:
  "frames_for l (snd (flush_batch b)) = (if sbLoop b = Some l then sbData b else [])"
  by (auto simp: flush_batch_def SendBatch_Flush_def)

lemma frames_concat: "frames_for l (concat xs) = concat (map (frames_for l) xs)"
  by (induction xs) simp_all

lemma concat_single:
  assumes "i < length xs" "\<And>j. j < length xs \<Longrightarrow> j \<noteq> i \<Longrightarrow> xs ! j = []"
  shows "concat xs = xs ! i"
  using assms
proof (induction xs arbitrary: i)
  case (Cons x xs)
  show ?case
  proof (cases i)
    case 0
    have "y = []" if "y \<in> set xs" for y using that Cons.prems(2) [of "Suc j" for j] 0 by (auto simp: in_set_conv_nth)
    then show ?thesis using 0 by simp
  next
    case (Suc k)
    have "concat xs = xs ! k" using Cons.IH [of k] Cons.prems Suc by force
    then show ?thesis using Cons.prems(2) [of 0] Suc by simp
  qed
qed simp

lemma frames_Flush:
  assumes "holds idOf L m f" "inj_on idOf L" "l \<in> L"
  shows "frames_for l (snd (MultiBatchWriter_Flush m)) = f l"
proof -
  let ?g = "\<lambda>b. if sbLoop b = Some l then sbData b else []"
  have "?g (mlData m ! j) = []" if j: "j < length (mlData m)" "j \<noteq> idOf l" for j
  proof (cases "j \<in> idOf ` L")
    case True
    then obtain k where "k \<in> L" "j = idOf k" "k \<noteq> l" using j(2) by auto
    then show ?thesis using assms(1) by (fastforce simp: holds_def)
  next
    case False
    then show ?thesis using assms(1) j(1) by (simp add: holds_def)
  qed
  then have "concat (map ?g (mlData m)) = map ?g (mlData m) ! idOf l"
    using assms(1,3) by (intro concat_single) (auto simp: holds_def)
  also have "\<dots> = f l" using assms(1,3) by (auto simp: holds_def)
  finally show ?thesis by (simp add: MultiBatchWriter_Flush_def frames_concat frames_flush_batch comp_def)
qed

lemma nth_resized: "i < n \<Longrightarrow> vresize [] n SendBatch_new ! i = SendBatch_new" "length (vresize [] n SendBatch_new) = n"
  using nth_vresize [of i n "[]" SendBatch_new] by simp_all

text \<open>The first frame, to a loop whose index is not smaller than those of the others.\<close>

lemma first_Send:
  assumes h: "hloop h = Some l" "l \<in> L" and L: "inj_on idOf L" "\<And>k. k \<in> L \<Longrightarrow> idOf k \<le> idOf l"
  shows "\<exists>m'. MultiBatchWriter_Send idOf grow MapLoop_new h frame = Some (m', []) \<and>
    holds idOf L m' ((\<lambda>_. [])(l := [(frame, hid h, hversion h)]))"
proof -
  let ?n = "idOf l + 1"
  define m0 where "m0 = \<lparr>mlData = (vresize [] ?n SendBatch_new)[idOf l := SendBatch_new\<lparr>sbLoop := Some l\<rparr>], mlCapacity = grow 0 ?n\<rparr>"
  have len: "length (mlData m0) = ?n" by (simp add: m0_def nth_resized(2))
  have nth: "mlData m0 ! i = (if i = idOf l then SendBatch_new\<lparr>sbLoop := Some l\<rparr> else SendBatch_new)" if "i < ?n" for i
    using that nth_resized(1) [OF that] by (simp add: m0_def nth_list_update nth_resized(2))
  have "MapLoop_Access idOf grow MapLoop_new (Some l) = Some (m0, idOf l, [])"
    using nth_resized(1) [of "idOf l" ?n]
    by (simp add: MapLoop_Access_def MapLoop_new_def MapLoop_resize_def Let_def nth_resized(2) m0_def)
  moreover have "MapLoop_Access idOf grow m0 (Some l) = Some (m0, idOf l, [])" using len by (simp add: MapLoop_Access_def)
  ultimately have eq: "MultiBatchWriter_Send idOf grow MapLoop_new h frame = MultiBatchWriter_Send idOf grow m0 h frame"
    using h(1) by (simp add: MultiBatchWriter_Send_def)
  have "idOf k < ?n" "idOf k = idOf l \<longleftrightarrow> k = l" if "k \<in> L" for k
    using L(2) [OF that] L(1) that h(2) by (auto simp: inj_on_def)
  then have "holds idOf L m0 (\<lambda>_. [])" using nth len by (auto simp: holds_def SendBatch_new_def)
  from Send_holds [OF this L(1) h, of grow frame] show ?thesis unfolding eq by simp
qed

section \<open>Properties\<close>

text \<open>C15. A batch writer passes on every frame exactly once and in order, while its vector does not have to grow:
  when the first frame goes to a loop whose index is not smaller than those of the others, then sending any
  sequence of frames succeeds, nothing is enqueued before the flush, and the flush enqueues for every loop
  exactly the frames that were sent to handles of this loop, in order. The loops have different indices, as the
  registry of loops guarantees.\<close>
theorem batch_frames_in_order:
  assumes "hloop h = Some l" "l \<in> L" "inj_on idOf L" "\<And>k. k \<in> L \<Longrightarrow> idOf k \<le> idOf l"
    "\<forall>(h, frame) \<in> set ms. \<exists>k \<in> L. hloop h = Some k"
  shows "\<exists>m. batch_sends idOf grow MapLoop_new ((h, frame) # ms) = Some (m, []) \<and>
    (\<forall>k \<in> L. frames_for k (snd (MultiBatchWriter_Flush m)) = sent_to k ((h, frame) # ms))"
proof -
  obtain m1 where m1: "MultiBatchWriter_Send idOf grow MapLoop_new h frame = Some (m1, [])"
      "holds idOf L m1 ((\<lambda>_. [])(l := [(frame, hid h, hversion h)]))"
    using first_Send [OF assms(1-4), of grow frame] by blast
  obtain m where m: "batch_sends idOf grow m1 ms = Some (m, [])"
      "holds idOf L m (\<lambda>k. ((\<lambda>_. [])(l := [(frame, hid h, hversion h)])) k @ sent_to k ms)"
    using batch_sends_holds [OF m1(2) assms(3,5)] by blast
  have "((\<lambda>_. [])(l := [(frame, hid h, hversion h)])) k @ sent_to k ms = sent_to k ((h, frame) # ms)" for k
    using assms(1) by (simp add: sent_to_def)
  then show ?thesis using m1(1) m(1) frames_Flush [OF m(2) assms(3)] by auto
qed

definition sample_peer :: "nat \<Rightarrow> PeerHandle" where
  "sample_peer loop = \<lparr>hid = 4, hversion = 1, hloop = Some loop\<rparr>"

theorem batch_frames_in_order_witness:
  "\<exists>m. batch_sends (\<lambda>k. k) max MapLoop_new [(sample_peer 2, Some sample_frame), (sample_peer 1, Some sample_frame)] = Some (m, []) \<and>
    frames_for 1 (snd (MultiBatchWriter_Flush m)) = [(Some sample_frame, 4, 1)] \<and>
    frames_for 2 (snd (MultiBatchWriter_Flush m)) = [(Some sample_frame, 4, 1)]"
proof -
  have "hloop (sample_peer 2) = Some 2" "(2::nat) \<in> {1, 2}" "inj_on (\<lambda>k. k) {1, 2::nat}" "\<And>k. k \<in> {1, 2::nat} \<Longrightarrow> k \<le> 2"
    "\<forall>(h, frame) \<in> set [(sample_peer 1, Some sample_frame)]. \<exists>k \<in> {1, 2}. hloop h = Some k"
    by (auto simp: sample_peer_def)
  from batch_frames_in_order [OF this, of max "Some sample_frame"] show ?thesis
    by (simp add: sent_to_def sample_peer_def)
qed

text \<open>C32. A batch writer that has to grow its vector sends frames twice: when a frame was sent to a loop and the
  next one goes to a loop whose index is beyond the capacity of the vector, the destructor of the copied batch
  enqueues the first frame, and the flush enqueues it again.\<close>
theorem batch_frames_duplicated:
  assumes "hloop h1 = Some l1" "hloop h2 = Some l2" "idOf l1 < idOf l2" "grow 0 (idOf l1 + 1) \<le> idOf l2"
  shows "\<exists>m cmds. batch_sends idOf grow MapLoop_new [(h1, f1), (h2, f2)] = Some (m, cmds) \<and>
    frames_for l1 (cmds @ snd (MultiBatchWriter_Flush m)) = [(f1, hid h1, hversion h1), (f1, hid h1, hversion h1)]"
proof -
  let ?d = "(f1, hid h1, hversion h1)"
  have ne: "l1 \<noteq> l2" using assms(3) by auto
  define b1 where "b1 = \<lparr>sbLoop = Some l1, sbData = [?d]\<rparr>"
  define m1 where "m1 = \<lparr>mlData = (vresize [] (idOf l1 + 1) SendBatch_new)[idOf l1 := b1], mlCapacity = grow 0 (idOf l1 + 1)\<rparr>"
  have 1: "MultiBatchWriter_Send idOf grow MapLoop_new h1 f1 = Some (m1, [])"
    using assms(1) nth_resized(1) [of "idOf l1" "idOf l1 + 1"]
    by (simp add: MultiBatchWriter_Send_def MapLoop_Access_def MapLoop_new_def MapLoop_resize_def Let_def nth_resized(2)
        SendBatch_Push_def SendBatch_new_def m1_def b1_def)
  have len: "length (mlData m1) = idOf l1 + 1" by (simp add: m1_def nth_resized(2))
  have nth1: "mlData m1 ! i = (if i = idOf l1 then b1 else SendBatch_new)" if "i < idOf l1 + 1" for i
    using that nth_resized(1) [OF that] by (simp add: m1_def nth_list_update nth_resized(2))
  define b2 where "b2 = \<lparr>sbLoop = Some l2, sbData = [(f2, hid h2, hversion h2)]\<rparr>"
  define bs where "bs = vresize (mlData m1) (Suc (idOf l2)) SendBatch_new"
  define m2 where "m2 = \<lparr>mlData = bs[idOf l2 := b2], mlCapacity = grow (idOf l1 + 1) (idOf l2 + 1)\<rparr>"
  have lb: "length bs = idOf l2 + 1" by (simp add: bs_def)
  have nb: "bs ! i = (if i < idOf l1 + 1 then mlData m1 ! i else SendBatch_new)" if "i < idOf l2 + 1" for i
    using nth_vresize [of i "Suc (idOf l2)" "mlData m1" SendBatch_new] that len by (simp add: bs_def)
  have 2: "MultiBatchWriter_Send idOf grow m1 h2 f2 = Some (m2, concat (map SendBatch_delete (mlData m1)))"
  proof -
    have b: "bs ! idOf l2 = SendBatch_new" using nb [of "idOf l2"] assms(3) by simp
    have "\<not> idOf l2 + 1 \<le> mlCapacity m1" using assms(4) by (simp add: m1_def)
    then have "MapLoop_Access idOf grow m1 (Some l2) =
        Some (m2\<lparr>mlData := bs[idOf l2 := SendBatch_new\<lparr>sbLoop := Some l2\<rparr>]\<rparr>, idOf l2, concat (map SendBatch_delete (mlData m1)))"
      using assms(3) len lb b by (simp add: MapLoop_Access_def MapLoop_resize_def Let_def m2_def flip: bs_def)
    moreover have "SendBatch_Push (SendBatch_new\<lparr>sbLoop := Some l2\<rparr>) h2 f2 = Some b2"
      using assms(2) by (simp add: SendBatch_Push_def SendBatch_new_def b2_def)
    ultimately show ?thesis using assms(2) lb by (simp add: MultiBatchWriter_Send_def m2_def)
  qed
  have n2: "mlData m2 ! i = (if i = idOf l2 then b2 else if i = idOf l1 then b1 else SendBatch_new)" if "i < idOf l2 + 1" for i
    using that nb [OF that] nth1 [of i] lb assms(3) by (auto simp: m2_def nth_list_update)
  have lm: "length (mlData m2) = idOf l2 + 1" using lb by (simp add: m2_def)
  have "frames_for l1 (concat (map SendBatch_delete (mlData m1))) = [?d]"
  proof -
    have "concat (map (frames_for l1 \<circ> SendBatch_delete) (mlData m1)) = map (frames_for l1 \<circ> SendBatch_delete) (mlData m1) ! idOf l1"
      by (rule concat_single) (auto simp: len nth1 SendBatch_delete_def SendBatch_Flush_def SendBatch_new_def)
    also have "\<dots> = [?d]" using len nth1 by (simp add: SendBatch_delete_def SendBatch_Flush_def b1_def)
    finally show ?thesis by (simp add: frames_concat comp_def)
  qed
  moreover have "holds idOf {l1, l2} m2 ((\<lambda>_. [])(l1 := [?d], l2 := [(f2, hid h2, hversion h2)]))"
    using n2 lm assms(3) ne by (auto simp: holds_def b1_def b2_def SendBatch_new_def)
  then have "frames_for l1 (snd (MultiBatchWriter_Flush m2)) = [?d]"
    using frames_Flush [of idOf "{l1, l2}" m2 _ l1] assms(3) ne by (auto simp: inj_on_def)
  ultimately show ?thesis using 1 2 by auto
qed

text \<open>The vector of a common standard library takes the larger of the requested and twice the old size.\<close>

theorem batch_frames_duplicated_witness:
  "\<exists>m cmds. batch_sends id (\<lambda>old n. max n (2 * old)) MapLoop_new [(sample_peer 1, Some sample_frame), (sample_peer 2, None)] = Some (m, cmds) \<and>
    frames_for 1 (cmds @ snd (MultiBatchWriter_Flush m)) = [(Some sample_frame, 4, 1), (Some sample_frame, 4, 1)]"
  using batch_frames_duplicated [of "sample_peer 1" 1 "sample_peer 2" 2 id "\<lambda>old n. max n (2 * old)" "Some sample_frame" None]
  by (simp add: sample_peer_def)

end
