(* ===== verification/Spec2Isabelle.thy ===== *)
theory Spec2Isabelle
  imports Frame_Decoder Hash_Map Peers Peer_Tcp Calendar Commands Rpc Batch_Writer
begin

text \<open>
  Verification of ICon7, a C++ library for remote procedure calls over TCP.

  \<^bold>\<open>The program.\<close> A \<open>Loop\<close> runs an event loop in one thread; its \<open>Host\<close>s own sockets, and every connection is a
  \<open>PeerData\<close> object with a shared part, \<open>Peer\<close>, that other threads may use. Outside its thread a connection is
  named by a \<open>PeerHandle\<close> (slot, version, loop), which the \<open>PeerManager\<close> of the loop resolves. Other threads send
  commands to the loop through a \<open>CommandExecutionQueue\<close>, in bulk through \<open>CommandsBuffer\<close>s. A frame is a
  \<open>ByteBuffer\<close> with a header of 1 to 4 bytes; frames wait in the queues of a peer, pass through its write buffer to
  the socket, and the \<open>FrameDecoder\<close> of the receiver cuts the byte stream into frames again. \<open>RPCEnvironment\<close>
  calls the registered function and sends the result back, which ends in an \<open>OnReturnCallback\<close> kept in a
  \<open>FlatHashMap\<close>.

  \<^bold>\<open>Conventions.\<close> Code is translated into functions on records of the same members. \<open>None\<close> of an option type is a
  run that fails: a failed \<open>assert\<close>, an access outside of a vector or a null pointer dereferenced; a theorem that
  gives \<open>Some\<close> states that none of this happens. \<open>LOG_*\<close> only writes a line and is left out. Integers whose
  wrap-around matters are words; sizes and indices of vectors are natural numbers, reduced modulo \<open>2 ^ 32\<close> where the
  code stores them in 32 bits. Objects behind pointers are numbers. Loops whose end is not obvious are
  \<open>partial_function (option)\<close>, and the theorems about them show that they return; there is no fuel.

  \<^bold>\<open>Third-party code\<close> is an argument of the definitions that use it, with its documented behaviour as a
  hypothesis: the allocator \<open>A\<close> (\<open>pool_ok\<close>: a block is at least as large as requested), \<open>us_socket_write\<close>
  (\<open>write_ok\<close>: it takes at most the bytes it is given; \<open>accepts_all\<close> for progress), \<open>us_socket_close\<close> (\<open>close_ok\<close>:
  it calls \<open>on_close\<close> once), the concurrent queue (\<open>bulk_ok\<close>, \<open>greedy\<close>), the formats of bitscpp (\<open>codec_ok\<close>:
  reading gives back what was written) and the reference counters of shared buffers (\<open>refc_ok\<close>). The witnesses
  instantiate all of them.

  \<^bold>\<open>Theories.\<close>
  \<^item> \<open>Prelude\<close>: types, vectors with checked access, \<open>cassert\<close>, removal by swapping with the last element.
  \<^item> \<open>Framing\<close> (\<open>Flags.hpp\<close>, \<open>FramingProtocol.cpp\<close>): headers are read back as written for bodies of 1 byte to
    256 MiB, in the smallest size; what happens outside of this range.
  \<^item> \<open>Byte_Buffer\<close> (\<open>ByteBuffer.hpp\<close>, \<open>ByteBuffer.cpp\<close>): each operation of \<open>ByteBufferWritable\<close> refines an
    operation on lists of bytes (locale \<open>byte_store\<close>), up to a capacity of \<open>size_limit\<close>, beyond which 32-bit sizes
    wrap around; bounds of \<open>round_capacity_up\<close>.
  \<^item> \<open>Frame_Decoder\<close> (\<open>FrameDecoder.cpp\<close>, \<open>ByteBufferReadable\<close>): for every division of a stream into portions the
    decoder delivers exactly the frames of the stream.
  \<^item> \<open>Hash_Map\<close> (\<open>Hash.hpp\<close>, \<open>FlatHashMap.hpp\<close>): the chained hash map implements a partial map (locale
    \<open>partial_map\<close>) for every hash function, up to \<open>2 ^ 29\<close> entries, where the 32-bit capacity is exhausted; rehashing.
  \<^item> \<open>Peers\<close> (\<open>PeersToFlush.cpp\<close>, \<open>PeerManager.cpp\<close>, \<open>PeerHandle.hpp\<close>): invariant of the peer tables as a step
    relation; a handle is accepted exactly until its slot is released, and again only after \<open>2 ^ 32 - 1\<close> releases.
  \<^item> \<open>Stats\<close>, \<open>Peer_Data\<close>, \<open>Peer_Tcp\<close> (\<open>Stats.hpp\<close>, \<open>SendFrameStruct.hpp\<close>, \<open>Peer.cpp\<close>, \<open>PeerUStcp.cpp\<close>): queues, write
    buffer and partial writes keep the byte stream in order (locale \<open>transport\<close>), and make progress when the socket
    accepts data (locale \<open>eager_transport\<close>). A pass sends at most 384 frames, which is the constant of the code.
  \<^item> \<open>Host\<close> (\<open>Host.cpp\<close>, \<open>HostUStcp.cpp\<close>, the connection commands of \<open>Command.cpp\<close>): the life of connections as events
    in any order; every connection is reported as closed exactly once, destroying a host closes all of its peers.
  \<^item> \<open>Loop_Flush\<close> (\<open>Loop.cpp\<close>, the send commands of \<open>Command.cpp\<close>): over the tables and peers above (locale
    \<open>flushed_peers\<close>), no peer with something to send is forgotten, and flushing drains the queues.
  \<^item> \<open>Loop_Index\<close> (\<open>LoopAutoIndex.cpp\<close>): an index finds its loop until the loop is destroyed.
  \<^item> \<open>Batch_Writer\<close> (\<open>MultiBatchWriter.cpp\<close>, \<open>MapLoop.hpp\<close>, \<open>PeerHandle.cpp\<close>): frames collected per loop are
    enqueued once and in order while the vector of batches does not grow, and twice when it does.
  \<^item> \<open>Commands\<close> (\<open>Command.hpp\<close>, \<open>CommandsBuffer.cpp\<close>, \<open>CommandsBufferHandler.cpp\<close>, \<open>CommandExecutionQueue.cpp\<close>):
    tagged handles; commands placed in a block of memory are executed and destroyed once, in order; the queue
    is executed in order; the protocol that stops the executing thread, in all interleavings.
  \<^item> \<open>Rpc_Callbacks\<close>, \<open>Rpc\<close> (\<open>OnReturnCallback\<close>, \<open>RpcName\<close>, \<open>MessageConverter\<close>, \<open>RPCEnvironment\<close>): every callback is
    handed over exactly once; ids of calls are fresh; a call runs the registered function with the values that
    were passed and returns its result; the registry implements a map.
  \<^item> \<open>Calendar\<close> (\<open>Time.cpp\<close>): dates and timestamps against counting days one by one; printing and reading back.
  \<^item> This theory: the composition of framing, sending, an arbitrary socket and network, and decoding.

  \<^bold>\<open>Not modelled.\<close> \<open>FlatCuckooHashMap.hpp\<close> and \<open>MapPeerHandle.hpp\<close> (templates without users; inserting into the
  latter has no defined result), the UDP transport (disabled, mostly commented out), \<open>LoopUS.cpp\<close>, the creation of
  TLS contexts, \<open>DNS.cpp\<close>, \<open>Random.cpp\<close>, \<open>MemoryPool.cpp\<close> and \<open>Debug.cpp\<close> (calls into uSockets, the operating
  system, the allocator and the terminal), starting and stopping the thread of a loop, coroutine promises, and the
  examples. The thread of a loop is taken to be the only one that changes its tables; the code's own remarks
  about races in \<open>Loop::GetSharedPeer\<close> are outside of the model.
\<close>

section \<open>From the sender to the receiver\<close>

text \<open>A buffer with a header is moved into a readable buffer when it is sent.\<close>

lemma BBR_of_bytes: "bw_inv w \<Longrightarrow> BBR_of w = Some st \<Longrightarrow> storage_inv st \<and> storage_bytes st = contents w"
  by (auto simp: BBR_of_def storage_inv_def storage_bytes_def bw_inv_Some contents_Some split: option.splits)

lemma sent_buffers:
  assumes "list_all bw_inv ws" "map Some sts = map BBR_of ws"
  shows "list_all storage_inv sts \<and> map storage_bytes sts = map contents ws"
  using assms
proof (induction ws arbitrary: sts)
  case (Cons w ws)
  then show ?case using BBR_of_bytes [of w] by (cases sts) auto
qed simp

text \<open>C1. End to end over TCP. Bodies of 1 byte to 256 MiB get their headers from
  \<open>WriteHeaderIntoBuffer\<close> and are passed to \<open>PeerData::Send\<close> of a new, ready connection, between
  arbitrary calls of \<open>_InternalOnWritable\<close> and with arbitrary partial writes and errors of the socket.
  At every moment, whatever part of the written bytes has reached the other side, in whatever
  portions, its decoder has delivered exactly the first \<open>k\<close> bodies with their kind flags, in order,
  for some \<open>k\<close>; when nothing is left to send or to arrive, it has delivered all of them.\<close>
theorem tcp_delivery_in_order:
  assumes "pool_ok A" "length (A 4096) \<le> 2 ^ 30" "write_ok W" "refc_ok refc"
    and written: "list_all2 (\<lambda>(fl, b) w. WriteHeaderIntoBuffer A b fl = Some (w, True)) bs ws"
    and ok: "\<forall>(fl, b) \<in> set bs. bw_inv b \<and> 24 \<le> boffset b \<and> 1 \<le> bsize b \<and> bsize b \<le> 2 ^ 28"
    and sent: "map Some (sent_storages cs) = map BBR_of ws"
  shows "\<exists>s s1 s2. tcpPeer_new A hs ls True = Some s \<and> SetReadyToUse s = Some s1 \<and> peer_calls A W s1 cs = Some s2 \<and>
    (\<forall>chunks rest. concat chunks @ rest = wire s2 \<longrightarrow>
      (\<exists>d recv k. push_chunks A (Some collect) refc FrameDecoder_new [] chunks = Some (d, recv) \<and>
        map (\<lambda>(x, h). drop h x) recv = take k (map (\<lambda>(fl, b). contents b) bs) \<and>
        map (\<lambda>(x, h). GetPacketFlags x 0) recv = take k (map (\<lambda>(fl, b). Some (fl AND 6)) bs) \<and>
        fatals d = 0 \<and> (rest = [] \<and> unsent s2 = [] \<longrightarrow> length bs \<le> k)))"
proof -
  have st: "list_all storage_inv (sent_storages cs)" "map storage_bytes (sent_storages cs) = map contents ws"
    using sent_buffers [OF _ sent] written_contents [OF written ok] by auto
  obtain s s1 where s: "tcpPeer_new A hs ls True = Some s" "SetReadyToUse s = Some s1" "conn_ok s1" "wire s1 = []"
      "unsent s1 = []"
    using tcpPeer_new_ok [OF assms(1,2), of hs ls] by blast
  obtain s2 where s2: "peer_calls A W s1 cs = Some s2" "wire s2 @ unsent s2 = concat (map contents ws)"
    using peer_calls_ok [OF s(3) assms(3) st(1), of A] s(4,5) st(2) by auto
  have "\<exists>d recv k. push_chunks A (Some collect) refc FrameDecoder_new [] chunks = Some (d, recv) \<and>
      map (\<lambda>(x, h). drop h x) recv = take k (map (\<lambda>(fl, b). contents b) bs) \<and>
      map (\<lambda>(x, h). GetPacketFlags x 0) recv = take k (map (\<lambda>(fl, b). Some (fl AND 6)) bs) \<and>
      fatals d = 0 \<and> (rest = [] \<and> unsent s2 = [] \<longrightarrow> length bs \<le> k)"
    if "concat chunks @ rest = wire s2" for chunks rest
  proof -
    have "concat chunks @ rest @ unsent s2 = concat (map contents ws)" using that s2(2) by (metis append.assoc)
    from decoded_prefix [OF assms(1,4) written ok this] show ?thesis by auto
  qed
  then show ?thesis using s(1,2) s2(1) by blast
qed

theorem tcp_delivery_in_order_witness:
  "\<exists>w st s s1 s2 d recv k. WriteHeaderIntoBuffer (\<lambda>n. replicate n 0) sample_buffer 2 = Some (w, True) \<and> BBR_of w = Some st \<and>
    tcpPeer_new (\<lambda>n. replicate n 0) HostStats_new LoopStats_new True = Some s \<and> SetReadyToUse s = Some s1 \<and>
    peer_calls (\<lambda>n. replicate n 0) slow_socket s1 [Call_Send st, Call_Writable] = Some s2 \<and>
    push_chunks (\<lambda>n. replicate n 0) (Some collect) (\<lambda>_ _. 1) FrameDecoder_new [] [wire s2] = Some (d, recv) \<and>
    map (\<lambda>(x, h). drop h x) recv = take k [contents sample_buffer]"
proof -
  let ?A = "\<lambda>n. replicate n 0 :: bytes"
  have ne: "contents sample_buffer \<noteq> []" by (simp add: contents_def sample_buffer_def)
  obtain w where w: "WriteHeaderIntoBuffer ?A sample_buffer 2 = Some (w, True)" "bw_inv w" "contents w \<noteq> []"
    using WriteHeaderIntoBuffer_ok [OF sample_buffer_ok, of ?A 2] ne by auto
  then obtain st where st: "BBR_of w = Some st" by (cases "buffer w") (auto simp: BBR_of_def contents_def)
  have a: "list_all2 (\<lambda>(fl, b) w. WriteHeaderIntoBuffer ?A b fl = Some (w, True)) [(2, sample_buffer)] [w]" using w by simp
  have b: "\<forall>(fl, b) \<in> set [(2 :: u32, sample_buffer)].
      bw_inv b \<and> 24 \<le> boffset b \<and> 1 \<le> bsize b \<and> bsize b \<le> 2 ^ 28" using sample_buffer_ok by simp
  have c: "map Some (sent_storages [Call_Send st, Call_Writable]) = map BBR_of [w]" using st by simp
  have len: "length (?A 4096) \<le> 2 ^ 30" by simp
  have W: "write_ok slow_socket" by (simp add: write_ok_def slow_socket_def)
  obtain s s1 s2 where s: "tcpPeer_new ?A HostStats_new LoopStats_new True = Some s" "SetReadyToUse s = Some s1"
      "peer_calls ?A slow_socket s1 [Call_Send st, Call_Writable] = Some s2"
      "\<forall>chunks rest. concat chunks @ rest = wire s2 \<longrightarrow>
      (\<exists>d recv k. push_chunks ?A (Some collect) (\<lambda>_ _. 1) FrameDecoder_new [] chunks = Some (d, recv) \<and>
        map (\<lambda>(x, h). drop h x) recv = take k (map (\<lambda>(fl, b). contents b) [(2 :: u32, sample_buffer)]) \<and>
        map (\<lambda>(x, h). GetPacketFlags x 0) recv = take k (map (\<lambda>(fl, b). Some (fl AND 6)) [(2, sample_buffer)]) \<and>
        fatals d = 0 \<and> (rest = [] \<and> unsent s2 = [] \<longrightarrow> length [(2 :: u32, sample_buffer)] \<le> k))"
    using tcp_delivery_in_order [OF pool_ok_zeros len W refc_ok_one a b c, of HostStats_new LoopStats_new] by blast
  have "concat [wire s2] @ [] = wire s2" by simp
  from s(4) [rule_format, OF this] obtain d recv k where
      "push_chunks ?A (Some collect) (\<lambda>_ _. 1) FrameDecoder_new [] [wire s2] = Some (d, recv)"
      "map (\<lambda>(x, h). drop h x) recv = take k [contents sample_buffer]" by auto
  then show ?thesis using w(1) st s(1-3) by blast
qed

end
